(* ===== verification/Prelude.thy ===== *)
theory Prelude
  imports Main "HOL-Library.Word"
begin

text \<open>
  Types and lemmas every component shares: machine addresses and ticks as 64-bit words, the
  simulator's failures (\<open>assert\<close>, \<open>fatal\<close>, \<open>panic\<close>, an index outside a container, a container
  length error, an integer division by zero, a shift by a negative or too large distance, and
  the exhaustion of a fuel argument, which no operation of the simulator has) as an error value, sequencing of fallible steps, checked vector access, and the
  bit-level facts behind masks and shifts.
\<close>

unbundle bit_operations_syntax

type_synonym addr = "64 word"
type_synonym tick = "64 word"

datatype sim_error = Assert_Failed | Fatal_Error | Panic_Error | Out_Of_Bounds | Length_Error | Div_By_Zero | Bad_Shift | Out_Of_Fuel

type_synonym 'a res = "sim_error + 'a"

definition bindE :: "'a res \<Rightarrow> ('a \<Rightarrow> 'b res) \<Rightarrow> 'b res" where
  "bindE m f = (case m of Inl e \<Rightarrow> Inl e | Inr x \<Rightarrow> f x)"

definition assertE :: "bool \<Rightarrow> unit res" where
  "assertE b = (if b then Inr () else Inl Assert_Failed)"

lemma bindE_Inr [simp]: "bindE (Inr x) f = f x"
  by (simp add: bindE_def)

lemma bindE_Inl [simp]: "bindE (Inl e) f = Inl e"
  by (simp add: bindE_def)

lemma bindE_eq_Inr [simp]: "bindE m f = Inr y \<longleftrightarrow> (\<exists>x. m = Inr x \<and> f x = Inr y)"
  by (cases m) auto

lemma bindE_assertE [simp]: "bindE (assertE b) f = (if b then f () else Inl Assert_Failed)"
  by (simp add: assertE_def)

lemma bindE_pairE:
  assumes "bindE m (\<lambda>(a, b). f a b) = Inr y"
  obtains a b where "m = Inr (a, b)" "f a b = Inr y"
  using assms by auto

lemma bindE_assoc: "bindE (bindE m f) g = bindE m (\<lambda>x. bindE (f x) g)"
  by (cases m) auto

lemma assertE_eq_Inr [simp]: "assertE b = Inr u \<longleftrightarrow> b"
  by (simp add: assertE_def)

definition vec_get :: "'a list \<Rightarrow> nat \<Rightarrow> 'a res" where
  "vec_get xs i = (if i < length xs then Inr (xs ! i) else Inl Out_Of_Bounds)"

lemma vec_get_in [simp]: "i < length xs \<Longrightarrow> vec_get xs i = Inr (xs ! i)"
  by (simp add: vec_get_def)

lemma vec_get_out [simp]: "length xs \<le> i \<Longrightarrow> vec_get xs i = Inl Out_Of_Bounds"
  by (simp add: vec_get_def)

lemma vec_get_eq_Inr: "vec_get xs i = Inr x \<longleftrightarrow> i < length xs \<and> xs ! i = x"
  by (simp add: vec_get_def)

lemma and_field_eq_0_iff:
  fixes x :: "'a::len word"
  shows "x AND push_bit w (mask m) = 0 \<longleftrightarrow> take_bit m (drop_bit w x) = 0"
proof
  assume L: "x AND push_bit w (mask m) = 0"
  show "take_bit m (drop_bit w x) = 0"
  proof (rule bit_word_eqI)
    fix n assume "n < LENGTH('a)"
    have "\<not> bit (x AND push_bit w (mask m)) (w + n)" using L by simp
    then show "bit (take_bit m (drop_bit w x)) n = bit (0::'a word) n"
      using bit_imp_le_length [of x "w + n"] by (auto simp: bit_simps)
  qed
next
  assume R: "take_bit m (drop_bit w x) = 0"
  show "x AND push_bit w (mask m) = 0"
  proof (rule bit_word_eqI)
    fix n assume "n < LENGTH('a)"
    have "\<not> bit (take_bit m (drop_bit w x)) (n - w)" using R by simp
    then show "bit (x AND push_bit w (mask m)) n = bit (0::'a word) n"
      by (auto simp: bit_simps)
  qed
qed

lemma unat_shiftr: "unat (drop_bit s x) = unat x div 2 ^ s"
  unfolding unat_drop_bit_eq by (rule drop_bit_eq_div)

lemma unat_take: "unat (take_bit k x) = unat x mod 2 ^ k"
  unfolding unsigned_take_bit_eq by (rule take_bit_eq_mod)

lemma nat_and_pred_0:
  "0 < n \<Longrightarrow> n AND (n - 1) = 0 \<Longrightarrow> \<exists>k. n = (2::nat) ^ k"
proof (induction n rule: less_induct)
  case (less n)
  show ?case
  proof (cases "even n")
    case True
    then obtain m where m: "n = 2 * m" by (rule evenE)
    with less.prems have "0 < m" by simp
    have "(2 * m - Suc 0) div 2 = m - Suc 0" using \<open>0 < m\<close> by presburger
    then have "n AND (n - 1) = 2 * (m AND (m - 1))"
      unfolding m using \<open>0 < m\<close> by (subst and_rec) auto
    with less.prems have "m AND (m - 1) = 0" by simp
    with less.IH [of m] m \<open>0 < m\<close> obtain k where "m = 2 ^ k" by auto
    with m have "n = 2 ^ Suc k" by simp
    then show ?thesis by blast
  next
    case False
    then obtain m where m: "n = 2 * m + 1" by (rule oddE)
    have "n AND (n - 1) = 2 * m"
      unfolding m by (subst and_rec) auto
    with less.prems m have "n = 2 ^ 0" by simp
    then show ?thesis by blast
  qed
qed

lemma word_power2_iff:
  fixes n :: "'a::len word"
  shows "(n \<noteq> 0 \<and> n AND NOT (n - 1) = n) \<longleftrightarrow> (\<exists>k < LENGTH('a). n = 2 ^ k)"
proof
  assume A: "n \<noteq> 0 \<and> n AND NOT (n - 1) = n"
  then have "n AND (n - 1) = 0"
    by (metis and_zero_eq bit.conj_cancel_left and.assoc)
  then have "unat n AND (unat n - 1) = 0"
    using A by (metis unsigned_0 unsigned_and_eq unat_minus_one)
  moreover have "0 < unat n" using A by (simp add: unat_gt_0)
  ultimately obtain k where k: "unat n = 2 ^ k" using nat_and_pred_0 by blast
  have "k < LENGTH('a)"
    using k unsigned_less [of n, where ?'a = nat] by simp
  moreover have "n = of_nat (unat n)" by simp
  then have "n = 2 ^ k" by (simp add: k)
  ultimately show "\<exists>k < LENGTH('a). n = 2 ^ k" by blast
next
  assume "\<exists>k < LENGTH('a). n = 2 ^ k"
  then obtain k where k: "k < LENGTH('a)" "n = 2 ^ k" by blast
  have "n AND NOT (n - 1) = n"
    unfolding k(2) mask_eq_exp_minus_1 [symmetric]
    by (rule bit_word_eqI) (auto simp: bit_simps)
  then show "n \<noteq> 0 \<and> n AND NOT (n - 1) = n" using k by simp
qed

lemma unat_power2: "k < LENGTH('a) \<Longrightarrow> unat ((2::'a::len word) ^ k) = 2 ^ k"
  using unat_of_nat [of "2 ^ k", where ?'a = 'a] by simp

lemma and_not_mask: "x AND NOT (mask k) = push_bit k (drop_bit k (x :: 'a::len word))"
  by (rule bit_word_eqI) (auto simp: bit_simps)

lemma unat_push_drop: "unat (push_bit k (drop_bit k (x :: 'a::len word))) = unat x div 2 ^ k * 2 ^ k"
proof -
  have "unat x div 2 ^ k * 2 ^ k \<le> unat x" by simp
  also have "\<dots> < 2 ^ LENGTH('a)" by simp
  finally have lt: "push_bit k (unat (drop_bit k x)) < 2 ^ LENGTH('a)"
    by (simp add: unat_shiftr push_bit_eq_mult)
  have "unat (push_bit k (drop_bit k x)) = take_bit LENGTH('a) (push_bit k (unat (drop_bit k x)))"
    by (rule unsigned_push_bit_eq)
  also have "\<dots> = unat x div 2 ^ k * 2 ^ k"
    using lt by (simp only: take_bit_nat_eq_self) (simp add: unat_shiftr push_bit_eq_mult)
  finally show ?thesis .
qed

lemma if_Inl_eq_Inr [simp]: "(if b then m else Inl e) = Inr x \<longleftrightarrow> b \<and> m = Inr x"
  by simp

lemma unat_ucast_up:
  fixes x :: "'a::len word"
  assumes "LENGTH('a) \<le> LENGTH('b::len)"
  shows "unat (ucast x :: 'b word) = unat x"
proof -
  have "unat x < 2 ^ LENGTH('a)" by (rule unsigned_less)
  also have "\<dots> \<le> 2 ^ LENGTH('b)" using assms by simp
  finally show ?thesis by (simp only: unsigned_ucast_eq take_bit_nat_eq_self)
qed

lemma unat_ucast_small: "unat x < 2 ^ LENGTH('b) \<Longrightarrow> unat (ucast x :: 'b::len word) = unat x"
  by (simp only: unsigned_ucast_eq take_bit_nat_eq_self)

lemma sint_small: "unat (x :: 32 word) < 2 ^ 31 \<Longrightarrow> sint x = int (unat x)"
proof -
  assume "unat x < 2 ^ 31"
  then have "int (unat x) < int (2 ^ 31)" by (simp only: of_nat_less_iff)
  then have "uint x < 2 ^ 31" by simp
  moreover have "- (2 ^ 31) \<le> uint x" by (rule order_trans [OF _ unsigned_greater_eq]) simp
  ultimately show ?thesis by (simp add: sint_uint signed_take_bit_int_eq_self_iff)
qed

lemma unat_scast_up:
  assumes "unat (x :: 32 word) < 2 ^ 31"
  shows "unat (scast x :: 64 word) = unat x"
proof -
  have "(scast x :: 64 word) = of_int (sint x)" by simp
  also have "\<dots> = of_nat (unat x)" unfolding sint_small [OF assms] by (rule of_int_of_nat_eq)
  finally have e: "(scast x :: 64 word) = of_nat (unat x)" .
  have "unat x < 2 ^ 64" using assms by simp
  then show ?thesis unfolding e by (simp only: unat_of_nat) simp
qed

lemma sint_ucast_diff:
  fixes a b :: "64 word"
  assumes "unat b \<le> unat a + 2 ^ 31" "unat a < unat b + 2 ^ 31"
  shows "sint (ucast (a - b) :: 32 word) = int (unat a) - int (unat b)"
proof -
  let ?k = "uint a - uint b"
  have "(ucast (a - b) :: 32 word) = word_of_int (uint (a - b))"
    by (simp only: of_int_uint)
  also have "uint (a - b) = ?k mod 2 ^ 64" by (simp add: uint_word_ariths)
  also have "(word_of_int (?k mod 2 ^ 64) :: 32 word) = word_of_int ?k"
    unfolding word_of_int_eq_iff take_bit_eq_mod by (simp add: mod_mod_cancel)
  finally have e: "(ucast (a - b) :: 32 word) = word_of_int ?k" .
  have "int (unat b) \<le> int (unat a + 2 ^ 31)" "int (unat a) < int (unat b + 2 ^ 31)"
    using assms by (simp_all only: of_nat_le_iff of_nat_less_iff)
  then have "- (2 ^ 31) \<le> ?k" "?k < 2 ^ 31" by simp_all
  then show ?thesis unfolding e sint_sbintrunc' by (simp add: signed_take_bit_int_eq_self_iff)
qed

lemma unat_span:
  fixes a x :: "64 word"
  assumes "unat x \<le> unat a" "unat a - unat x < 2 ^ 64 - 1"
  shows "unat (a - x + 1) = Suc (unat a - unat x)"
proof -
  have "unat (a - x) = unat a - unat x" using assms(1) by (simp add: unat_sub word_le_nat_alt)
  then show ?thesis using assms(2) by (simp add: unat_word_ariths)
qed

lemma range_end:
  fixes a m :: "64 word"
  assumes "0 < unat m" "unat a + unat m \<le> 2 ^ 64"
  shows "unat (a + m - 1) = unat a + unat m - 1"
proof -
  have e: "a + m - 1 = a + (m - 1)" by simp
  have m: "unat (m - 1) = unat m - 1" using assms(1) by (simp add: unat_minus_one unat_gt_0)
  have "unat a + unat (m - 1) < 2 ^ 64" using assms m by simp
  then have "unat (a + (m - 1)) = unat a + (unat m - 1)"
    using m by (simp add: unat_word_ariths)
  then show ?thesis unfolding e using assms(1) by simp
qed

end
