(* ===== verification/Int_Math.thy ===== *)
theory Int_Math
  imports Prelude
begin

text \<open>
  The integer helpers of \<open>src/gem5_src/base/intmath.hh\<close>: power-of-two tests, the two shift
  cascades of \<open>floorLog2\<close> and rounding to an alignment, on words of the source's width. The lemmas
  relate them to exponents, quotients and remainders of natural numbers.
\<close>

definition leastSigBit :: "'a::len word \<Rightarrow> 'a word" where
  "leastSigBit n = n AND NOT (n - 1)"

definition isPowerOf2 :: "'a::len word \<Rightarrow> bool" where
  "isPowerOf2 n \<longleftrightarrow> n \<noteq> 0 \<and> leastSigBit n = n"

definition log2_step :: "'a::len word \<Rightarrow> nat \<Rightarrow> nat \<times> 'a word \<Rightarrow> nat \<times> 'a word" where
  "log2_step field s yx = (case yx of (y, x) \<Rightarrow>
     if x AND field \<noteq> 0 then (y + s, drop_bit s x) else (y, x))"

definition floorLog2 :: "32 word \<Rightarrow> nat res" where
  "floorLog2 x = bindE (assertE (x > 0)) (\<lambda>_.
     (let yx = log2_step 0xffff0000 16 (0, x);
          yx = log2_step 0x0000ff00 8 yx;
          yx = log2_step 0x000000f0 4 yx;
          yx = log2_step 0x0000000c 2 yx;
          (y, x) = yx
      in Inr (if x AND 0x00000002 \<noteq> 0 then y + 1 else y)))"

definition floorLog2_ull :: "64 word \<Rightarrow> nat res" where
  "floorLog2_ull x = bindE (assertE (x > 0)) (\<lambda>_.
     (let yx = log2_step 0xffffffff00000000 32 (0, x);
          yx = log2_step 0x00000000ffff0000 16 yx;
          yx = log2_step 0x000000000000ff00 8 yx;
          yx = log2_step 0x00000000000000f0 4 yx;
          yx = log2_step 0x000000000000000c 2 yx;
          (y, x) = yx
      in Inr (if x AND 0x0000000000000002 \<noteq> 0 then y + 1 else y)))"

definition roundUp :: "'a::len word \<Rightarrow> 'a word \<Rightarrow> 'a word" where
  "roundUp val align = (let msk = align - 1 in (val + msk) AND NOT msk)"

definition roundDown :: "'a::len word \<Rightarrow> 'a word \<Rightarrow> 'a word" where
  "roundDown val align = (let msk = align - 1 in val AND NOT msk)"

lemma isPowerOf2_iff: "isPowerOf2 (n :: 'a::len word) \<longleftrightarrow> (\<exists>k < LENGTH('a). n = 2 ^ k)"
  unfolding isPowerOf2_def leastSigBit_def by (rule word_power2_iff)

text \<open>One halving step keeps "the remaining word is the input shifted by the result so far".\<close>

definition log2_inv :: "'a::len word \<Rightarrow> nat \<Rightarrow> nat \<times> 'a word \<Rightarrow> bool" where
  "log2_inv x0 b yx \<longleftrightarrow>
     snd yx = drop_bit (fst yx) x0 \<and> 0 < unat (snd yx) \<and> unat (snd yx) < 2 ^ b"

lemma log2_step_inv:
  assumes inv: "log2_inv x0 (2 * s) yx" and f: "field = push_bit s (mask s)"
  shows "log2_inv x0 s (log2_step field s yx)"
proof (cases yx)
  case (Pair y x)
  have x: "x = drop_bit y x0" "0 < unat x" "unat x < 2 ^ (2 * s)"
    using inv Pair by (auto simp: log2_inv_def)
  have "unat (drop_bit s x) < 2 ^ s"
    using x(3) by (simp add: unat_shiftr div_less_iff_less_mult mult_2 power_add)
  then have tk: "take_bit s (drop_bit s x) = drop_bit s x"
    by (metis take_bit_nat_eq_self unsigned_take_bit_eq unsigned_word_eqI)
  show ?thesis
  proof (cases "x AND field = 0")
    case True
    then have "drop_bit s x = 0" using tk f by (simp add: and_field_eq_0_iff)
    then have "unat x div 2 ^ s = 0" by (metis unat_shiftr unat_0)
    then have "unat x < 2 ^ s" by (simp add: div_eq_0_iff)
    then show ?thesis using x True Pair by (simp add: log2_step_def log2_inv_def)
  next
    case False
    then have "drop_bit s x \<noteq> 0" using tk f by (simp add: and_field_eq_0_iff)
    then have "0 < unat (drop_bit s x)" by (simp add: unat_gt_0)
    then show ?thesis using x False Pair \<open>unat (drop_bit s x) < 2 ^ s\<close>
      by (simp add: log2_step_def log2_inv_def add.commute)
  qed
qed

lemma log2_final:
  assumes "log2_inv x0 1 (y, x)"
  shows "2 ^ y \<le> unat x0 \<and> unat x0 < 2 ^ Suc y"
proof -
  have "unat x0 div 2 ^ y = 1"
    using assms by (auto simp: log2_inv_def unat_shiftr)
  moreover have "unat x0 = 2 ^ y * (unat x0 div 2 ^ y) + unat x0 mod 2 ^ y" by simp
  moreover have "unat x0 mod 2 ^ y < 2 ^ y" by simp
  ultimately have "unat x0 = 2 ^ y + unat x0 mod 2 ^ y" by simp
  with \<open>unat x0 mod 2 ^ y < 2 ^ y\<close> show ?thesis unfolding power_Suc by linarith
qed

lemma log2_last_step: "(if x AND 2 \<noteq> 0 then y + 1 else y) = fst (log2_step 2 1 (y, x))"
  by (simp add: log2_step_def)

lemma log2_fields:
  "(0xffff0000::32 word) = push_bit 16 (mask 16)" "(0x0000ff00::32 word) = push_bit 8 (mask 8)"
  "(0x000000f0::32 word) = push_bit 4 (mask 4)" "(0x0000000c::32 word) = push_bit 2 (mask 2)"
  "(0x00000002::32 word) = push_bit 1 (mask 1)"
  "(0xffffffff00000000::64 word) = push_bit 32 (mask 32)"
  "(0x00000000ffff0000::64 word) = push_bit 16 (mask 16)"
  "(0x000000000000ff00::64 word) = push_bit 8 (mask 8)"
  "(0x00000000000000f0::64 word) = push_bit 4 (mask 4)"
  "(0x000000000000000c::64 word) = push_bit 2 (mask 2)"
  "(0x0000000000000002::64 word) = push_bit 1 (mask 1)"
  by (simp_all add: mask_eq_exp_minus_1)

lemma floorLog2_bounds:
  assumes "floorLog2 x = Inr y"
  shows "2 ^ y \<le> unat x \<and> unat x < 2 ^ Suc y"
proof -
  let ?s1 = "log2_step 0xffff0000 16 (0, x)"
  let ?s2 = "log2_step 0x0000ff00 8 ?s1"
  let ?s3 = "log2_step 0x000000f0 4 ?s2"
  let ?s4 = "log2_step 0x0000000c 2 ?s3"
  let ?s5 = "log2_step 0x00000002 1 ?s4"
  have x: "0 < x" and y: "y = fst ?s5"
    using assms by (auto simp: floorLog2_def Let_def log2_last_step split: prod.splits if_splits)
  have "log2_inv x (2 * 16) (0, x)"
    using x unsigned_less [of x, where ?'a = nat] by (simp add: log2_inv_def word_less_nat_alt)
  then have "log2_inv x (2 * 8) ?s1" using log2_step_inv [OF _ log2_fields(1)] by fastforce
  then have "log2_inv x (2 * 4) ?s2" using log2_step_inv [OF _ log2_fields(2)] by fastforce
  then have "log2_inv x (2 * 2) ?s3" using log2_step_inv [OF _ log2_fields(3)] by fastforce
  then have "log2_inv x (2 * 1) ?s4" using log2_step_inv [OF _ log2_fields(4)] by fastforce
  then have "log2_inv x 1 ?s5" using log2_step_inv [OF _ log2_fields(5)] by fastforce
  then show ?thesis using log2_final [of x "fst ?s5" "snd ?s5"] y by simp
qed

lemma floorLog2_ull_bounds:
  assumes "floorLog2_ull x = Inr y"
  shows "2 ^ y \<le> unat x \<and> unat x < 2 ^ Suc y"
proof -
  let ?s1 = "log2_step 0xffffffff00000000 32 (0, x)"
  let ?s2 = "log2_step 0x00000000ffff0000 16 ?s1"
  let ?s3 = "log2_step 0x000000000000ff00 8 ?s2"
  let ?s4 = "log2_step 0x00000000000000f0 4 ?s3"
  let ?s5 = "log2_step 0x000000000000000c 2 ?s4"
  let ?s6 = "log2_step 0x0000000000000002 1 ?s5"
  have x: "0 < x" and y: "y = fst ?s6"
    using assms by (auto simp: floorLog2_ull_def Let_def log2_last_step split: prod.splits if_splits)
  have "log2_inv x (2 * 32) (0, x)"
    using x unsigned_less [of x, where ?'a = nat] by (simp add: log2_inv_def word_less_nat_alt)
  then have "log2_inv x (2 * 16) ?s1" using log2_step_inv [OF _ log2_fields(6)] by fastforce
  then have "log2_inv x (2 * 8) ?s2" using log2_step_inv [OF _ log2_fields(7)] by fastforce
  then have "log2_inv x (2 * 4) ?s3" using log2_step_inv [OF _ log2_fields(8)] by fastforce
  then have "log2_inv x (2 * 2) ?s4" using log2_step_inv [OF _ log2_fields(9)] by fastforce
  then have "log2_inv x (2 * 1) ?s5" using log2_step_inv [OF _ log2_fields(10)] by fastforce
  then have "log2_inv x 1 ?s6" using log2_step_inv [OF _ log2_fields(11)] by fastforce
  then show ?thesis using log2_final [of x "fst ?s6" "snd ?s6"] y by simp
qed

lemma floorLog2_total: "0 < x \<Longrightarrow> \<exists>y. floorLog2 x = Inr y"
  by (simp add: floorLog2_def Let_def split: prod.splits)

lemma floorLog2_ull_total: "0 < x \<Longrightarrow> \<exists>y. floorLog2_ull x = Inr y"
  by (simp add: floorLog2_ull_def Let_def split: prod.splits)

lemma floorLog2_0: "floorLog2 0 = Inl Assert_Failed"
  by (simp add: floorLog2_def)

lemma power2_interval_unique:
  fixes k y :: nat
  assumes "2 ^ y \<le> n" "n < (2::nat) ^ Suc y" "2 ^ k \<le> n" "n < 2 ^ Suc k"
  shows "y = k"
proof -
  have "(2::nat) ^ y < 2 ^ Suc k" "(2::nat) ^ k < 2 ^ Suc y"
    using assms by linarith+
  then have "y < Suc k" "k < Suc y"
    using power_less_imp_less_exp [of "2::nat" y "Suc k"]
      power_less_imp_less_exp [of "2::nat" k "Suc y"] by simp_all
  then show ?thesis by simp
qed

lemma floorLog2_eq:
  assumes "2 ^ k \<le> unat x" "unat x < 2 ^ Suc k"
  shows "floorLog2 x = Inr k"
proof -
  have "0 < unat x" using assms(1) by (metis le_zero_eq not_gr0 power_not_zero zero_neq_numeral)
  then have "0 < x" by (simp add: word_less_nat_alt)
  then obtain y where y: "floorLog2 x = Inr y" using floorLog2_total by blast
  with floorLog2_bounds [OF y] assms show ?thesis
    using power2_interval_unique by blast
qed

lemma floorLog2_power2: "k < 32 \<Longrightarrow> floorLog2 (2 ^ k) = Inr k"
  by (rule floorLog2_eq) (simp_all add: unat_power2)

lemma roundDown_power2:
  fixes v :: "'a::len word"
  shows "roundDown v (2 ^ k) = push_bit k (drop_bit k v)"
  unfolding roundDown_def Let_def mask_eq_exp_minus_1 [symmetric] by (rule and_not_mask)

lemma unat_roundDown: "unat (roundDown v (2 ^ k)) = unat v div 2 ^ k * 2 ^ k"
  by (simp add: roundDown_power2 unat_push_drop)

lemma roundDown_eq_iff:
  "roundDown a (2 ^ k) = roundDown b (2 ^ k) \<longleftrightarrow> unat a div 2 ^ k = unat b div 2 ^ k"
  by (simp add: word_unat_eq_iff unat_roundDown)

lemma roundDown_idem: "roundDown (roundDown v (2 ^ k)) (2 ^ k) = roundDown v (2 ^ k)"
  by (simp add: word_unat_eq_iff unat_roundDown)

lemma unat_and_pow2:
  assumes "isPowerOf2 (n :: 'a::len word)"
  shows "unat (x AND (n - 1)) = unat x mod unat n"
proof -
  obtain k where k: "k < LENGTH('a)" "n = 2 ^ k" using assms by (auto simp: isPowerOf2_iff)
  have "x AND (n - 1) = take_bit k x"
    unfolding k(2) mask_eq_exp_minus_1 [symmetric] by (simp add: take_bit_eq_mask)
  then show ?thesis using k by (simp only: unat_take unat_power2)
qed

section \<open>Properties\<close>

text \<open>
  C35: \<open>floorLog2\<close> of an \<open>unsigned\<close> returns for every positive argument, and what it returns is
  the position of the argument's highest set bit: the argument lies between the power of two of the
  result and the next one. At zero it stops at its assertion.
\<close>

theorem floorLog2_correct:
  "(case floorLog2 x of
      Inr y \<Rightarrow> 0 < x \<and> 2 ^ y \<le> unat x \<and> unat x < 2 ^ Suc y
    | Inl e \<Rightarrow> x = 0 \<and> e = Assert_Failed)"
proof (cases "x = 0")
  case True
  then show ?thesis by (simp add: floorLog2_0)
next
  case False
  then have x: "0 < x" by (simp add: word_neq_0_conv)
  then obtain y where y: "floorLog2 x = Inr y" using floorLog2_total by blast
  with x floorLog2_bounds [OF y] show ?thesis by simp
qed

end
