(* ===== verification/Table_Spec.thy ===== *)
theory Table_Spec
  imports Prelude
begin

text \<open>
  The interface of a direct-mapped table: a key selects a slot, reading returns the slot's
  entry, writing merges an entry into the slot. Prediction tables of the simulator that are
  indexed by address bits provide it; the lemmas below say what a sequence of writes leaves
  behind, without looking at how the table computes its slots.
\<close>

fun puts :: "('s \<Rightarrow> 'k \<Rightarrow> 'e \<Rightarrow> 's res) \<Rightarrow> 's \<Rightarrow> ('k \<times> 'e) list \<Rightarrow> 's res" where
  "puts put s [] = Inr s"
| "puts put s ((k, e) # kes) = bindE (put s k e) (\<lambda>s'. puts put s' kes)"

fun last_write :: "('k \<Rightarrow> nat) \<Rightarrow> 'k \<Rightarrow> ('k \<times> 'e) list \<Rightarrow> 'e option" where
  "last_write slot k [] = None"
| "last_write slot k ((k', e) # kes) =
     (case last_write slot k kes of
        Some v \<Rightarrow> Some v
      | None \<Rightarrow> (if slot k' = slot k then Some e else None))"

locale indexed_table =
  fixes wf :: "'s \<Rightarrow> bool"
    and slot :: "'s \<Rightarrow> 'k \<Rightarrow> nat"
    and get :: "'s \<Rightarrow> 'k \<Rightarrow> 'e res"
    and put :: "'s \<Rightarrow> 'k \<Rightarrow> 'e \<Rightarrow> 's res"
    and join :: "'e \<Rightarrow> 'e \<Rightarrow> 'e"
  assumes get_total: "wf s \<Longrightarrow> \<exists>e. get s k = Inr e"
    and put_total: "wf s \<Longrightarrow> \<exists>s'. put s k e = Inr s'"
    and put_wf: "wf s \<Longrightarrow> put s k e = Inr s' \<Longrightarrow> wf s'"
    and put_slot: "put s k e = Inr s' \<Longrightarrow> slot s' = slot s"
    and get_put: "wf s \<Longrightarrow> put s k e = Inr s' \<Longrightarrow> get s k' = Inr old \<Longrightarrow>
       get s' k' = Inr (if slot s k' = slot s k then join old e else old)"
    and join_last: "join (join a b) c = join a c"
begin

lemma puts_total:
  assumes "wf s"
  shows "\<exists>s'. puts put s kes = Inr s' \<and> wf s' \<and> slot s' = slot s"
  using assms
proof (induction kes arbitrary: s)
  case Nil
  then show ?case by simp
next
  case (Cons ke kes)
  obtain k e where ke: "ke = (k, e)" by (cases ke)
  obtain s1 where s1: "put s k e = Inr s1" using put_total [OF Cons.prems] by blast
  have "wf s1" "slot s1 = slot s" using put_wf [OF Cons.prems s1] put_slot [OF s1] by auto
  with Cons.IH [of s1] ke s1 show ?case by simp
qed

lemma get_after_puts:
  assumes "wf s" "puts put s kes = Inr s'" "get s k = Inr old"
  shows "get s' k = Inr (case last_write (slot s) k kes of None \<Rightarrow> old | Some e \<Rightarrow> join old e)"
  using assms
proof (induction kes arbitrary: s old)
  case Nil
  then show ?case by simp
next
  case (Cons ke kes)
  obtain k' e where ke: "ke = (k', e)" by (cases ke)
  from Cons.prems ke obtain s1 where s1: "put s k' e = Inr s1" "puts put s1 kes = Inr s'" by auto
  have w: "wf s1" "slot s1 = slot s" using put_wf [OF Cons.prems(1) s1(1)] put_slot [OF s1(1)] by auto
  have g: "get s1 k = Inr (if slot s k = slot s k' then join old e else old)"
    by (rule get_put [OF Cons.prems(1) s1(1) Cons.prems(3)])
  from Cons.IH [OF w(1) s1(2) g] show ?case
    unfolding ke w(2) by (auto simp: join_last split: option.splits)
qed

lemma history:
  assumes "wf s" "get s k = Inr old"
  shows "\<exists>s'. puts put s kes = Inr s' \<and> wf s' \<and>
     get s' k = Inr (case last_write (slot s) k kes of None \<Rightarrow> old | Some e \<Rightarrow> join old e)"
  using puts_total [OF assms(1)] get_after_puts [OF assms(1) _ assms(2)] by blast

end

end
