(* ===== verification/Direction_Predictor.thy ===== *)
theory Direction_Predictor
  imports Int_Math Table_Spec
begin

text \<open>
  The direction predictor of \<open>src/direction_predictor.hh\<close> and \<open>src/direction_predictor.cc\<close>: an array of
  outcome flags indexed by address bits above the block offset. It provides the interface
  \<open>indexed_table\<close> in its one-pointer mode; the two-pointer mode reads and writes the slot after the
  computed one.
\<close>

section \<open>State\<close>

record dp_entry =
  pref1 :: bool
  pref2 :: bool
  prefed :: bool
  pollution :: bool
  inside :: bool

record direction_predictor =
  dp_array :: "dp_entry list"
  Dire_PredSize :: "32 word"
  Dire_PredMask :: "32 word"
  dp_block_size :: "32 word"

definition dp_entry_reset :: dp_entry where
  "dp_entry_reset =
     \<lparr>pref1 = False, pref2 = False, prefed = False, pollution = False, inside = False\<rparr>"

definition new_Direction_Predictor :: "32 word \<Rightarrow> 32 word \<Rightarrow> direction_predictor res" where
  "new_Direction_Predictor n blk =
     (if \<not> isPowerOf2 n then Inl Fatal_Error
      else Inr \<lparr>dp_array = replicate (unat n) dp_entry_reset,
                Dire_PredSize = n, Dire_PredMask = n - 1, dp_block_size = blk\<rparr>)"

section \<open>Operations\<close>

definition calcu2DP_Eidx :: "direction_predictor \<Rightarrow> 32 word \<Rightarrow> 32 word" where
  "calcu2DP_Eidx dp addr = drop_bit (unat (1 + dp_block_size dp)) addr AND Dire_PredMask dp"

definition calcu1DP_Eidx :: "direction_predictor \<Rightarrow> 32 word \<Rightarrow> 32 word" where
  "calcu1DP_Eidx dp addr = drop_bit (unat (dp_block_size dp)) addr AND Dire_PredMask dp"

definition getPrediction1 :: "direction_predictor \<Rightarrow> 32 word \<Rightarrow> dp_entry res" where
  "getPrediction1 dp addr = vec_get (dp_array dp) (unat (calcu1DP_Eidx dp addr))"

definition assign_DP_entry :: "dp_entry \<Rightarrow> dp_entry \<Rightarrow> dp_entry" where
  "assign_DP_entry new_entry old_entry = new_entry
     \<lparr>pref1 := pref1 old_entry, pref2 := pref2 old_entry,
      prefed := prefed old_entry, pollution := pollution old_entry\<rparr>"

definition dp_assign_at :: "direction_predictor \<Rightarrow> 32 word \<Rightarrow> dp_entry \<Rightarrow> direction_predictor res" where
  "dp_assign_at dp index e =
     bindE (vec_get (dp_array dp) (unat index)) (\<lambda>old.
       Inr (dp\<lparr>dp_array := (dp_array dp)[unat index := assign_DP_entry old e]\<rparr>))"

definition updateDP_array :: "direction_predictor \<Rightarrow> 32 word \<Rightarrow> dp_entry \<Rightarrow> direction_predictor res" where
  "updateDP_array dp addr e = dp_assign_at dp (calcu1DP_Eidx dp addr) e"

definition update_array ::
    "direction_predictor \<Rightarrow> 32 word \<Rightarrow> dp_entry \<times> dp_entry \<Rightarrow> bool \<Rightarrow> direction_predictor res" where
  "update_array dp addr es two_mode =
     (if two_mode then
        (let index1 = calcu2DP_Eidx dp addr;
             index2 = calcu2DP_Eidx dp addr + 1
         in bindE (dp_assign_at dp index1 (fst es)) (\<lambda>dp'. dp_assign_at dp' index2 (snd es)))
      else updateDP_array dp addr (fst es))"

definition getPrediction ::
    "direction_predictor \<Rightarrow> 32 word \<Rightarrow> dp_entry \<times> dp_entry \<Rightarrow> bool \<Rightarrow> (dp_entry \<times> dp_entry) res" where
  "getPrediction dp addr es two_mode =
     (if two_mode then
        (let index1 = calcu2DP_Eidx dp addr in
         bindE (vec_get (dp_array dp) (unat index1)) (\<lambda>e0.
         (let index2 = calcu2DP_Eidx dp addr + 1 in
         bindE (vec_get (dp_array dp) (unat index2)) (\<lambda>e1. Inr (e0, e1)))))
      else bindE (getPrediction1 dp addr) (\<lambda>e0. Inr (e0, snd es)))"

definition PtrInsideDC :: "direction_predictor \<Rightarrow> 32 word \<Rightarrow> bool \<Rightarrow> bool res" where
  "PtrInsideDC dp addr one_mode =
     (let evictionIDX = calcu1DP_Eidx dp addr in
      bindE (vec_get (dp_array dp) (unat evictionIDX)) (\<lambda>e. Inr (inside e)))"

section \<open>Well-formed predictors\<close>

definition dp_wf :: "direction_predictor \<Rightarrow> bool" where
  "dp_wf dp \<longleftrightarrow> isPowerOf2 (Dire_PredSize dp) \<and>
     Dire_PredMask dp = Dire_PredSize dp - 1 \<and> length (dp_array dp) = unat (Dire_PredSize dp)"

lemma new_Direction_Predictor_wf: "new_Direction_Predictor n b = Inr dp \<Longrightarrow> dp_wf dp"
  by (auto simp: new_Direction_Predictor_def dp_wf_def split: if_splits)

lemma dp_index_bound:
  assumes "dp_wf dp"
  shows "unat (x AND Dire_PredMask dp) < length (dp_array dp)"
proof -
  have p: "isPowerOf2 (Dire_PredSize dp)" using assms by (simp add: dp_wf_def)
  then have "0 < unat (Dire_PredSize dp)" by (auto simp: isPowerOf2_def unat_gt_0)
  then show ?thesis using assms unat_and_pow2 [OF p, of x] by (simp add: dp_wf_def)
qed

lemma calcu1DP_Eidx_bound: "dp_wf dp \<Longrightarrow> unat (calcu1DP_Eidx dp addr) < length (dp_array dp)"
  by (simp add: calcu1DP_Eidx_def dp_index_bound)

lemma calcu2DP_Eidx_bound: "dp_wf dp \<Longrightarrow> unat (calcu2DP_Eidx dp addr) < length (dp_array dp)"
  by (simp add: calcu2DP_Eidx_def dp_index_bound)

lemma calcu1DP_Eidx_eq:
  assumes "dp_wf dp"
  shows "unat (calcu1DP_Eidx dp addr) =
         unat addr div 2 ^ unat (dp_block_size dp) mod unat (Dire_PredSize dp)"
  using assms unat_and_pow2 [of "Dire_PredSize dp"]
  by (simp add: calcu1DP_Eidx_def dp_wf_def unat_shiftr)

lemma dp_assign_at_wf: "dp_wf dp \<Longrightarrow> dp_assign_at dp i e = Inr dp' \<Longrightarrow> dp_wf dp'"
  by (auto simp: dp_assign_at_def dp_wf_def)

lemma dp_assign_at_fields:
  "dp_assign_at dp i e = Inr dp' \<Longrightarrow> Dire_PredMask dp' = Dire_PredMask dp \<and> dp_block_size dp' = dp_block_size dp"
  by (auto simp: dp_assign_at_def)

lemma update_array_wf:
  assumes "dp_wf dp" "update_array dp addr es two_mode = Inr dp'"
  shows "dp_wf dp'"
  using assms
  by (auto simp: update_array_def updateDP_array_def Let_def intro: dp_assign_at_wf split: if_splits)

interpretation dp_table: indexed_table dp_wf "\<lambda>dp a. unat (calcu1DP_Eidx dp a)"
  getPrediction1 updateDP_array assign_DP_entry
proof unfold_locales
  fix s k assume "dp_wf s"
  then show "\<exists>e. getPrediction1 s k = Inr e"
    by (simp add: getPrediction1_def calcu1DP_Eidx_bound)
next
  fix s k e assume "dp_wf s"
  then show "\<exists>s'. updateDP_array s k e = Inr s'"
    by (simp add: updateDP_array_def dp_assign_at_def calcu1DP_Eidx_bound)
next
  fix s k e s' assume "dp_wf s" "updateDP_array s k e = Inr s'"
  then show "dp_wf s'" by (auto simp: updateDP_array_def intro: dp_assign_at_wf)
next
  fix s k e s' assume "updateDP_array s k e = Inr s'"
  then show "(\<lambda>a. unat (calcu1DP_Eidx s' a)) = (\<lambda>a. unat (calcu1DP_Eidx s a))"
    by (auto simp: updateDP_array_def calcu1DP_Eidx_def dest: dp_assign_at_fields)
next
  fix s k e s' k' old
  assume a: "dp_wf s" "updateDP_array s k e = Inr s'" "getPrediction1 s k' = Inr old"
  have i: "calcu1DP_Eidx s' k' = calcu1DP_Eidx s k'"
    using a(2) by (auto simp: updateDP_array_def calcu1DP_Eidx_def dest: dp_assign_at_fields)
  show "getPrediction1 s' k' =
      Inr (if unat (calcu1DP_Eidx s k') = unat (calcu1DP_Eidx s k) then assign_DP_entry old e else old)"
    using a i by (auto simp: getPrediction1_def updateDP_array_def dp_assign_at_def vec_get_eq_Inr
        calcu1DP_Eidx_bound nth_list_update)
next
  fix a b c :: dp_entry
  show "assign_DP_entry (assign_DP_entry a b) c = assign_DP_entry a c"
    by (simp add: assign_DP_entry_def)
qed

section \<open>Properties\<close>

lemma getPrediction1_new:
  "new_Direction_Predictor n b = Inr dp \<Longrightarrow> getPrediction1 dp a = Inr dp_entry_reset"
  using new_Direction_Predictor_wf [of n b dp] calcu1DP_Eidx_bound [of dp a]
  by (auto simp: new_Direction_Predictor_def getPrediction1_def split: if_splits)

lemma assign_DP_entry_reset: "assign_DP_entry dp_entry_reset e = e\<lparr>inside := False\<rparr>"
  by (simp add: assign_DP_entry_def dp_entry_reset_def)



lemma dp_pred_mask_length:
  assumes "dp_wf dp"
  shows "unat (calcu2DP_Eidx dp a + 1) < length (dp_array dp) \<longleftrightarrow> calcu2DP_Eidx dp a \<noteq> Dire_PredMask dp"
    and "calcu2DP_Eidx dp a \<noteq> Dire_PredMask dp \<Longrightarrow>
      unat (calcu2DP_Eidx dp a + 1) = Suc (unat (calcu2DP_Eidx dp a))"
proof -
  let ?i = "calcu2DP_Eidx dp a"
  have n: "Dire_PredSize dp \<noteq> 0" "Dire_PredMask dp = Dire_PredSize dp - 1"
      "length (dp_array dp) = unat (Dire_PredSize dp)"
    using assms by (auto simp: dp_wf_def isPowerOf2_def)
  have m: "unat (Dire_PredMask dp) = length (dp_array dp) - 1"
    unfolding n(2,3) using n(1) by (rule unat_minus_one)
  have lt: "?i \<noteq> Dire_PredMask dp \<Longrightarrow> Suc (unat ?i) < length (dp_array dp)"
    using calcu2DP_Eidx_bound [OF assms, of a] m by (auto simp: word_unat_eq_iff)
  have "length (dp_array dp) < 2 ^ 32"
    unfolding n(3) using unsigned_less [of "Dire_PredSize dp", where ?'a = nat] by simp
  then show s: "?i \<noteq> Dire_PredMask dp \<Longrightarrow> unat (?i + 1) = Suc (unat ?i)"
    using lt by (simp add: unat_word_ariths)
  show "unat (?i + 1) < length (dp_array dp) \<longleftrightarrow> ?i \<noteq> Dire_PredMask dp"
    using s lt n by (cases "?i = Dire_PredMask dp") auto
qed

text \<open>
  C32: a two-pointer prediction on a well-formed predictor returns the two neighbouring slots,
  except when the computed slot is the last one: then the second access is past the end of the array.
\<close>

theorem getPrediction_two_mode:
  assumes "dp_wf dp"
  shows "getPrediction dp a es True =
    (if calcu2DP_Eidx dp a = Dire_PredMask dp then Inl Out_Of_Bounds
     else Inr (dp_array dp ! unat (calcu2DP_Eidx dp a), dp_array dp ! Suc (unat (calcu2DP_Eidx dp a))))"
  using assms calcu2DP_Eidx_bound [OF assms, of a] dp_pred_mask_length [OF assms, of a]
  by (auto simp: getPrediction_def Let_def)

theorem getPrediction_two_mode_witness:
  "getPrediction \<lparr>dp_array = replicate 2 dp_entry_reset, Dire_PredSize = 2, Dire_PredMask = 1,
      dp_block_size = 6\<rparr> 128 (dp_entry_reset, dp_entry_reset) True = Inl Out_Of_Bounds"
  using getPrediction_two_mode [of "\<lparr>dp_array = replicate 2 dp_entry_reset, Dire_PredSize = 2,
      Dire_PredMask = 1, dp_block_size = 6\<rparr>" 128 "(dp_entry_reset, dp_entry_reset)"]
  by (simp add: dp_wf_def isPowerOf2_def leastSigBit_def calcu2DP_Eidx_def)

end
