(* ===== verification/Target_Reg_Bitmap.thy ===== *)
theory Target_Reg_Bitmap
  imports Prelude
begin

text \<open>
  The target register bitmap of \<open>src/targetregbitmap.hh\<close> and \<open>src/targetregbitmap.cc\<close>: a 32-bit map and the
  queue of its checkpoints, one per unresolved branch. The conditions the source states in words
  (a branch that may be mispredicted, a branch that was) are fields of the instruction.
\<close>

datatype resolution = Mispredicted | Well_Predicted

record branch_inst =
  may_mispred :: bool
  resolved :: "resolution option"

record target_reg_bitmap =
  TRB :: "32 word"
  BQ :: "32 word list"

definition access_TRB :: "target_reg_bitmap \<Rightarrow> branch_inst \<Rightarrow> target_reg_bitmap" where
  "access_TRB t inst = t"

definition EnqTRB_ToBQ :: "target_reg_bitmap \<Rightarrow> branch_inst \<Rightarrow> target_reg_bitmap" where
  "EnqTRB_ToBQ t inst = (if may_mispred inst then t\<lparr>BQ := BQ t @ [TRB t]\<rparr> else t)"

definition Deq_BQ :: "target_reg_bitmap \<Rightarrow> branch_inst \<Rightarrow> target_reg_bitmap res" where
  "Deq_BQ t inst =
     bindE (if resolved inst = Some Mispredicted
            then bindE (vec_get (BQ t) 0) (\<lambda>front. Inr (t\<lparr>TRB := front, BQ := []\<rparr>))
            else Inr t) (\<lambda>t.
     if resolved inst = Some Well_Predicted
     then (case BQ t of [] \<Rightarrow> Inl Out_Of_Bounds | _ # rest \<Rightarrow> Inr (t\<lparr>BQ := rest\<rparr>))
     else Inr t)"

section \<open>Checkpoint discipline\<close>

text \<open>Events seen by the bitmap: a branch enters and is checkpointed, the pipeline changes the
bitmap of the speculative path, a branch is resolved.\<close>

datatype trb_event = Branch | Overwrite "32 word" | Resolve resolution

definition branch_of :: branch_inst where
  "branch_of = \<lparr>may_mispred = True, resolved = None\<rparr>"

definition resolve_of :: "resolution \<Rightarrow> branch_inst" where
  "resolve_of r = \<lparr>may_mispred = False, resolved = Some r\<rparr>"

fun trb_step :: "target_reg_bitmap \<Rightarrow> trb_event \<Rightarrow> target_reg_bitmap res" where
  "trb_step t Branch = Inr (EnqTRB_ToBQ t branch_of)"
| "trb_step t (Overwrite w) = Inr (t\<lparr>TRB := w\<rparr>)"
| "trb_step t (Resolve r) = Deq_BQ t (resolve_of r)"

fun trb_run :: "target_reg_bitmap \<Rightarrow> trb_event list \<Rightarrow> target_reg_bitmap res" where
  "trb_run t [] = Inr t"
| "trb_run t (e # es) = bindE (trb_step t e) (\<lambda>t'. trb_run t' es)"

fun pending_branches :: "nat \<Rightarrow> trb_event list \<Rightarrow> nat option" where
  "pending_branches n [] = Some n"
| "pending_branches n (Branch # es) = pending_branches (Suc n) es"
| "pending_branches n (Overwrite w # es) = pending_branches n es"
| "pending_branches n (Resolve Well_Predicted # es) = (if n = 0 then None else pending_branches (n - 1) es)"
| "pending_branches n (Resolve Mispredicted # es) = (if n = 0 then None else pending_branches 0 es)"

lemma trb_run_pending:
  "(case trb_run t es of Inl _ \<Rightarrow> None | Inr t' \<Rightarrow> Some (length (BQ t'))) = pending_branches (length (BQ t)) es"
proof (induction "length (BQ t)" es arbitrary: t rule: pending_branches.induct)
  case (4 es)
  then show ?case by (cases "BQ t") (auto simp: Deq_BQ_def resolve_of_def)
next
  case (5 es)
  then show ?case by (cases "BQ t") (auto simp: Deq_BQ_def resolve_of_def)
qed (auto simp: EnqTRB_ToBQ_def branch_of_def)

fun snapshots :: "32 word \<Rightarrow> trb_event list \<Rightarrow> 32 word list" where
  "snapshots w [] = []"
| "snapshots w (Branch # es) = w # snapshots w es"
| "snapshots w (Overwrite v # es) = snapshots v es"
| "snapshots w (Resolve r # es) = snapshots w es"

fun resolutions :: "trb_event list \<Rightarrow> nat" where
  "resolutions [] = 0"
| "resolutions (Resolve r # es) = Suc (resolutions es)"
| "resolutions (e # es) = resolutions es"

lemma trb_run_checkpoints:
  assumes "trb_run t es = Inr t'" and "Resolve Mispredicted \<notin> set es"
  shows "BQ t' = drop (resolutions es) (BQ t @ snapshots (TRB t) es)"
  using assms
proof (induction es arbitrary: t)
  case Nil
  then show ?case by simp
next
  case (Cons e es)
  show ?case
  proof (cases e)
    case Branch
    then have "trb_run (t\<lparr>BQ := BQ t @ [TRB t]\<rparr>) es = Inr t'"
      using Cons.prems by (simp add: EnqTRB_ToBQ_def branch_of_def)
    from Cons.IH [OF this] Cons.prems(2) show ?thesis using Branch by simp
  next
    case (Overwrite w)
    then have "trb_run (t\<lparr>TRB := w\<rparr>) es = Inr t'" using Cons.prems by simp
    from Cons.IH [OF this] Cons.prems(2) show ?thesis using Overwrite by simp
  next
    case (Resolve r)
    with Cons.prems have r: "r = Well_Predicted" by (cases r) auto
    with Cons.prems Resolve obtain x rest where b: "BQ t = x # rest"
      by (cases "BQ t") (auto simp: Deq_BQ_def resolve_of_def)
    then have "trb_run (t\<lparr>BQ := rest\<rparr>) es = Inr t'"
      using Cons.prems Resolve r by (simp add: Deq_BQ_def resolve_of_def)
    from Cons.IH [OF this] Cons.prems(2) show ?thesis using Resolve b by simp
  qed
qed

section \<open>Properties\<close>

text \<open>
  C22: starting with an empty checkpoint queue, let any number of branches enter, let the
  speculative path overwrite the bitmap, and let the oldest branches resolve as correctly
  predicted. When the next branch then resolves as mispredicted, the bitmap becomes exactly the
  one that was current when that oldest unresolved branch entered, and no checkpoint is left.
\<close>

theorem trb_rollback:
  assumes "trb_run \<lparr>TRB = w, BQ = []\<rparr> es = Inr t'" and "Resolve Mispredicted \<notin> set es"
    and "resolutions es < length (snapshots w es)"
  shows "Deq_BQ t' (resolve_of Mispredicted) = Inr \<lparr>TRB = snapshots w es ! resolutions es, BQ = []\<rparr>"
proof -
  have b: "BQ t' = drop (resolutions es) (snapshots w es)"
    using trb_run_checkpoints [OF assms(1,2)] by simp
  with assms(3) have "0 < length (BQ t')" "BQ t' ! 0 = snapshots w es ! resolutions es" by auto
  then show ?thesis by (cases t') (auto simp: Deq_BQ_def resolve_of_def)
qed

theorem trb_rollback_witness:
  "Deq_BQ \<lparr>TRB = 7, BQ = [5, 5]\<rparr> (resolve_of Mispredicted) = Inr \<lparr>TRB = 5, BQ = []\<rparr>"
  using trb_rollback [of 1 "[Branch, Overwrite 5, Branch, Branch, Resolve Well_Predicted, Overwrite 7]"
      "\<lparr>TRB = 7, BQ = [5, 5]\<rparr>"]
  by (simp add: EnqTRB_ToBQ_def branch_of_def Deq_BQ_def resolve_of_def)

text \<open>
  C33: a run fails exactly when some branch resolves with no checkpoint queued (the source then reads
  the front of an empty list), and a run that does not fail leaves one checkpoint per branch that
  is still unresolved.
\<close>

theorem trb_checkpoint_count:
  "(case trb_run t es of Inl _ \<Rightarrow> None | Inr t' \<Rightarrow> Some (length (BQ t'))) = pending_branches (length (BQ t)) es"
  by (rule trb_run_pending)

end
