(* ===== verification/Pattern_Table.thy ===== *)
theory Pattern_Table
  imports Int_Math
begin

text \<open>
  The pattern table of \<open>src/pattern_table.hh\<close> and \<open>src/pattern_table.cc\<close>: entries keyed by a base register,
  each with a row of pointer fields that are claimed by loads, translated, and issued as
  prefetches. The iterator loops of the source run from \<open>begin()\<close> to \<open>begin()\<close>; each such operation is
  written once for an arbitrary range and then instantiated at the empty range the source has.
\<close>

section \<open>State\<close>

record pointer_field =
  dest_reg :: int
  ptr_addr :: "32 word"
  offset :: "32 word"
  pref :: bool
  addr_valid :: bool
  ptr_valid :: bool
  translating :: bool
  pref_issued :: bool
  pref_done :: bool
  pending :: bool
  v_pointer :: bool
  real_ptr :: bool

datatype pte_status = PTE_idle | PTE_busy | PTE_meet_mispred

record pt_entry =
  pte_valid :: bool
  src_base_reg :: int
  pte_state :: pte_status
  pf :: "pointer_field list"

record pattern_table =
  pattern_table_set :: "32 word"
  pt_maxnumpointers :: nat
  pt_entries :: "pt_entry list"

record lds_inst =
  is_load :: bool
  srcRegIdx0 :: int
  destRegIdx0 :: int
  effaddr :: addr
  imm :: addr

definition zero_pointer :: pointer_field where
  "zero_pointer = \<lparr>dest_reg = 0, ptr_addr = 0, offset = 0, pref = False, addr_valid = False,
     ptr_valid = False, translating = False, pref_issued = False, pref_done = False,
     pending = False, v_pointer = False, real_ptr = False\<rparr>"

definition zero_entry :: "nat \<Rightarrow> pt_entry" where
  "zero_entry n = \<lparr>pte_valid = False, src_base_reg = 0, pte_state = PTE_idle,
     pf = replicate n zero_pointer\<rparr>"

definition new_Pattern_Table :: "32 word \<Rightarrow> nat \<Rightarrow> pattern_table res" where
  "new_Pattern_Table sets nptr =
     (if \<not> isPowerOf2 sets then Inl Fatal_Error
      else if sint sets < 0 then Inl Length_Error
      else Inr \<lparr>pattern_table_set = sets, pt_maxnumpointers = nptr,
                pt_entries = replicate (unat sets) (zero_entry nptr)\<rparr>)"

section \<open>Loops over the table\<close>

text \<open>A \<open>for\<close> loop over iterators visits the entries from \<open>first\<close> up to but not including
\<open>stop\<close>; its body may rewrite what it visits.\<close>

definition visit_range :: "nat \<Rightarrow> nat \<Rightarrow> ('e list \<Rightarrow> 'e list) \<Rightarrow> 'e list \<Rightarrow> 'e list" where
  "visit_range first stop body es =
     take first es @ body (take (stop - first) (drop first es)) @ drop (max first stop) es"

fun claim_pointer :: "lds_inst \<Rightarrow> pointer_field list \<Rightarrow> pointer_field list option" where
  "claim_pointer inst [] = None"
| "claim_pointer inst (p # ps) =
     (if \<not> ptr_valid p
      then Some (p\<lparr>ptr_valid := True, dest_reg := destRegIdx0 inst,
                   offset := ucast (effaddr inst - imm inst)\<rparr> # ps)
      else map_option ((#) p) (claim_pointer inst ps))"

definition mark_pointers :: "int \<Rightarrow> pointer_field list \<Rightarrow> pointer_field list" where
  "mark_pointers src_regid ps =
     map (\<lambda>p. if ptr_valid p \<and> dest_reg p = src_regid then p\<lparr>v_pointer := True\<rparr> else p) ps"

fun scan_load :: "lds_inst \<Rightarrow> pt_entry list \<Rightarrow> pt_entry list" where
  "scan_load inst [] = []"
| "scan_load inst (e # es) =
     (if srcRegIdx0 inst = src_base_reg e then
        (case claim_pointer inst (pf e) of
           Some ps \<Rightarrow> e\<lparr>pf := ps\<rparr> # es
         | None \<Rightarrow> e # scan_load inst es)
      else e\<lparr>pf := mark_pointers (srcRegIdx0 inst) (pf e)\<rparr> # scan_load inst es)"

fun drop_pointer :: "int \<Rightarrow> pointer_field list \<Rightarrow> pointer_field list option" where
  "drop_pointer r [] = None"
| "drop_pointer r (p # ps) =
     (if r = dest_reg p then Some (p\<lparr>ptr_valid := False\<rparr> # ps)
      else map_option ((#) p) (drop_pointer r ps))"

fun scan_other :: "lds_inst \<Rightarrow> pt_entry list \<Rightarrow> pt_entry list" where
  "scan_other inst [] = []"
| "scan_other inst (e # es) =
     (case drop_pointer (destRegIdx0 inst) (pf e) of
        Some ps \<Rightarrow> e\<lparr>pf := ps\<rparr> # es
      | None \<Rightarrow> e # scan_other inst es)"

definition DecodedInstAccess_range ::
    "nat \<Rightarrow> nat \<Rightarrow> (pt_entry list \<Rightarrow> bool) \<Rightarrow> pt_entry \<Rightarrow> pattern_table \<Rightarrow> lds_inst \<Rightarrow> pattern_table" where
  "DecodedInstAccess_range first stop is_empty fresh pt inst =
     (if is_load inst then
        if is_empty (pt_entries pt)
        then pt\<lparr>pt_entries := pt_entries pt @ [fresh\<lparr>src_base_reg := srcRegIdx0 inst, pte_valid := True\<rparr>]\<rparr>
        else pt\<lparr>pt_entries := visit_range first stop (scan_load inst) (pt_entries pt)\<rparr>
      else pt\<lparr>pt_entries := visit_range first stop (scan_other inst) (pt_entries pt)\<rparr>)"

text \<open>The source's loops run from \<open>pattern_table.begin()\<close> to \<open>pattern_table.begin()\<close>.\<close>

definition DecodedInstAccess ::
    "(pt_entry list \<Rightarrow> bool) \<Rightarrow> pt_entry \<Rightarrow> pattern_table \<Rightarrow> lds_inst \<Rightarrow> pattern_table" where
  "DecodedInstAccess = DecodedInstAccess_range 0 0"

definition get_ptr_infos :: "pointer_field \<Rightarrow> bool \<times> pointer_field" where
  "get_ptr_infos p =
     (if \<not> addr_valid p \<and> pref p then (True, p\<lparr>pending := True\<rparr>) else (False, p))"

definition prefetchable :: "pointer_field \<Rightarrow> bool" where
  "prefetchable p \<longleftrightarrow> ptr_valid p \<and> addr_valid p \<and> \<not> pref_issued p \<and> pref p"

fun issue_pointer :: "pointer_field list \<Rightarrow> pointer_field list option" where
  "issue_pointer [] = None"
| "issue_pointer (p # ps) =
     (if prefetchable p then Some (p\<lparr>pref_issued := True\<rparr> # ps)
      else map_option ((#) p) (issue_pointer ps))"

fun scan_issue :: "pt_entry list \<Rightarrow> pt_entry list option" where
  "scan_issue [] = None"
| "scan_issue (e # es) =
     (case (if pte_valid e then issue_pointer (pf e) else None) of
        Some ps \<Rightarrow> Some (e\<lparr>pf := ps\<rparr> # es)
      | None \<Rightarrow> map_option ((#) e) (scan_issue es))"

definition calculatePref_range :: "nat \<Rightarrow> nat \<Rightarrow> pattern_table \<Rightarrow> bool \<times> pattern_table" where
  "calculatePref_range first stop pt =
     (case scan_issue (take (stop - first) (drop first (pt_entries pt))) of
        None \<Rightarrow> (False, pt)
      | Some es \<Rightarrow> (True, pt\<lparr>pt_entries := visit_range first stop (\<lambda>_. es) (pt_entries pt)\<rparr>))"

definition calculatePref :: "pattern_table \<Rightarrow> bool \<times> pattern_table" where
  "calculatePref = calculatePref_range 0 0"

definition updatePaddr :: "pattern_table \<Rightarrow> nat \<Rightarrow> 32 word \<Rightarrow> nat \<Rightarrow> pattern_table res" where
  "updatePaddr pt PtrFieldID paddr pteid =
     bindE (vec_get (pt_entries pt) pteid) (\<lambda>e.
     bindE (vec_get (pf e) PtrFieldID) (\<lambda>p.
     Inr (pt\<lparr>pt_entries := (pt_entries pt)[pteid :=
            e\<lparr>pf := (pf e)[PtrFieldID := p\<lparr>ptr_addr := paddr, addr_valid := True\<rparr>]\<rparr>]\<rparr>)))"

text \<open>The index loops of the remaining operations visit the first \<open>pattern_table_set\<close> entries.\<close>

definition on_valid_entries :: "(pt_entry \<Rightarrow> pt_entry) \<Rightarrow> pattern_table \<Rightarrow> pattern_table" where
  "on_valid_entries f pt =
     pt\<lparr>pt_entries := visit_range 0 (unat (pattern_table_set pt))
          (map (\<lambda>e. if pte_valid e then f e else e)) (pt_entries pt)\<rparr>"

definition capPattern :: "pattern_table \<Rightarrow> lds_inst \<Rightarrow> pattern_table" where
  "capPattern pt inst = on_valid_entries (\<lambda>e. e\<lparr>pf := map (\<lambda>p.
     if ptr_valid p \<and> srcRegIdx0 inst = dest_reg p then p\<lparr>real_ptr := True\<rparr> else p) (pf e)\<rparr>) pt"

definition stopPref :: "pattern_table \<Rightarrow> pattern_table" where
  "stopPref pt = on_valid_entries (\<lambda>e. e\<lparr>pte_state := PTE_meet_mispred\<rparr>) pt"

definition needs_translation :: "pointer_field \<Rightarrow> bool" where
  "needs_translation p \<longleftrightarrow> ptr_valid p \<and> \<not> addr_valid p \<and> \<not> translating p"

definition needAccessTLB :: "pattern_table \<Rightarrow> pattern_table" where
  "needAccessTLB pt = on_valid_entries (\<lambda>e. e\<lparr>pf := map (\<lambda>p.
     if needs_translation p then p\<lparr>translating := True\<rparr> else p) (pf e)\<rparr>) pt"

section \<open>Well-formed tables\<close>

definition entry_wf :: "nat \<Rightarrow> pt_entry \<Rightarrow> bool" where
  "entry_wf n e \<longleftrightarrow> length (pf e) = n"

definition pt_wf :: "pattern_table \<Rightarrow> bool" where
  "pt_wf pt \<longleftrightarrow> isPowerOf2 (pattern_table_set pt) \<and>
     unat (pattern_table_set pt) \<le> length (pt_entries pt) \<and>
     list_all (entry_wf (pt_maxnumpointers pt)) (pt_entries pt)"

lemma visit_range_empty [simp]: "body [] = [] \<Longrightarrow> visit_range i i body es = es"
  by (simp add: visit_range_def)

lemma visit_range_all [simp]: "visit_range 0 (length es) body es = body es"
  by (simp add: visit_range_def)

lemma length_visit_range:
  "(\<And>xs. length (body xs) = length xs) \<Longrightarrow> length (visit_range first stop body es) = length es"
  by (auto simp: visit_range_def)

lemma list_all_visit_range:
  assumes "list_all P es" "\<And>xs. list_all P xs \<Longrightarrow> list_all P (body xs)"
  shows "list_all P (visit_range first stop body es)"
proof -
  have "list_all P (take (stop - first) (drop first es))"
    using assms(1) by (auto simp: list_all_iff dest: in_set_takeD in_set_dropD)
  then have "list_all P (body (take (stop - first) (drop first es)))" by (rule assms(2))
  then show ?thesis using assms(1)
    by (auto simp: visit_range_def list_all_iff dest: in_set_takeD in_set_dropD)
qed

lemma claim_pointer_length: "claim_pointer inst ps = Some qs \<Longrightarrow> length qs = length ps"
  by (induction ps arbitrary: qs) (auto split: if_splits)

lemma drop_pointer_length: "drop_pointer r ps = Some qs \<Longrightarrow> length qs = length ps"
  by (induction ps arbitrary: qs) (auto split: if_splits)

lemma issue_pointer_length: "issue_pointer ps = Some qs \<Longrightarrow> length qs = length ps"
  by (induction ps arbitrary: qs) (auto split: if_splits)

lemma scan_load_wf: "list_all (entry_wf n) es \<Longrightarrow> list_all (entry_wf n) (scan_load inst es)"
  by (induction es) (auto simp: entry_wf_def mark_pointers_def claim_pointer_length split: option.splits)

lemma scan_load_length [simp]: "length (scan_load inst es) = length es"
  by (induction es) (auto split: option.splits)

lemma scan_other_wf: "list_all (entry_wf n) es \<Longrightarrow> list_all (entry_wf n) (scan_other inst es)"
  by (induction es) (auto simp: entry_wf_def drop_pointer_length split: option.splits)

lemma scan_other_length [simp]: "length (scan_other inst es) = length es"
  by (induction es) (auto split: option.splits)

lemma scan_issue_wf:
  "scan_issue es = Some fs \<Longrightarrow> list_all (entry_wf n) es \<Longrightarrow> list_all (entry_wf n) fs \<and> length fs = length es"
  by (induction es arbitrary: fs)
     (auto simp: entry_wf_def issue_pointer_length split: option.splits if_splits)

lemma new_Pattern_Table_wf: "new_Pattern_Table sets n = Inr pt \<Longrightarrow> pt_wf pt"
  by (auto simp: new_Pattern_Table_def pt_wf_def entry_wf_def zero_entry_def list_all_length split: if_splits)

lemma DecodedInstAccess_range_wf:
  assumes "pt_wf pt" "entry_wf (pt_maxnumpointers pt) fresh"
  shows "pt_wf (DecodedInstAccess_range first stop is_empty fresh pt inst)"
  using assms
  by (auto simp: DecodedInstAccess_range_def pt_wf_def length_visit_range entry_wf_def
      intro!: list_all_visit_range scan_load_wf scan_other_wf)

lemma on_valid_entries_wf:
  assumes "pt_wf pt" "\<And>e. length (pf (f e)) = length (pf e)"
  shows "pt_wf (on_valid_entries f pt)"
proof -
  have "list_all (entry_wf (pt_maxnumpointers pt)) (map (\<lambda>e. if pte_valid e then f e else e) xs)"
    if "list_all (entry_wf (pt_maxnumpointers pt)) xs" for xs
    using that assms(2) by (induction xs) (auto simp: entry_wf_def)
  then show ?thesis using assms(1)
    by (auto simp: pt_wf_def on_valid_entries_def length_visit_range intro!: list_all_visit_range)
qed

lemma calculatePref_range_wf:
  assumes "pt_wf pt" "calculatePref_range first stop pt = (b, pt')"
  shows "pt_wf pt'"
proof (cases "scan_issue (take (stop - first) (drop first (pt_entries pt)))")
  case None
  then show ?thesis using assms by (simp add: calculatePref_range_def)
next
  case (Some fs)
  let ?w = "entry_wf (pt_maxnumpointers pt)"
  have es: "list_all ?w (pt_entries pt)" using assms(1) by (simp add: pt_wf_def)
  have "list_all ?w (take (stop - first) (drop first (pt_entries pt)))"
    using es by (auto simp: list_all_iff dest: in_set_takeD in_set_dropD)
  then have fs: "list_all ?w fs" "length fs = min (stop - first) (length (pt_entries pt) - first)"
    using scan_issue_wf [OF Some] by auto
  have "list_all ?w (visit_range first stop (\<lambda>_. fs) (pt_entries pt))"
    using es fs(1) by (auto simp: visit_range_def list_all_iff dest: in_set_takeD in_set_dropD)
  moreover have "length (visit_range first stop (\<lambda>_. fs) (pt_entries pt)) = length (pt_entries pt)"
    using fs(2) by (auto simp: visit_range_def)
  ultimately show ?thesis using assms Some by (auto simp: calculatePref_range_def pt_wf_def)
qed

lemma updatePaddr_wf: "pt_wf pt \<Longrightarrow> updatePaddr pt i a j = Inr pt' \<Longrightarrow> pt_wf pt'"
  by (auto simp: updatePaddr_def pt_wf_def vec_get_eq_Inr entry_wf_def list_all_length nth_list_update)

section \<open>Issuing prefetches\<close>

fun pending_prefetches :: "pt_entry list \<Rightarrow> nat" where
  "pending_prefetches [] = 0"
| "pending_prefetches (e # es) =
     (if pte_valid e then length (filter prefetchable (pf e)) else 0) + pending_prefetches es"

lemma issue_pointer_None: "issue_pointer ps = None \<longleftrightarrow> filter prefetchable ps = []"
  by (induction ps) auto

lemma issue_pointer_Some:
  "issue_pointer ps = Some qs \<Longrightarrow> length (filter prefetchable ps) = Suc (length (filter prefetchable qs))"
  by (induction ps arbitrary: qs) (auto simp: prefetchable_def split: if_splits)

lemma scan_issue_None: "scan_issue es = None \<longleftrightarrow> pending_prefetches es = 0"
  by (induction es)
     (auto simp: issue_pointer_None dest: issue_pointer_Some split: option.splits)

lemma scan_issue_Some: "scan_issue es = Some fs \<Longrightarrow> pending_prefetches es = Suc (pending_prefetches fs)"
  by (induction es arbitrary: fs)
     (auto simp: issue_pointer_None dest: issue_pointer_Some split: option.splits if_splits)

definition calculatePref_all :: "pattern_table \<Rightarrow> bool \<times> pattern_table" where
  "calculatePref_all pt = calculatePref_range 0 (length (pt_entries pt)) pt"

fun issued_by :: "nat \<Rightarrow> pattern_table \<Rightarrow> nat" where
  "issued_by 0 pt = 0"
| "issued_by (Suc n) pt =
     (case calculatePref_all pt of (b, pt') \<Rightarrow> (if b then 1 else 0) + issued_by n pt')"

lemma issued_by_eq: "issued_by n pt = min n (pending_prefetches (pt_entries pt))"
proof (induction n arbitrary: pt)
  case (Suc n)
  show ?case
  proof (cases "scan_issue (pt_entries pt)")
    case None
    moreover from None have "pending_prefetches (pt_entries pt) = 0" by (simp add: scan_issue_None)
    ultimately show ?thesis using Suc [of pt]
      by (simp add: calculatePref_all_def calculatePref_range_def)
  next
    case (Some fs)
    then show ?thesis using Suc [of "pt\<lparr>pt_entries := fs\<rparr>"] scan_issue_Some [OF Some]
      by (simp add: calculatePref_all_def calculatePref_range_def visit_range_def)
  qed
qed simp

lemma DecodedInstAccess_dead:
  assumes "\<not> (is_load inst \<and> is_empty (pt_entries pt))"
  shows "DecodedInstAccess is_empty fresh pt inst = pt"
  using assms by (auto simp: DecodedInstAccess_def DecodedInstAccess_range_def)

lemma calculatePref_dead: "calculatePref pt = (False, pt)"
  by (simp add: calculatePref_def calculatePref_range_def)

section \<open>Translation requests\<close>

fun untranslated :: "pt_entry list \<Rightarrow> nat" where
  "untranslated [] = 0"
| "untranslated (e # es) =
     (if pte_valid e then length (filter needs_translation (pf e)) else 0) + untranslated es"

lemma needAccessTLB_none_left:
  assumes "length (pt_entries pt) = unat (pattern_table_set pt)"
  shows "untranslated (pt_entries (needAccessTLB pt)) = 0"
proof -
  let ?g = "\<lambda>p. if needs_translation p then p\<lparr>translating := True\<rparr> else p"
  have "filter needs_translation (map ?g ps) = []" for ps
    by (induction ps) (auto simp: needs_translation_def)
  then have "untranslated (map (\<lambda>e. if pte_valid e then e\<lparr>pf := map ?g (pf e)\<rparr> else e) es) = 0" for es
    by (induction es) auto
  then show ?thesis using assms visit_range_all [of "pt_entries pt"]
    by (simp add: needAccessTLB_def on_valid_entries_def)
qed

section \<open>Properties\<close>





end
