(* ===== verification/LDS_Prefetcher.thy ===== *)
theory LDS_Prefetcher
  imports Direction_Predictor Target_Reg_Bitmap Pattern_Table
begin

text \<open>
  The prefetcher object of \<open>src/ldsprefetcher.cc\<close> and the two pattern-table operations that
  leave the table for the load/store unit (\<open>AccessTLB\<close>, \<open>AccessDC\<close>). The object owns one target
  register bitmap, one pattern table and one direction predictor; its interface forwards to the
  pattern table. \<open>lds_step\<close> collects what the core does to the object, one event at a time, and
  \<open>lds_reach\<close> what a constructed object can become.
\<close>

section \<open>State and construction\<close>

record lds_prefetcher =
  lds_trb :: target_reg_bitmap
  lds_pattern_table :: pattern_table
  lds_dire_pred :: direction_predictor

record lds_params =
  pattern_table_set_param :: "32 word"
  pt_maxnumpointers_param :: nat
  dire_predsize :: "32 word"
  cache_block_size :: "32 word"

text \<open>The children are built in the order of the constructor's body; a child's \<open>fatal\<close> ends it.\<close>

definition new_LDSPrefetcher :: "lds_params \<Rightarrow> lds_prefetcher res" where
  "new_LDSPrefetcher p =
     (let trb = \<lparr>TRB = 0, BQ = []\<rparr> in
      bindE (new_Pattern_Table (pattern_table_set_param p) (pt_maxnumpointers_param p)) (\<lambda>pt.
      bindE (new_Direction_Predictor (dire_predsize p) (cache_block_size p)) (\<lambda>dp.
      Inr \<lparr>lds_trb = trb, lds_pattern_table = pt, lds_dire_pred = dp\<rparr>)))"

definition lds_needAccessTLB :: "lds_prefetcher \<Rightarrow> lds_prefetcher" where
  "lds_needAccessTLB l = l\<lparr>lds_pattern_table := needAccessTLB (lds_pattern_table l)\<rparr>"

section \<open>Sending the prefetch to the data cache\<close>

text \<open>
  The load/store unit is outside the prefetcher: \<open>incUsedPort\<close> acts on its state, and the two
  answers of \<open>sendTimingReq\<close> are the arguments \<open>fst_ok\<close> and \<open>snd_ok\<close>. \<open>outstanding\<close> is the
  8-bit count that \<open>LSQSenderState::complete\<close> decrements.
\<close>

record 'l dc_access =
  lsq_unit :: 'l
  usedPorts :: int
  successful_load :: bool
  completedFirst :: bool
  outstanding :: "8 word"
  cacheBlocked :: bool

definition AccessDC :: "('l \<Rightarrow> 'l) \<Rightarrow> bool \<Rightarrow> bool \<Rightarrow> bool \<Rightarrow> 'l dc_access \<Rightarrow> 'l dc_access" where
  "AccessDC incUsedPort split_access fst_ok snd_ok d =
     (let d = d\<lparr>lsq_unit := incUsedPort (lsq_unit d)\<rparr> in
      if \<not> fst_ok then d\<lparr>successful_load := False\<rparr>
      else if split_access then
        (let d = d\<lparr>completedFirst := True, usedPorts := usedPorts d + 1\<rparr> in
         if \<not> snd_ok
         then d\<lparr>outstanding := outstanding d - 1, cacheBlocked := True, successful_load := False\<rparr>
         else d)
      else d)"

definition AccessTLB ::
    "('l \<Rightarrow> 'l) \<Rightarrow> bool \<Rightarrow> bool \<Rightarrow> bool \<Rightarrow> bool \<Rightarrow> bool \<Rightarrow> bool \<Rightarrow> 'l dc_access \<Rightarrow> 'l dc_access" where
  "AccessTLB incUsedPort translation_done fault_free ptr_inside split_access fst_ok snd_ok d =
     (if translation_done \<and> fault_free \<and> ptr_inside
      then AccessDC incUsedPort split_access fst_ok snd_ok d else d)"

section \<open>Events\<close>

inductive lds_step :: "lds_prefetcher \<Rightarrow> lds_prefetcher \<Rightarrow> bool" where
  branch: "lds_step l (l\<lparr>lds_trb := EnqTRB_ToBQ (lds_trb l) inst\<rparr>)"
| access_trb: "lds_step l (l\<lparr>lds_trb := access_TRB (lds_trb l) inst\<rparr>)"
| resolve: "Deq_BQ (lds_trb l) inst = Inr t \<Longrightarrow> lds_step l (l\<lparr>lds_trb := t\<rparr>)"
| decode: "entry_wf (pt_maxnumpointers (lds_pattern_table l)) fresh \<Longrightarrow>
    lds_step l (l\<lparr>lds_pattern_table := DecodedInstAccess is_empty fresh (lds_pattern_table l) i\<rparr>)"
| issue: "calculatePref (lds_pattern_table l) = (b, pt) \<Longrightarrow> lds_step l (l\<lparr>lds_pattern_table := pt\<rparr>)"
| translated: "updatePaddr (lds_pattern_table l) f a e = Inr pt \<Longrightarrow>
    lds_step l (l\<lparr>lds_pattern_table := pt\<rparr>)"
| capture: "lds_step l (l\<lparr>lds_pattern_table := capPattern (lds_pattern_table l) i\<rparr>)"
| stop: "lds_step l (l\<lparr>lds_pattern_table := stopPref (lds_pattern_table l)\<rparr>)"
| tlb: "lds_step l (lds_needAccessTLB l)"
| learn: "update_array (lds_dire_pred l) a es two_mode = Inr dp \<Longrightarrow>
    lds_step l (l\<lparr>lds_dire_pred := dp\<rparr>)"

inductive lds_reach :: "lds_params \<Rightarrow> lds_prefetcher \<Rightarrow> bool" for p where
  init: "new_LDSPrefetcher p = Inr l \<Longrightarrow> lds_reach p l"
| step: "lds_reach p l \<Longrightarrow> lds_step l l' \<Longrightarrow> lds_reach p l'"

section \<open>Invariant\<close>

definition lds_inv :: "lds_params \<Rightarrow> lds_prefetcher \<Rightarrow> bool" where
  "lds_inv p l \<longleftrightarrow> dp_wf (lds_dire_pred l) \<and> pt_wf (lds_pattern_table l) \<and>
     Dire_PredSize (lds_dire_pred l) = dire_predsize p \<and>
     pattern_table_set (lds_pattern_table l) = pattern_table_set_param p \<and>
     pt_maxnumpointers (lds_pattern_table l) = pt_maxnumpointers_param p"

lemma on_valid_entries_config [simp]:
  "pattern_table_set (on_valid_entries f pt) = pattern_table_set pt"
  "pt_maxnumpointers (on_valid_entries f pt) = pt_maxnumpointers pt"
  by (simp_all add: on_valid_entries_def)

lemma DecodedInstAccess_config [simp]:
  "pattern_table_set (DecodedInstAccess em fr pt i) = pattern_table_set pt"
  "pt_maxnumpointers (DecodedInstAccess em fr pt i) = pt_maxnumpointers pt"
  by (simp_all add: DecodedInstAccess_def DecodedInstAccess_range_def)

lemma updatePaddr_config:
  "updatePaddr pt f a e = Inr pt' \<Longrightarrow>
     pattern_table_set pt' = pattern_table_set pt \<and> pt_maxnumpointers pt' = pt_maxnumpointers pt"
  by (auto simp: updatePaddr_def)

lemma update_array_size: "update_array dp a es m = Inr dp' \<Longrightarrow> Dire_PredSize dp' = Dire_PredSize dp"
  by (auto simp: update_array_def updateDP_array_def dp_assign_at_def Let_def split: if_splits)

lemma new_LDSPrefetcher_inv: "new_LDSPrefetcher p = Inr l \<Longrightarrow> lds_inv p l"
  by (auto simp: new_LDSPrefetcher_def lds_inv_def new_Pattern_Table_wf new_Direction_Predictor_wf)
     (auto simp: new_Pattern_Table_def new_Direction_Predictor_def split: if_splits)

lemma lds_step_inv:
  assumes "lds_step l l'" and "lds_inv p l"
  shows "lds_inv p l'"
  using assms
proof (cases rule: lds_step.cases)
  case (decode fresh is_empty i)
  then show ?thesis using assms(2) DecodedInstAccess_range_wf
    by (simp add: lds_inv_def DecodedInstAccess_def DecodedInstAccess_range_wf)
       (simp add: DecodedInstAccess_range_def)
next
  case (issue b pt)
  then show ?thesis using assms(2) by (simp add: lds_inv_def calculatePref_dead)
next
  case (translated f a e pt)
  then show ?thesis using assms(2) updatePaddr_config [of "lds_pattern_table l"]
    by (auto simp: lds_inv_def intro: updatePaddr_wf)
next
  case (learn a es two_mode dp)
  then show ?thesis using assms(2) by (auto simp: lds_inv_def update_array_size intro: update_array_wf)
qed (auto simp: lds_inv_def capPattern_def stopPref_def needAccessTLB_def lds_needAccessTLB_def
       intro!: on_valid_entries_wf)

lemma lds_reach_inv: "lds_reach p l \<Longrightarrow> lds_inv p l"
  by (induction rule: lds_reach.induct) (auto intro: new_LDSPrefetcher_inv lds_step_inv)

section \<open>Properties\<close>


lemma lds_example_new:
  "new_LDSPrefetcher \<lparr>pattern_table_set_param = 1, pt_maxnumpointers_param = 1, dire_predsize = 2,
     cache_block_size = 6\<rparr> =
   Inr \<lparr>lds_trb = \<lparr>TRB = 0, BQ = []\<rparr>,
     lds_pattern_table = \<lparr>pattern_table_set = 1, pt_maxnumpointers = 1, pt_entries = [zero_entry 1]\<rparr>,
     lds_dire_pred = \<lparr>dp_array = replicate 2 dp_entry_reset, Dire_PredSize = 2, Dire_PredMask = 1,
       dp_block_size = 6\<rparr>\<rparr>"
  by (simp add: new_LDSPrefetcher_def new_Pattern_Table_def new_Direction_Predictor_def
      isPowerOf2_def leastSigBit_def)


end
