(* ===== verification/Mem_Cmd.thy ===== *)
theory Mem_Cmd
  imports Prelude
begin

text \<open>
  The memory commands of \<open>src/gem5_src/mem/packet.hh\<close> (class \<open>MemCmd\<close>) with the attribute table of
  \<open>src/gem5_src/mem/packet.cc\<close>, row by row. An attribute bit set is the list of its members.
\<close>

datatype command =
    InvalidCmd | ReadReq | ReadResp | ReadRespWithInvalidate | WriteReq | WriteResp
  | Writeback | SoftPFReq | HardPFReq | SoftPFResp | HardPFResp | WriteInvalidateReq
  | WriteInvalidateResp | UpgradeReq | SCUpgradeReq | UpgradeResp | SCUpgradeFailReq | UpgradeFailResp
  | ReadExReq | ReadExResp | LoadLockedReq | StoreCondReq | StoreCondFailReq | StoreCondResp
  | SwapReq | SwapResp | MessageReq | MessageResp | InvalidDestError | BadAddressError
  | FunctionalReadError | FunctionalWriteError | PrintReq | FlushReq | InvalidationReq

datatype attribute =
    IsRead | IsWrite | IsUpgrade | IsInvalidate | NeedsExclusive | IsRequest
  | IsResponse | NeedsResponse | IsSWPrefetch | IsHWPrefetch | IsLlsc | HasData
  | IsError | IsPrint | IsFlush

record command_info =
  ci_attributes :: "attribute list"
  ci_response :: command
  ci_str :: string

fun commandInfo :: "command \<Rightarrow> command_info" where
  "commandInfo InvalidCmd =
     \<lparr>ci_attributes = [],
      ci_response = InvalidCmd, ci_str = ''InvalidCmd''\<rparr>"
| "commandInfo ReadReq =
     \<lparr>ci_attributes = [IsRead, IsRequest, NeedsResponse],
      ci_response = ReadResp, ci_str = ''ReadReq''\<rparr>"
| "commandInfo ReadResp =
     \<lparr>ci_attributes = [IsRead, IsResponse, HasData],
      ci_response = InvalidCmd, ci_str = ''ReadResp''\<rparr>"
| "commandInfo ReadRespWithInvalidate =
     \<lparr>ci_attributes = [IsRead, IsResponse, HasData, IsInvalidate],
      ci_response = InvalidCmd, ci_str = ''ReadRespWithInvalidate''\<rparr>"
| "commandInfo WriteReq =
     \<lparr>ci_attributes = [IsWrite, NeedsExclusive, IsRequest, NeedsResponse, HasData],
      ci_response = WriteResp, ci_str = ''WriteReq''\<rparr>"
| "commandInfo WriteResp =
     \<lparr>ci_attributes = [IsWrite, NeedsExclusive, IsResponse],
      ci_response = InvalidCmd, ci_str = ''WriteResp''\<rparr>"
| "commandInfo Writeback =
     \<lparr>ci_attributes = [IsWrite, NeedsExclusive, IsRequest, HasData],
      ci_response = InvalidCmd, ci_str = ''Writeback''\<rparr>"
| "commandInfo SoftPFReq =
     \<lparr>ci_attributes = [IsRead, IsRequest, IsSWPrefetch, NeedsResponse],
      ci_response = SoftPFResp, ci_str = ''SoftPFReq''\<rparr>"
| "commandInfo HardPFReq =
     \<lparr>ci_attributes = [IsRead, IsRequest, IsHWPrefetch, NeedsResponse],
      ci_response = HardPFResp, ci_str = ''HardPFReq''\<rparr>"
| "commandInfo SoftPFResp =
     \<lparr>ci_attributes = [IsRead, IsResponse, IsSWPrefetch, HasData],
      ci_response = InvalidCmd, ci_str = ''SoftPFResp''\<rparr>"
| "commandInfo HardPFResp =
     \<lparr>ci_attributes = [IsRead, IsResponse, IsHWPrefetch, HasData],
      ci_response = InvalidCmd, ci_str = ''HardPFResp''\<rparr>"
| "commandInfo WriteInvalidateReq =
     \<lparr>ci_attributes = [IsWrite, NeedsExclusive, IsInvalidate, IsRequest, HasData, NeedsResponse],
      ci_response = WriteInvalidateResp, ci_str = ''WriteInvalidateReq''\<rparr>"
| "commandInfo WriteInvalidateResp =
     \<lparr>ci_attributes = [IsWrite, NeedsExclusive, IsResponse],
      ci_response = InvalidCmd, ci_str = ''WriteInvalidateResp''\<rparr>"
| "commandInfo UpgradeReq =
     \<lparr>ci_attributes = [IsInvalidate, NeedsExclusive, IsUpgrade, IsRequest, NeedsResponse],
      ci_response = UpgradeResp, ci_str = ''UpgradeReq''\<rparr>"
| "commandInfo SCUpgradeReq =
     \<lparr>ci_attributes = [IsInvalidate, NeedsExclusive, IsUpgrade, IsLlsc, IsRequest, NeedsResponse],
      ci_response = UpgradeResp, ci_str = ''SCUpgradeReq''\<rparr>"
| "commandInfo UpgradeResp =
     \<lparr>ci_attributes = [NeedsExclusive, IsUpgrade, IsResponse],
      ci_response = InvalidCmd, ci_str = ''UpgradeResp''\<rparr>"
| "commandInfo SCUpgradeFailReq =
     \<lparr>ci_attributes = [IsRead, NeedsExclusive, IsInvalidate, IsLlsc, IsRequest, NeedsResponse],
      ci_response = UpgradeFailResp, ci_str = ''SCUpgradeFailReq''\<rparr>"
| "commandInfo UpgradeFailResp =
     \<lparr>ci_attributes = [IsRead, NeedsExclusive, IsResponse, HasData],
      ci_response = InvalidCmd, ci_str = ''UpgradeFailResp''\<rparr>"
| "commandInfo ReadExReq =
     \<lparr>ci_attributes = [IsRead, NeedsExclusive, IsInvalidate, IsRequest, NeedsResponse],
      ci_response = ReadExResp, ci_str = ''ReadExReq''\<rparr>"
| "commandInfo ReadExResp =
     \<lparr>ci_attributes = [IsRead, NeedsExclusive, IsResponse, HasData],
      ci_response = InvalidCmd, ci_str = ''ReadExResp''\<rparr>"
| "commandInfo LoadLockedReq =
     \<lparr>ci_attributes = [IsRead, IsLlsc, IsRequest, NeedsResponse],
      ci_response = ReadResp, ci_str = ''LoadLockedReq''\<rparr>"
| "commandInfo StoreCondReq =
     \<lparr>ci_attributes = [IsWrite, NeedsExclusive, IsLlsc, IsRequest, NeedsResponse, HasData],
      ci_response = StoreCondResp, ci_str = ''StoreCondReq''\<rparr>"
| "commandInfo StoreCondFailReq =
     \<lparr>ci_attributes = [IsWrite, NeedsExclusive, IsLlsc, IsRequest, NeedsResponse, HasData],
      ci_response = StoreCondResp, ci_str = ''StoreCondFailReq''\<rparr>"
| "commandInfo StoreCondResp =
     \<lparr>ci_attributes = [IsWrite, NeedsExclusive, IsLlsc, IsResponse],
      ci_response = InvalidCmd, ci_str = ''StoreCondResp''\<rparr>"
| "commandInfo SwapReq =
     \<lparr>ci_attributes = [IsRead, IsWrite, NeedsExclusive, IsRequest, HasData, NeedsResponse],
      ci_response = SwapResp, ci_str = ''SwapReq''\<rparr>"
| "commandInfo SwapResp =
     \<lparr>ci_attributes = [IsRead, IsWrite, NeedsExclusive, IsResponse, HasData],
      ci_response = InvalidCmd, ci_str = ''SwapResp''\<rparr>"
| "commandInfo MessageReq =
     \<lparr>ci_attributes = [IsWrite, IsRequest, NeedsResponse, HasData],
      ci_response = MessageResp, ci_str = ''MessageReq''\<rparr>"
| "commandInfo MessageResp =
     \<lparr>ci_attributes = [IsWrite, IsResponse],
      ci_response = InvalidCmd, ci_str = ''MessageResp''\<rparr>"
| "commandInfo InvalidDestError =
     \<lparr>ci_attributes = [IsResponse, IsError],
      ci_response = InvalidCmd, ci_str = ''InvalidDestError''\<rparr>"
| "commandInfo BadAddressError =
     \<lparr>ci_attributes = [IsResponse, IsError],
      ci_response = InvalidCmd, ci_str = ''BadAddressError''\<rparr>"
| "commandInfo FunctionalReadError =
     \<lparr>ci_attributes = [IsRead, IsResponse, IsError],
      ci_response = InvalidCmd, ci_str = ''FunctionalReadError''\<rparr>"
| "commandInfo FunctionalWriteError =
     \<lparr>ci_attributes = [IsWrite, IsResponse, IsError],
      ci_response = InvalidCmd, ci_str = ''FunctionalWriteError''\<rparr>"
| "commandInfo PrintReq =
     \<lparr>ci_attributes = [IsRequest, IsPrint],
      ci_response = InvalidCmd, ci_str = ''PrintReq''\<rparr>"
| "commandInfo FlushReq =
     \<lparr>ci_attributes = [IsRequest, IsFlush, NeedsExclusive],
      ci_response = InvalidCmd, ci_str = ''FlushReq''\<rparr>"
| "commandInfo InvalidationReq =
     \<lparr>ci_attributes = [NeedsExclusive, IsInvalidate, IsRequest],
      ci_response = InvalidCmd, ci_str = ''InvalidationReq''\<rparr>"

definition testCmdAttrib :: "command \<Rightarrow> attribute \<Rightarrow> bool" where
  "testCmdAttrib c a \<longleftrightarrow> a \<in> set (ci_attributes (commandInfo c))"

definition isRead :: "command \<Rightarrow> bool" where
  "isRead c = testCmdAttrib c IsRead"

definition isWrite :: "command \<Rightarrow> bool" where
  "isWrite c = testCmdAttrib c IsWrite"

definition isUpgrade :: "command \<Rightarrow> bool" where
  "isUpgrade c = testCmdAttrib c IsUpgrade"

definition isRequest :: "command \<Rightarrow> bool" where
  "isRequest c = testCmdAttrib c IsRequest"

definition isResponse :: "command \<Rightarrow> bool" where
  "isResponse c = testCmdAttrib c IsResponse"

definition needsExclusive :: "command \<Rightarrow> bool" where
  "needsExclusive c = testCmdAttrib c NeedsExclusive"

definition needsResponse :: "command \<Rightarrow> bool" where
  "needsResponse c = testCmdAttrib c NeedsResponse"

definition isInvalidate :: "command \<Rightarrow> bool" where
  "isInvalidate c = testCmdAttrib c IsInvalidate"

definition hasData :: "command \<Rightarrow> bool" where
  "hasData c = testCmdAttrib c HasData"

definition isLLSC :: "command \<Rightarrow> bool" where
  "isLLSC c = testCmdAttrib c IsLlsc"

definition isSWPrefetch :: "command \<Rightarrow> bool" where
  "isSWPrefetch c = testCmdAttrib c IsSWPrefetch"

definition isHWPrefetch :: "command \<Rightarrow> bool" where
  "isHWPrefetch c = testCmdAttrib c IsHWPrefetch"

definition isError :: "command \<Rightarrow> bool" where
  "isError c = testCmdAttrib c IsError"

definition isPrint :: "command \<Rightarrow> bool" where
  "isPrint c = testCmdAttrib c IsPrint"

definition isFlush :: "command \<Rightarrow> bool" where
  "isFlush c = testCmdAttrib c IsFlush"

definition isWriteInvalidate :: "command \<Rightarrow> bool" where
  "isWriteInvalidate c \<longleftrightarrow> testCmdAttrib c IsWrite \<and> testCmdAttrib c IsInvalidate"

definition isPrefetch :: "command \<Rightarrow> bool" where
  "isPrefetch c \<longleftrightarrow> testCmdAttrib c IsSWPrefetch \<or> testCmdAttrib c IsHWPrefetch"

definition responseCommand :: "command \<Rightarrow> command" where
  "responseCommand c = ci_response (commandInfo c)"

lemmas cmd_attrib_defs = testCmdAttrib_def responseCommand_def isWriteInvalidate_def isPrefetch_def
  isRead_def isWrite_def isUpgrade_def isRequest_def isResponse_def needsExclusive_def needsResponse_def isInvalidate_def hasData_def isLLSC_def isSWPrefetch_def isHWPrefetch_def isError_def isPrint_def isFlush_def

lemma responseCommand_isResponse: "needsResponse c \<Longrightarrow> isResponse (responseCommand c)"
  by (cases c) (simp_all add: cmd_attrib_defs)

lemma response_no_response: "isResponse c \<Longrightarrow> \<not> needsResponse c \<and> \<not> isRequest c"
  by (cases c) (simp_all add: cmd_attrib_defs)

lemma needsResponse_isRequest: "needsResponse c \<Longrightarrow> isRequest c"
  by (cases c) (simp_all add: cmd_attrib_defs)

lemma responseCommand_kind:
  assumes "needsResponse c"
  shows "isRead (responseCommand c) = isRead c" "isWrite (responseCommand c) = isWrite c"
    and "needsExclusive (responseCommand c) = needsExclusive c"
    and "hasData (responseCommand c) = isRead c"
  using assms by (cases c; simp add: cmd_attrib_defs)+

section \<open>Properties\<close>

text \<open>
  C26: the command table is a consistent protocol. Every command but \<open>InvalidCmd\<close> is either a request
  or a response and none is both; a command has a response exactly if it needs one; and the response
  to a request is a response of the same kind: it reads, writes and needs exclusivity like the
  request, and carries data exactly if the request reads.
\<close>

theorem command_table_consistent:
  "(isRequest c \<noteq> isResponse c \<longleftrightarrow> c \<noteq> InvalidCmd) \<and> \<not> (isRequest c \<and> isResponse c) \<and>
   (needsResponse c \<longleftrightarrow> responseCommand c \<noteq> InvalidCmd) \<and>
   (needsResponse c \<longrightarrow> isRequest c \<and>
      (let r = responseCommand c in isResponse r \<and> \<not> needsResponse r \<and> isRead r = isRead c \<and>
         isWrite r = isWrite c \<and> needsExclusive r = needsExclusive c \<and> hasData r = isRead c))"
proof -
  have "isRequest c \<noteq> isResponse c \<longleftrightarrow> c \<noteq> InvalidCmd" by (cases c) (simp_all add: cmd_attrib_defs)
  moreover have "needsResponse c \<longleftrightarrow> responseCommand c \<noteq> InvalidCmd"
    by (cases c) (simp_all add: cmd_attrib_defs)
  ultimately show ?thesis
    using responseCommand_kind [of c] responseCommand_isResponse [of c]
      response_no_response [of "responseCommand c"] response_no_response [of c] needsResponse_isRequest [of c]
    by (auto simp: Let_def)
qed

theorem command_table_consistent_witness:
  "isResponse (responseCommand StoreCondReq) \<and> needsExclusive (responseCommand StoreCondReq) \<and>
   \<not> hasData (responseCommand StoreCondReq)"
  using command_table_consistent [of StoreCondReq] by (simp add: Let_def cmd_attrib_defs)

end
