(* ===== verification/Mem_Request.thy ===== *)
theory Mem_Request
  imports Prelude
begin

text \<open>
  Memory requests: the flag sets of \<open>src/gem5_src/base/flags.hh\<close> and the class \<open>Request\<close> of
  \<open>src/gem5_src/mem/request.hh\<close>. A request carries a validity bit per optional field in
  \<open>privateFlags\<close>; reading a field whose bit is clear fails its assertion. \<open>curTick()\<close> is the argument
  \<open>now\<close> of the operations that read it.
\<close>

section \<open>Flag sets\<close>

definition isSet :: "'a::len word \<Rightarrow> 'a word \<Rightarrow> bool" where
  "isSet fs m \<longleftrightarrow> fs AND m \<noteq> 0"

definition noneSet :: "'a::len word \<Rightarrow> 'a word \<Rightarrow> bool" where
  "noneSet fs m \<longleftrightarrow> fs AND m = 0"

definition setFlag :: "'a::len word \<Rightarrow> 'a word \<Rightarrow> 'a word" where
  "setFlag fs m = fs OR m"

definition clearFlag :: "'a::len word \<Rightarrow> 'a word \<Rightarrow> 'a word" where
  "clearFlag fs m = fs AND NOT m"

section \<open>Requests\<close>

record request =
  req_paddr :: addr
  req_size :: "32 word"
  req_masterId :: "16 word"
  req_flags :: "32 word"
  privateFlags :: "8 word"
  req_time :: tick
  req_taskId :: "32 word"
  req_asid :: "32 word"
  req_vaddr :: addr
  req_extraData :: "64 word"
  req_contextId :: "32 word"
  req_threadId :: "16 word"
  req_pc :: addr
  translateDelta :: tick
  accessDelta :: tick
  req_depth :: "32 word"

abbreviation ARCH_BITS :: "32 word" where "ARCH_BITS \<equiv> 0x000000FF"
abbreviation INST_FETCH :: "32 word" where "INST_FETCH \<equiv> 0x00000100"
abbreviation UNCACHEABLE :: "32 word" where "UNCACHEABLE \<equiv> 0x00000400"
abbreviation STRICT_ORDER :: "32 word" where "STRICT_ORDER \<equiv> 0x00000800"
abbreviation MMAPPED_IPR :: "32 word" where "MMAPPED_IPR \<equiv> 0x00002000"
abbreviation CLEAR_LL :: "32 word" where "CLEAR_LL \<equiv> 0x00004000"
abbreviation PRIVILEGED :: "32 word" where "PRIVILEGED \<equiv> 0x00008000"
abbreviation LOCKED_RMW :: "32 word" where "LOCKED_RMW \<equiv> 0x00100000"
abbreviation LLSC :: "32 word" where "LLSC \<equiv> 0x00200000"
abbreviation MEM_SWAP :: "32 word" where "MEM_SWAP \<equiv> 0x00400000"
abbreviation MEM_SWAP_COND :: "32 word" where "MEM_SWAP_COND \<equiv> 0x00800000"
abbreviation PREFETCH :: "32 word" where "PREFETCH \<equiv> 0x01000000"
abbreviation SECURE :: "32 word" where "SECURE \<equiv> 0x10000000"
abbreviation PT_WALK :: "32 word" where "PT_WALK \<equiv> 0x20000000"
abbreviation STICKY_FLAGS :: "32 word" where "STICKY_FLAGS \<equiv> INST_FETCH"

abbreviation R_VALID_SIZE :: "8 word" where "R_VALID_SIZE \<equiv> 0x01"
abbreviation R_VALID_PADDR :: "8 word" where "R_VALID_PADDR \<equiv> 0x02"
abbreviation R_VALID_VADDR :: "8 word" where "R_VALID_VADDR \<equiv> 0x04"
abbreviation R_VALID_PC :: "8 word" where "R_VALID_PC \<equiv> 0x10"
abbreviation R_VALID_CONTEXT_ID :: "8 word" where "R_VALID_CONTEXT_ID \<equiv> 0x20"
abbreviation R_VALID_THREAD_ID :: "8 word" where "R_VALID_THREAD_ID \<equiv> 0x40"
abbreviation R_VALID_EXTRA_DATA :: "8 word" where "R_VALID_EXTRA_DATA \<equiv> 0x80"
abbreviation STICKY_PRIVATE_FLAGS :: "8 word" where
  "STICKY_PRIVATE_FLAGS \<equiv> R_VALID_CONTEXT_ID OR R_VALID_THREAD_ID"

definition task_Prefetcher :: "32 word" where "task_Prefetcher = 1022"

definition task_Unknown :: "32 word" where "task_Unknown = 1024"

definition new_Request :: request where
  "new_Request = \<lparr>req_paddr = 0, req_size = 0, req_masterId = - 1, req_flags = 0, privateFlags = 0,
     req_time = 0, req_taskId = task_Unknown, req_asid = 0, req_vaddr = 0, req_extraData = 0,
     req_contextId = 0, req_threadId = 0, req_pc = 0, translateDelta = 0, accessDelta = 0, req_depth = 0\<rparr>"

definition setPhys :: "request \<Rightarrow> addr \<Rightarrow> 32 word \<Rightarrow> 32 word \<Rightarrow> 16 word \<Rightarrow> tick \<Rightarrow> request" where
  "setPhys r paddr sz fl mid t =
     r\<lparr>req_paddr := paddr, req_size := sz, req_time := t, req_masterId := mid,
       req_flags := setFlag (clearFlag (req_flags r) (NOT STICKY_FLAGS)) fl,
       privateFlags := setFlag (clearFlag (privateFlags r) (NOT STICKY_PRIVATE_FLAGS))
                         (R_VALID_PADDR OR R_VALID_SIZE),
       req_depth := 0, accessDelta := 0\<rparr>"

definition new_Request_phys :: "addr \<Rightarrow> 32 word \<Rightarrow> 32 word \<Rightarrow> 16 word \<Rightarrow> tick \<Rightarrow> request" where
  "new_Request_phys paddr sz fl mid t = setPhys new_Request paddr sz fl mid t"

definition new_Request_phys_pc :: "addr \<Rightarrow> 32 word \<Rightarrow> 32 word \<Rightarrow> 16 word \<Rightarrow> tick \<Rightarrow> addr \<Rightarrow> request" where
  "new_Request_phys_pc paddr sz fl mid t pc =
     (let r = setPhys new_Request paddr sz fl mid t
      in r\<lparr>privateFlags := setFlag (privateFlags r) R_VALID_PC, req_pc := pc\<rparr>)"

definition setThreadContext :: "request \<Rightarrow> 32 word \<Rightarrow> 16 word \<Rightarrow> request" where
  "setThreadContext r cid tid =
     r\<lparr>req_contextId := cid, req_threadId := tid,
       privateFlags := setFlag (privateFlags r) (R_VALID_CONTEXT_ID OR R_VALID_THREAD_ID)\<rparr>"

definition setVirt ::
    "tick \<Rightarrow> request \<Rightarrow> 32 word \<Rightarrow> addr \<Rightarrow> 32 word \<Rightarrow> 32 word \<Rightarrow> 16 word \<Rightarrow> addr \<Rightarrow> request" where
  "setVirt now r asid vaddr sz fl mid pc =
     r\<lparr>req_asid := asid, req_vaddr := vaddr, req_size := sz, req_masterId := mid, req_pc := pc,
       req_time := now,
       req_flags := setFlag (clearFlag (req_flags r) (NOT STICKY_FLAGS)) fl,
       privateFlags := setFlag (clearFlag (privateFlags r) (NOT STICKY_PRIVATE_FLAGS))
                         (R_VALID_VADDR OR R_VALID_SIZE OR R_VALID_PC),
       req_depth := 0, accessDelta := 0, translateDelta := 0\<rparr>"

definition new_Request_virt ::
    "tick \<Rightarrow> 32 word \<Rightarrow> addr \<Rightarrow> 32 word \<Rightarrow> 32 word \<Rightarrow> 16 word \<Rightarrow> addr \<Rightarrow> 32 word \<Rightarrow> 16 word \<Rightarrow> request" where
  "new_Request_virt now asid vaddr sz fl mid pc cid tid =
     setThreadContext (setVirt now new_Request asid vaddr sz fl mid pc) cid tid"

definition setPaddr :: "request \<Rightarrow> addr \<Rightarrow> request" where
  "setPaddr r paddr = r\<lparr>req_paddr := paddr, privateFlags := setFlag (privateFlags r) R_VALID_PADDR\<rparr>"

definition splitOnVaddr :: "request \<Rightarrow> addr \<Rightarrow> (request \<times> request) res" where
  "splitOnVaddr r split_addr =
     bindE (assertE (isSet (privateFlags r) R_VALID_VADDR)) (\<lambda>_.
     bindE (assertE (noneSet (privateFlags r) R_VALID_PADDR)) (\<lambda>_.
     bindE (assertE (split_addr > req_vaddr r \<and> split_addr < req_vaddr r + ucast (req_size r))) (\<lambda>_.
     (let r1 = r\<lparr>req_size := ucast (split_addr - req_vaddr r)\<rparr>;
          r2 = r\<lparr>req_vaddr := split_addr, req_size := req_size r - req_size r1\<rparr>
      in Inr (r1, r2)))))"

section \<open>Accessors\<close>

definition hasPaddr :: "request \<Rightarrow> bool" where
  "hasPaddr r = isSet (privateFlags r) R_VALID_PADDR"

definition getPaddr :: "request \<Rightarrow> addr res" where
  "getPaddr r = bindE (assertE (isSet (privateFlags r) R_VALID_PADDR)) (\<lambda>_. Inr (req_paddr r))"

definition hasSize :: "request \<Rightarrow> bool" where
  "hasSize r = isSet (privateFlags r) R_VALID_SIZE"

definition req_getSize :: "request \<Rightarrow> (32 word) res" where
  "req_getSize r = bindE (assertE (isSet (privateFlags r) R_VALID_SIZE)) (\<lambda>_. Inr (req_size r))"

definition request_time :: "request \<Rightarrow> tick res" where
  "request_time r =
     bindE (assertE (isSet (privateFlags r) (R_VALID_PADDR OR R_VALID_VADDR))) (\<lambda>_. Inr (req_time r))"

definition getFlags :: "request \<Rightarrow> (32 word) res" where
  "getFlags r =
     bindE (assertE (isSet (privateFlags r) (R_VALID_PADDR OR R_VALID_VADDR))) (\<lambda>_. Inr (req_flags r))"

definition setFlags :: "request \<Rightarrow> 32 word \<Rightarrow> request res" where
  "setFlags r fl =
     bindE (assertE (isSet (privateFlags r) (R_VALID_PADDR OR R_VALID_VADDR)))
       (\<lambda>_. Inr (r\<lparr>req_flags := setFlag (req_flags r) fl\<rparr>))"

definition hasVaddr :: "request \<Rightarrow> bool" where
  "hasVaddr r = isSet (privateFlags r) R_VALID_VADDR"

definition getVaddr :: "request \<Rightarrow> addr res" where
  "getVaddr r = bindE (assertE (isSet (privateFlags r) R_VALID_VADDR)) (\<lambda>_. Inr (req_vaddr r))"

definition set_taskId :: "request \<Rightarrow> 32 word \<Rightarrow> request" where
  "set_taskId r i = r\<lparr>req_taskId := i\<rparr>"

definition getAsid :: "request \<Rightarrow> (32 word) res" where
  "getAsid r = bindE (assertE (isSet (privateFlags r) R_VALID_VADDR)) (\<lambda>_. Inr (req_asid r))"

definition setAsid :: "request \<Rightarrow> 32 word \<Rightarrow> request" where
  "setAsid r a = r\<lparr>req_asid := a\<rparr>"

definition getArchFlags :: "request \<Rightarrow> (8 word) res" where
  "getArchFlags r =
     bindE (assertE (isSet (privateFlags r) (R_VALID_PADDR OR R_VALID_VADDR)))
       (\<lambda>_. Inr (ucast (req_flags r AND ARCH_BITS)))"

definition extraDataValid :: "request \<Rightarrow> bool" where
  "extraDataValid r = isSet (privateFlags r) R_VALID_EXTRA_DATA"

definition getExtraData :: "request \<Rightarrow> (64 word) res" where
  "getExtraData r = bindE (assertE (isSet (privateFlags r) R_VALID_EXTRA_DATA)) (\<lambda>_. Inr (req_extraData r))"

definition setExtraData :: "request \<Rightarrow> 64 word \<Rightarrow> request" where
  "setExtraData r x = r\<lparr>req_extraData := x, privateFlags := setFlag (privateFlags r) R_VALID_EXTRA_DATA\<rparr>"

definition hasContextId :: "request \<Rightarrow> bool" where
  "hasContextId r = isSet (privateFlags r) R_VALID_CONTEXT_ID"

definition contextId :: "request \<Rightarrow> (32 word) res" where
  "contextId r = bindE (assertE (isSet (privateFlags r) R_VALID_CONTEXT_ID)) (\<lambda>_. Inr (req_contextId r))"

definition threadId :: "request \<Rightarrow> (16 word) res" where
  "threadId r = bindE (assertE (isSet (privateFlags r) R_VALID_THREAD_ID)) (\<lambda>_. Inr (req_threadId r))"

definition setPC :: "request \<Rightarrow> addr \<Rightarrow> request" where
  "setPC r pc = r\<lparr>privateFlags := setFlag (privateFlags r) R_VALID_PC, req_pc := pc\<rparr>"

definition hasPC :: "request \<Rightarrow> bool" where
  "hasPC r = isSet (privateFlags r) R_VALID_PC"

definition getPC :: "request \<Rightarrow> addr res" where
  "getPC r = bindE (assertE (isSet (privateFlags r) R_VALID_PC)) (\<lambda>_. Inr (req_pc r))"

definition incAccessDepth :: "request \<Rightarrow> request" where
  "incAccessDepth r = r\<lparr>req_depth := req_depth r + 1\<rparr>"

definition setTranslateLatency :: "tick \<Rightarrow> request \<Rightarrow> request" where
  "setTranslateLatency now r = r\<lparr>translateDelta := now - req_time r\<rparr>"

definition setAccessLatency :: "tick \<Rightarrow> request \<Rightarrow> request" where
  "setAccessLatency now r = r\<lparr>accessDelta := now - req_time r - translateDelta r\<rparr>"

definition req_isUncacheable :: "request \<Rightarrow> bool" where
  "req_isUncacheable r = isSet (req_flags r) UNCACHEABLE"

definition req_isInstFetch :: "request \<Rightarrow> bool" where
  "req_isInstFetch r = isSet (req_flags r) INST_FETCH"

definition req_isPrefetch :: "request \<Rightarrow> bool" where
  "req_isPrefetch r = isSet (req_flags r) PREFETCH"

definition req_isLLSC :: "request \<Rightarrow> bool" where
  "req_isLLSC r = isSet (req_flags r) LLSC"

definition req_isSwap :: "request \<Rightarrow> bool" where
  "req_isSwap r = isSet (req_flags r) (MEM_SWAP OR MEM_SWAP_COND)"

definition req_isCondSwap :: "request \<Rightarrow> bool" where
  "req_isCondSwap r = isSet (req_flags r) MEM_SWAP_COND"

definition req_isClearLL :: "request \<Rightarrow> bool" where
  "req_isClearLL r = isSet (req_flags r) CLEAR_LL"

definition req_isSecure :: "request \<Rightarrow> bool" where
  "req_isSecure r = isSet (req_flags r) SECURE"

section \<open>Which fields are valid\<close>

lemma isSet_power2: "isSet fs (2 ^ k :: 'a::len word) \<longleftrightarrow> bit fs k"
proof -
  have "fs AND 2 ^ k = (if bit fs k then 2 ^ k else 0)"
    by (rule bit_word_eqI) (auto simp: bit_simps)
  moreover have "bit fs k \<Longrightarrow> k < LENGTH('a)" by (rule bit_imp_le_length)
  ultimately show ?thesis by (auto simp: isSet_def)
qed

lemma noneSet_isSet: "noneSet fs m \<longleftrightarrow> \<not> isSet fs m"
  by (simp add: noneSet_def isSet_def)

lemma isSet_OR: "isSet fs (a OR b) \<longleftrightarrow> isSet fs a \<or> isSet fs b"
  by (simp add: isSet_def bit.conj_disj_distrib or_eq_0_iff)

lemma isSet_setFlag [simp]: "isSet (setFlag fs a) m \<longleftrightarrow> isSet fs m \<or> isSet a m"
  by (simp add: isSet_def setFlag_def bit.conj_disj_distrib2 or_eq_0_iff)

lemma isSet_clearFlag [simp]: "isSet (clearFlag fs a) m \<longleftrightarrow> isSet fs (m AND NOT a)"
  by (simp add: isSet_def clearFlag_def ac_simps)

lemma isSet_0 [simp]: "\<not> isSet fs 0" "\<not> isSet 0 m"
  by (simp_all add: isSet_def)

lemma isSet_numeral [simp]:
  "isSet (numeral a) (numeral b :: 'a::len word) \<longleftrightarrow> numeral a AND numeral b \<noteq> (0 :: 'a word)"
  "isSet 1 (numeral b :: 'a::len word) \<longleftrightarrow> 1 AND numeral b \<noteq> (0 :: 'a word)"
  "isSet 1 (1 :: 'a::len word)"
  "isSet (numeral a) (1 :: 'a::len word) \<longleftrightarrow> numeral a AND 1 \<noteq> (0 :: 'a word)"
  by (simp_all add: isSet_def)

lemma split_bounds:
  fixes v s :: "64 word" and n :: "32 word"
  assumes "v < s" "s < v + ucast n"
  shows "unat (s - v) = unat s - unat v" "unat s - unat v < unat n"
proof -
  have n: "unat (ucast n :: 64 word) = unat n"
    by (rule unat_ucast_up) simp
  show d: "unat (s - v) = unat s - unat v" using assms(1) by (simp add: unat_sub)
  have le: "unat v < unat s" using assms(1) by (simp add: word_less_nat_alt)
  have "unat s < unat (v + ucast n)" using assms(2) by (simp add: word_less_nat_alt)
  also have "\<dots> \<le> unat v + unat n" using n by (simp add: unat_word_ariths)
  finally show "unat s - unat v < unat n" using le by simp
qed

section \<open>Properties\<close>

text \<open>
  C37: splitting a request that has a virtual and no physical address at an address strictly inside it
  yields two non-empty requests that tile the original: the first starts where the original
  does, the second starts at the split address where the first ends, and the sizes add up.
\<close>

theorem splitOnVaddr_tiles:
  assumes "splitOnVaddr r split_addr = Inr (r1, r2)"
  shows "req_vaddr r1 = req_vaddr r \<and> req_vaddr r2 = split_addr \<and>
     req_vaddr r1 + ucast (req_size r1) = req_vaddr r2 \<and>
     0 < unat (req_size r1) \<and> 0 < unat (req_size r2) \<and>
     unat (req_size r1) + unat (req_size r2) = unat (req_size r)"
proof -
  let ?d = "split_addr - req_vaddr r"
  from assms have lt: "req_vaddr r < split_addr" "split_addr < req_vaddr r + ucast (req_size r)"
    and r1: "r1 = r\<lparr>req_size := ucast ?d\<rparr>"
    and r2: "r2 = r\<lparr>req_vaddr := split_addr, req_size := req_size r - ucast ?d\<rparr>"
    by (simp_all add: splitOnVaddr_def Let_def)
  note d = split_bounds [OF lt]
  have pos: "0 < unat ?d" using lt(1) d(1) by (simp add: word_less_nat_alt)
  have small: "unat ?d < 2 ^ LENGTH(32)"
    using d unsigned_less [of "req_size r", where ?'a = nat] by simp
  then have u: "unat (ucast ?d :: 32 word) = unat ?d"
    by (rule unat_ucast_small)
  have "unat (ucast (ucast ?d :: 32 word) :: 64 word) = unat (ucast ?d :: 32 word)"
    by (rule unat_ucast_up) simp
  then have rt: "ucast (ucast ?d :: 32 word) = ?d" using u by (simp add: word_unat_eq_iff)
  have "(ucast ?d :: 32 word) \<le> req_size r" using d u by (simp add: word_le_nat_alt)
  then have "unat (req_size r - ucast ?d) = unat (req_size r) - unat ?d"
    using u by (simp add: unat_sub)
  then show ?thesis using r1 r2 pos u rt d by simp
qed

theorem splitOnVaddr_tiles_witness:
  "splitOnVaddr (new_Request_virt 0 0 60 8 0 0 0 0 0) 64 =
     Inr (new_Request_virt 0 0 60 4 0 0 0 0 0, new_Request_virt 0 0 64 4 0 0 0 0 0) \<and>
   unat (req_size (new_Request_virt 0 0 60 4 0 0 0 0 0)) +
     unat (req_size (new_Request_virt 0 0 64 4 0 0 0 0 0)) = 8"
  using splitOnVaddr_tiles [of "new_Request_virt 0 0 60 8 0 0 0 0 0" 64
      "new_Request_virt 0 0 60 4 0 0 0 0 0" "new_Request_virt 0 0 64 4 0 0 0 0 0"]
  by (simp add: splitOnVaddr_def new_Request_virt_def setThreadContext_def setVirt_def new_Request_def
      isSet_def noneSet_def setFlag_def clearFlag_def)

text \<open>
  C38: reusing a request object for a new virtual address forgets the old translation and the old
  store-conditional result but keeps the thread context: whatever the object held before, its
  physical address is unreadable until \<open>setPaddr\<close> records one, its extra data is unreadable, the
  new virtual address reads back, and the context is readable exactly if it was.
\<close>

theorem setVirt_validity:
  "let r' = setVirt now r asid vaddr sz fl mid pc in
     getPaddr r' = Inl Assert_Failed \<and> getExtraData r' = Inl Assert_Failed \<and>
     getVaddr r' = Inr vaddr \<and> req_getSize r' = Inr sz \<and> getPC r' = Inr pc \<and>
     contextId r' = contextId r \<and> threadId r' = threadId r \<and>
     getPaddr (setPaddr r' paddr) = Inr paddr \<and> getVaddr (setPaddr r' paddr) = Inr vaddr"
  by (simp add: Let_def setVirt_def getPaddr_def getExtraData_def getVaddr_def req_getSize_def getPC_def
      contextId_def threadId_def setPaddr_def)

end
