(* ===== verification/Packet.thy ===== *)
theory Packet
  imports Mem_Cmd Mem_Request
begin

text \<open>
  Packets of \<open>src/gem5_src/mem/packet.hh\<close> and \<open>packet.cc\<close>: construction, responses, the payload, the stack
  of sender states and functional accesses. The data pointer is the payload it points to (\<open>None\<close>
  for a null pointer); whether two pointers are equal is an argument of the one operation that
  asks. The intrusive list of sender states is a list with the top first. A copy outside either
  array is the error \<open>Out_Of_Bounds\<close>.
\<close>

section \<open>State\<close>

record 's packet =
  pkt_flags :: "32 word"
  pkt_cmd :: command
  pkt_req :: request
  pkt_data :: "8 word list option"
  pkt_addr :: addr
  pkt_isSecure :: bool
  pkt_size :: "32 word"
  pkt_origCmd :: command
  bytesValid :: "bool list"
  headerDelay :: "32 word"
  payloadDelay :: "32 word"
  senderState :: "'s list"

abbreviation COPY_FLAGS :: "32 word" where "COPY_FLAGS \<equiv> 0x0000000F"
abbreviation SHARED :: "32 word" where "SHARED \<equiv> 0x00000001"
abbreviation EXPRESS_SNOOP :: "32 word" where "EXPRESS_SNOOP \<equiv> 0x00000002"
abbreviation SUPPLY_EXCLUSIVE :: "32 word" where "SUPPLY_EXCLUSIVE \<equiv> 0x00000004"
abbreviation MEM_INHIBIT :: "32 word" where "MEM_INHIBIT \<equiv> 0x00000008"
abbreviation VALID_ADDR :: "32 word" where "VALID_ADDR \<equiv> 0x00000100"
abbreviation VALID_SIZE :: "32 word" where "VALID_SIZE \<equiv> 0x00000200"
abbreviation STATIC_DATA :: "32 word" where "STATIC_DATA \<equiv> 0x00001000"
abbreviation DYNAMIC_DATA :: "32 word" where "DYNAMIC_DATA \<equiv> 0x00002000"
abbreviation SUPPRESS_FUNC_ERROR :: "32 word" where "SUPPRESS_FUNC_ERROR \<equiv> 0x00008000"
abbreviation BLOCK_CACHED :: "32 word" where "BLOCK_CACHED \<equiv> 0x00010000"

section \<open>Flags\<close>

definition assertMemInhibit :: "'s packet \<Rightarrow> 's packet res" where
  "assertMemInhibit p =
     bindE (assertE (isRequest (pkt_cmd p))) (\<lambda>_.
     bindE (assertE (\<not> isSet (pkt_flags p) MEM_INHIBIT)) (\<lambda>_.
     Inr (p\<lparr>pkt_flags := setFlag (pkt_flags p) MEM_INHIBIT\<rparr>)))"

definition memInhibitAsserted :: "'s packet \<Rightarrow> bool" where
  "memInhibitAsserted p = isSet (pkt_flags p) MEM_INHIBIT"

definition assertShared :: "'s packet \<Rightarrow> 's packet" where
  "assertShared p = p\<lparr>pkt_flags := setFlag (pkt_flags p) SHARED\<rparr>"

definition sharedAsserted :: "'s packet \<Rightarrow> bool" where
  "sharedAsserted p = isSet (pkt_flags p) SHARED"

definition setExpressSnoop :: "'s packet \<Rightarrow> 's packet" where
  "setExpressSnoop p = p\<lparr>pkt_flags := setFlag (pkt_flags p) EXPRESS_SNOOP\<rparr>"

definition isExpressSnoop :: "'s packet \<Rightarrow> bool" where
  "isExpressSnoop p = isSet (pkt_flags p) EXPRESS_SNOOP"

definition setSupplyExclusive :: "'s packet \<Rightarrow> 's packet" where
  "setSupplyExclusive p = p\<lparr>pkt_flags := setFlag (pkt_flags p) SUPPLY_EXCLUSIVE\<rparr>"

definition clearSupplyExclusive :: "'s packet \<Rightarrow> 's packet" where
  "clearSupplyExclusive p = p\<lparr>pkt_flags := clearFlag (pkt_flags p) SUPPLY_EXCLUSIVE\<rparr>"

definition isSupplyExclusive :: "'s packet \<Rightarrow> bool" where
  "isSupplyExclusive p = isSet (pkt_flags p) SUPPLY_EXCLUSIVE"

definition setBlockCached :: "'s packet \<Rightarrow> 's packet" where
  "setBlockCached p = p\<lparr>pkt_flags := setFlag (pkt_flags p) BLOCK_CACHED\<rparr>"

definition isBlockCached :: "'s packet \<Rightarrow> bool" where
  "isBlockCached p = isSet (pkt_flags p) BLOCK_CACHED"

definition setBadAddress :: "'s packet \<Rightarrow> 's packet res" where
  "setBadAddress p = bindE (assertE (isResponse (pkt_cmd p))) (\<lambda>_. Inr (p\<lparr>pkt_cmd := BadAddressError\<rparr>))"

definition copyError :: "'s packet \<Rightarrow> 's packet \<Rightarrow> 's packet res" where
  "copyError p q = bindE (assertE (isError (pkt_cmd q))) (\<lambda>_. Inr (p\<lparr>pkt_cmd := pkt_cmd q\<rparr>))"

section \<open>Address and size\<close>

definition getAddr :: "'s packet \<Rightarrow> addr res" where
  "getAddr p = bindE (assertE (isSet (pkt_flags p) VALID_ADDR)) (\<lambda>_. Inr (pkt_addr p))"

definition setAddr :: "'s packet \<Rightarrow> addr \<Rightarrow> 's packet res" where
  "setAddr p a = bindE (assertE (isSet (pkt_flags p) VALID_ADDR)) (\<lambda>_. Inr (p\<lparr>pkt_addr := a\<rparr>))"

definition getSize :: "'s packet \<Rightarrow> (32 word) res" where
  "getSize p = bindE (assertE (isSet (pkt_flags p) VALID_SIZE)) (\<lambda>_. Inr (pkt_size p))"

definition getOffset :: "'s packet \<Rightarrow> 32 word \<Rightarrow> addr res" where
  "getOffset p blkSize = bindE (getAddr p) (\<lambda>a. Inr (a AND scast (blkSize - 1)))"

definition isSecure :: "'s packet \<Rightarrow> bool res" where
  "isSecure p = bindE (assertE (isSet (pkt_flags p) VALID_ADDR)) (\<lambda>_. Inr (pkt_isSecure p))"

definition convertScToWrite :: "'s packet \<Rightarrow> 's packet res" where
  "convertScToWrite p =
     bindE (assertE (isLLSC (pkt_cmd p))) (\<lambda>_.
     bindE (assertE (isWrite (pkt_cmd p))) (\<lambda>_. Inr (p\<lparr>pkt_cmd := WriteReq\<rparr>)))"

definition convertLlToRead :: "'s packet \<Rightarrow> 's packet res" where
  "convertLlToRead p =
     bindE (assertE (isLLSC (pkt_cmd p))) (\<lambda>_.
     bindE (assertE (isRead (pkt_cmd p))) (\<lambda>_. Inr (p\<lparr>pkt_cmd := ReadReq\<rparr>)))"

section \<open>Construction\<close>

definition new_Packet :: "request \<Rightarrow> command \<Rightarrow> 's packet" where
  "new_Packet r c =
     (let p = \<lparr>pkt_flags = 0, pkt_cmd = c, pkt_req = r, pkt_data = None, pkt_addr = 0,
               pkt_isSecure = False, pkt_size = 0, pkt_origCmd = InvalidCmd, bytesValid = [],
               headerDelay = 0, payloadDelay = 0, senderState = []\<rparr>;
          p = (if hasPaddr r
               then p\<lparr>pkt_addr := req_paddr r, pkt_flags := setFlag (pkt_flags p) VALID_ADDR,
                      pkt_isSecure := req_isSecure r\<rparr> else p)
      in if hasSize r
         then p\<lparr>pkt_size := req_size r, pkt_flags := setFlag (pkt_flags p) VALID_SIZE\<rparr> else p)"

definition new_Packet_blk :: "request \<Rightarrow> command \<Rightarrow> 32 word \<Rightarrow> 's packet" where
  "new_Packet_blk r c blkSize =
     (let p = \<lparr>pkt_flags = 0, pkt_cmd = c, pkt_req = r, pkt_data = None, pkt_addr = 0,
               pkt_isSecure = False, pkt_size = 0, pkt_origCmd = InvalidCmd, bytesValid = [],
               headerDelay = 0, payloadDelay = 0, senderState = []\<rparr>;
          p = (if hasPaddr r
               then p\<lparr>pkt_addr := req_paddr r AND scast (NOT (blkSize - 1)),
                      pkt_flags := setFlag (pkt_flags p) VALID_ADDR,
                      pkt_isSecure := req_isSecure r\<rparr> else p)
      in p\<lparr>pkt_size := blkSize, pkt_flags := setFlag (pkt_flags p) VALID_SIZE\<rparr>)"

text \<open>Fresh heap memory is unspecified: \<open>garbage\<close> says what it holds.\<close>

definition allocate :: "(nat \<Rightarrow> 8 word) \<Rightarrow> 's packet \<Rightarrow> 's packet res" where
  "allocate garbage p =
     bindE (assertE (noneSet (pkt_flags p) (STATIC_DATA OR DYNAMIC_DATA))) (\<lambda>_.
     (let p = p\<lparr>pkt_flags := setFlag (pkt_flags p) DYNAMIC_DATA\<rparr> in
      bindE (getSize p) (\<lambda>n. Inr (p\<lparr>pkt_data := Some (map garbage [0..<unat n])\<rparr>))))"

definition copy_Packet :: "(nat \<Rightarrow> 8 word) \<Rightarrow> 's packet \<Rightarrow> bool \<Rightarrow> bool \<Rightarrow> 's packet res" where
  "copy_Packet garbage pkt clear_flags alloc_data =
     (let p = \<lparr>pkt_flags = 0, pkt_cmd = pkt_cmd pkt, pkt_req = pkt_req pkt, pkt_data = None,
               pkt_addr = pkt_addr pkt, pkt_isSecure = pkt_isSecure pkt, pkt_size = pkt_size pkt,
               pkt_origCmd = InvalidCmd, bytesValid = bytesValid pkt, headerDelay = headerDelay pkt,
               payloadDelay = payloadDelay pkt, senderState = senderState pkt\<rparr>;
          p = (if \<not> clear_flags
               then p\<lparr>pkt_flags := setFlag (pkt_flags p) (pkt_flags pkt AND COPY_FLAGS)\<rparr> else p);
          p = p\<lparr>pkt_flags := setFlag (pkt_flags p) (pkt_flags pkt AND (VALID_ADDR OR VALID_SIZE))\<rparr>
      in if alloc_data then
           if isSet (pkt_flags pkt) STATIC_DATA
           then Inr (p\<lparr>pkt_data := pkt_data pkt, pkt_flags := setFlag (pkt_flags p) STATIC_DATA\<rparr>)
           else allocate garbage p
         else Inr p)"

definition makeReadCmd :: "request \<Rightarrow> command" where
  "makeReadCmd r = (if req_isLLSC r then LoadLockedReq else if req_isPrefetch r then SoftPFReq else ReadReq)"

definition makeWriteCmd :: "request \<Rightarrow> command" where
  "makeWriteCmd r = (if req_isLLSC r then StoreCondReq else if req_isSwap r then SwapReq else WriteReq)"

definition createRead :: "request \<Rightarrow> 's packet" where
  "createRead r = new_Packet r (makeReadCmd r)"

definition createWrite :: "request \<Rightarrow> 's packet" where
  "createWrite r = new_Packet r (makeWriteCmd r)"

definition deletes_request :: "'s packet \<Rightarrow> bool" where
  "deletes_request p \<longleftrightarrow> isRequest (pkt_cmd p) \<and> \<not> needsResponse (pkt_cmd p) \<and> \<not> isExpressSnoop p"

definition makeResponse :: "'s packet \<Rightarrow> 's packet res" where
  "makeResponse p =
     bindE (assertE (needsResponse (pkt_cmd p))) (\<lambda>_.
     bindE (assertE (isRequest (pkt_cmd p))) (\<lambda>_.
     Inr (p\<lparr>pkt_origCmd := pkt_cmd p, pkt_cmd := responseCommand (pkt_cmd p),
            pkt_flags := clearFlag (pkt_flags p) EXPRESS_SNOOP\<rparr>)))"

definition setFunctionalResponseStatus :: "'s packet \<Rightarrow> bool \<Rightarrow> 's packet" where
  "setFunctionalResponseStatus p success =
     (if \<not> success then
        if isWrite (pkt_cmd p) then p\<lparr>pkt_cmd := FunctionalWriteError\<rparr>
        else p\<lparr>pkt_cmd := FunctionalReadError\<rparr>
      else p)"

definition setSize :: "'s packet \<Rightarrow> 32 word \<Rightarrow> 's packet res" where
  "setSize p n =
     bindE (assertE (\<not> isSet (pkt_flags p) VALID_SIZE)) (\<lambda>_.
     Inr (p\<lparr>pkt_size := n, pkt_flags := setFlag (pkt_flags p) VALID_SIZE\<rparr>))"

section \<open>Payload\<close>

definition memcpy :: "'a list \<Rightarrow> int \<Rightarrow> 'a list \<Rightarrow> int \<Rightarrow> nat \<Rightarrow> 'a list res" where
  "memcpy dst d src s n =
     (if n = 0 then Inr dst
      else if 0 \<le> d \<and> 0 \<le> s \<and> nat d + n \<le> length dst \<and> nat s + n \<le> length src
      then Inr (take (nat d) dst @ take n (drop (nat s) src) @ drop (nat d + n) dst)
      else Inl Out_Of_Bounds)"

definition dataStatic :: "8 word list \<Rightarrow> 's packet \<Rightarrow> 's packet res" where
  "dataStatic d p =
     bindE (assertE (noneSet (pkt_flags p) (STATIC_DATA OR DYNAMIC_DATA))) (\<lambda>_.
     Inr (p\<lparr>pkt_data := Some d, pkt_flags := setFlag (pkt_flags p) STATIC_DATA\<rparr>))"

definition dataDynamic :: "8 word list \<Rightarrow> 's packet \<Rightarrow> 's packet res" where
  "dataDynamic d p =
     bindE (assertE (noneSet (pkt_flags p) (STATIC_DATA OR DYNAMIC_DATA))) (\<lambda>_.
     Inr (p\<lparr>pkt_data := Some d, pkt_flags := setFlag (pkt_flags p) DYNAMIC_DATA\<rparr>))"

definition getPtr :: "'s packet \<Rightarrow> (8 word list) res" where
  "getPtr p =
     bindE (assertE (isSet (pkt_flags p) (STATIC_DATA OR DYNAMIC_DATA))) (\<lambda>_.
     (case pkt_data p of None \<Rightarrow> Inl Out_Of_Bounds | Some d \<Rightarrow> Inr d))"

text \<open>\<open>setData\<close> copies \<open>getSize()\<close> bytes from \<open>src + s\<close>; \<open>same_ptr\<close> says that this pointer is the packet's own.\<close>

definition setData :: "bool \<Rightarrow> 's packet \<Rightarrow> 8 word list \<Rightarrow> int \<Rightarrow> 's packet res" where
  "setData same_ptr p src s =
     bindE (getPtr p) (\<lambda>d.
     bindE (assertE (\<not> same_ptr \<or> isSet (pkt_flags p) STATIC_DATA)) (\<lambda>_.
     if \<not> same_ptr then
       bindE (getSize p) (\<lambda>n. bindE (memcpy d 0 src s (unat n)) (\<lambda>d'. Inr (p\<lparr>pkt_data := Some d'\<rparr>)))
     else Inr p))"

definition setDataFromBlock :: "bool \<Rightarrow> 's packet \<Rightarrow> 8 word list \<Rightarrow> 32 word \<Rightarrow> 's packet res" where
  "setDataFromBlock same_ptr p blk_data blkSize =
     bindE (getOffset p blkSize) (\<lambda>off. setData same_ptr p blk_data (uint off))"

definition writeData :: "'s packet \<Rightarrow> 8 word list \<Rightarrow> int \<Rightarrow> (8 word list) res" where
  "writeData p dst d =
     bindE (getPtr p) (\<lambda>src. bindE (getSize p) (\<lambda>n. memcpy dst d src 0 (unat n)))"

definition writeDataToBlock :: "'s packet \<Rightarrow> 8 word list \<Rightarrow> 32 word \<Rightarrow> (8 word list) res" where
  "writeDataToBlock p blk_data blkSize =
     bindE (getOffset p blkSize) (\<lambda>off. writeData p blk_data (uint off))"

definition deleteData :: "'s packet \<Rightarrow> 's packet" where
  "deleteData p = p\<lparr>pkt_flags := clearFlag (pkt_flags p) (STATIC_DATA OR DYNAMIC_DATA), pkt_data := None\<rparr>"

section \<open>Sender states\<close>

definition pushSenderState :: "'s packet \<Rightarrow> 's option \<Rightarrow> 's packet res" where
  "pushSenderState p ss =
     (case ss of None \<Rightarrow> Inl Assert_Failed | Some s \<Rightarrow> Inr (p\<lparr>senderState := s # senderState p\<rparr>))"

definition popSenderState :: "'s packet \<Rightarrow> ('s \<times> 's packet) res" where
  "popSenderState p =
     (case senderState p of [] \<Rightarrow> Inl Assert_Failed | s # ss \<Rightarrow> Inr (s, p\<lparr>senderState := ss\<rparr>))"

definition findNextSenderState :: "('s \<Rightarrow> bool) \<Rightarrow> 's packet \<Rightarrow> 's option" where
  "findNextSenderState is_T p = find is_T (senderState p)"

section \<open>Functional accesses\<close>

text \<open>The two scans over \<open>bytesValid\<close>: \<open>n\<close> more bytes from index \<open>i\<close>, stopping once a byte is invalid.\<close>

fun scan_valid :: "bool list \<Rightarrow> nat \<Rightarrow> nat \<Rightarrow> bool \<Rightarrow> bool res" where
  "scan_valid bv i 0 acc = Inr acc"
| "scan_valid bv i (Suc n) acc =
     (if \<not> acc then Inr acc
      else bindE (vec_get bv i) (\<lambda>b. scan_valid bv (Suc i) n b))"

definition mark_valid :: "bool list \<Rightarrow> nat \<Rightarrow> nat \<Rightarrow> (bool list) res" where
  "mark_valid bv i n = memcpy bv (int i) (replicate n True) 0 n"

text \<open>The copy window of a partially overlapping read: offset into the packet, offset into the value,
and number of bytes, each an \<open>int\<close> of the source.\<close>

definition partial_window ::
    "addr \<Rightarrow> addr \<Rightarrow> addr \<Rightarrow> addr \<Rightarrow> 32 word \<Rightarrow> ((32 word) \<times> (32 word) \<times> (32 word)) res" where
  "partial_window func_start func_end val_start val_end sz =
     (if val_start < func_start \<and> val_end \<le> func_end
      then Inr (0, ucast (func_start - val_start), ucast (val_end - func_start))
      else if val_start \<ge> func_start \<and> val_end > func_end
      then Inr (ucast (val_start - func_start), 0, ucast (func_end - val_start))
      else if val_start \<ge> func_start \<and> val_end \<le> func_end
      then Inr (ucast (val_start - func_start), 0, sz)
      else if val_start < func_start \<and> val_end > func_end
      then Inr (0, ucast (func_start - val_start), ucast (func_end - func_start))
      else Inl Panic_Error)"

definition partial_read ::
    "'s packet \<Rightarrow> (32 word) \<times> (32 word) \<times> (32 word) \<Rightarrow> 8 word list \<Rightarrow> (bool \<times> 's packet) res" where
  "partial_read p w v = (case w of (func_offset, val_offset, overlap_size) \<Rightarrow>
     bindE (getPtr p) (\<lambda>dest.
     bindE (memcpy dest (sint func_offset) v (sint val_offset) (unat (scast overlap_size :: 64 word))) (\<lambda>dest.
     bindE (getSize p) (\<lambda>n.
     (let bv = (if bytesValid p = [] then replicate (unat n) False else bytesValid p);
          fo = nat (sint func_offset); ov = nat (sint overlap_size) in
      bindE (scan_valid bv 0 fo True) (\<lambda>ok.
      bindE (mark_valid bv fo ov) (\<lambda>bv.
      bindE (scan_valid bv (fo + ov) (unat n - (fo + ov)) ok) (\<lambda>ok.
      Inr (ok, p\<lparr>pkt_data := Some dest, bytesValid := bv\<rparr>)))))))))"

definition functional_read ::
    "'s packet \<Rightarrow> addr \<Rightarrow> addr \<Rightarrow> addr \<Rightarrow> addr \<Rightarrow> 32 word \<Rightarrow> 8 word list \<Rightarrow> (bool \<times> 's packet) res" where
  "functional_read p func_start func_end val_start val_end sz v =
     (if func_start \<ge> val_start \<and> func_end \<le> val_end then
        bindE (getPtr p) (\<lambda>d. bindE (getSize p) (\<lambda>n.
        bindE (memcpy d 0 v (sint (ucast (func_start - val_start) :: 32 word)) (unat n)) (\<lambda>d.
        Inr (True, p\<lparr>pkt_data := Some d,
               bytesValid := if bytesValid p = [] then replicate (unat n) True else bytesValid p\<rparr>))))
      else bindE (partial_window func_start func_end val_start val_end sz) (\<lambda>w. partial_read p w v))"

definition functional_write ::
    "'s packet \<Rightarrow> addr \<Rightarrow> addr \<Rightarrow> addr \<Rightarrow> addr \<Rightarrow> 8 word list \<Rightarrow> (8 word list) res" where
  "functional_write p func_start func_end val_start val_end v =
     (let offset = sint (ucast (func_start - val_start) :: 32 word) in
      bindE (getPtr p) (\<lambda>d.
      if offset \<ge> 0
      then memcpy v offset d 0 (unat (min func_end val_end - func_start + 1))
      else memcpy v 0 d (- offset) (unat (min func_end val_end - val_start + 1))))"

text \<open>The result is the returned flag, the packet, and the memory value it was checked against.\<close>

definition checkFunctional ::
    "'s packet \<Rightarrow> addr \<Rightarrow> bool \<Rightarrow> 32 word \<Rightarrow> 8 word list option \<Rightarrow>
     (bool \<times> 's packet \<times> 8 word list option) res" where
  "checkFunctional p base is_secure sz data =
     bindE (getAddr p) (\<lambda>func_start. bindE (getSize p) (\<lambda>n.
     (let func_end = func_start + ucast n - 1;
          val_start = base;
          val_end = val_start + scast sz - 1
      in if is_secure \<noteq> pkt_isSecure p \<or> func_start > val_end \<or> val_start > func_end
         then Inr (False, p, data)
         else if isPrint (pkt_cmd p)
         then bindE (assertE (data = None)) (\<lambda>_. Inr (False, p, data))
         else (case data of
             None \<Rightarrow> Inr (False, p, data)
           | Some v \<Rightarrow>
               if isRead (pkt_cmd p) then
                 bindE (functional_read p func_start func_end val_start val_end sz v)
                   (\<lambda>(ok, p'). Inr (ok, p', data))
               else if isWrite (pkt_cmd p) then
                 bindE (functional_write p func_start func_end val_start val_end v)
                   (\<lambda>v'. Inr (False, p, Some v'))
               else Inl Panic_Error))))"

definition checkFunctional_packet ::
    "'s packet \<Rightarrow> 's packet \<Rightarrow> (bool \<times> 's packet \<times> 's packet) res" where
  "checkFunctional_packet p other =
     bindE (getAddr other) (\<lambda>a. bindE (isSecure other) (\<lambda>sec. bindE (getSize other) (\<lambda>n.
     bindE (if hasData (pkt_cmd other) then bindE (getPtr other) (\<lambda>d. Inr (Some d)) else Inr None) (\<lambda>d.
     bindE (checkFunctional p a sec n d) (\<lambda>(ok, p', d').
     Inr (ok, p', if d' = None then other else other\<lparr>pkt_data := d'\<rparr>))))))"

section \<open>Copying\<close>

lemma memcpy_eq_Inr:
  "memcpy dst d src s n = Inr r \<longleftrightarrow>
     (if n = 0 then r = dst
      else 0 \<le> d \<and> 0 \<le> s \<and> nat d + n \<le> length dst \<and> nat s + n \<le> length src \<and>
           r = take (nat d) dst @ take n (drop (nat s) src) @ drop (nat d + n) dst)"
  by (auto simp: memcpy_def)

lemma memcpy_total:
  "i + n \<le> length dst \<Longrightarrow> j + n \<le> length src \<Longrightarrow> \<exists>r. memcpy dst (int i) src (int j) n = Inr r"
  by (simp add: memcpy_def)

lemma memcpy_length: "memcpy dst d src s n = Inr r \<Longrightarrow> length r = length dst"
  by (auto simp: memcpy_eq_Inr split: if_splits)

lemma memcpy_nth:
  assumes "memcpy dst d src s n = Inr r" "i < length dst"
  shows "r ! i = (if nat d \<le> i \<and> i < nat d + n then src ! (nat s + (i - nat d)) else dst ! i)"
proof (cases "n = 0")
  case True
  then show ?thesis using assms by (auto simp: memcpy_eq_Inr)
next
  case False
  then have r: "r = take (nat d) dst @ take n (drop (nat s) src) @ drop (nat d + n) dst"
    and b: "nat d + n \<le> length dst" "nat s + n \<le> length src"
    using assms(1) by (auto simp: memcpy_eq_Inr)
  consider "i < nat d" | "nat d \<le> i" "i < nat d + n" | "nat d + n \<le> i" by linarith
  then show ?thesis
  proof cases
    case 1
    then show ?thesis using b by (simp add: r nth_append)
  next
    case 2
    then have "i - nat d < n" by simp
    then show ?thesis using 2 b by (simp add: r nth_append)
  next
    case 3
    then have "\<not> i - nat d < n" "\<not> i < nat d" by simp_all
    then show ?thesis using 3 assms(2) b by (simp add: r nth_append)
  qed
qed

lemma memcpy_readback:
  assumes "memcpy blk d src 0 n = Inr blk'" "n \<le> length dst"
  shows "\<exists>dst'. memcpy dst 0 blk' d n = Inr dst' \<and> take n dst' = take n src"
proof (cases "n = 0")
  case True
  then show ?thesis by (simp add: memcpy_def)
next
  case False
  then have b: "0 \<le> d" "nat d + n \<le> length blk" "n \<le> length src"
    and blk': "blk' = take (nat d) blk @ take n src @ drop (nat d + n) blk"
    using assms(1) by (auto simp: memcpy_eq_Inr)
  have "memcpy dst 0 blk' d n = Inr (take n (drop (nat d) blk') @ drop n dst)"
    using False b blk' assms(2) by (simp add: memcpy_def)
  moreover have "take n (drop (nat d) blk') = take n src" using b by (simp add: blk')
  ultimately show ?thesis using b by simp
qed

section \<open>Packets with a payload\<close>

definition carries :: "'s packet \<Rightarrow> 8 word list \<Rightarrow> bool" where
  "carries p d \<longleftrightarrow> isSet (pkt_flags p) VALID_ADDR \<and> isSet (pkt_flags p) VALID_SIZE \<and>
     isSet (pkt_flags p) (STATIC_DATA OR DYNAMIC_DATA) \<and> pkt_data p = Some d \<and>
     length d = unat (pkt_size p) \<and> 0 < unat (pkt_size p) \<and> unat (pkt_size p) < 2 ^ 31 \<and>
     unat (pkt_addr p) + unat (pkt_size p) \<le> 2 ^ 64"

lemma carries_access:
  assumes "carries p d"
  shows "getAddr p = Inr (pkt_addr p)" "getSize p = Inr (pkt_size p)" "getPtr p = Inr d"
    "getOffset p b = Inr (pkt_addr p AND scast (b - 1))"
  using assms by (auto simp: carries_def getAddr_def getSize_def getPtr_def getOffset_def)

definition value_at :: "addr \<Rightarrow> 32 word \<Rightarrow> 8 word list \<Rightarrow> bool" where
  "value_at base sz v \<longleftrightarrow> length v = unat sz \<and> 0 < unat sz \<and> unat sz < 2 ^ 31 \<and>
     unat base + unat sz \<le> 2 ^ 64"

lemma carries_end:
  "carries p d \<Longrightarrow> unat (pkt_addr p + ucast (pkt_size p) - 1) = unat (pkt_addr p) + length d - 1"
  by (subst range_end) (auto simp: carries_def unat_ucast_up)

lemma value_end:
  "value_at base sz v \<Longrightarrow> unat (base + scast sz - 1) = unat base + length v - 1"
  by (subst range_end) (auto simp: value_at_def unat_scast_up)

definition overlaps :: "nat \<Rightarrow> nat \<Rightarrow> nat \<Rightarrow> nat \<Rightarrow> bool" where
  "overlaps a n b m \<longleftrightarrow> a < b + m \<and> b < a + n"

lemma no_overlap_test:
  assumes "carries p d" "value_at base sz v"
  shows "(pkt_addr p > base + scast sz - 1 \<or> base > pkt_addr p + ucast (pkt_size p) - 1) \<longleftrightarrow>
     \<not> overlaps (unat (pkt_addr p)) (length d) (unat base) (length v)"
  using assms carries_end [OF assms(1)] value_end [OF assms(2)]
  by (auto simp: word_less_nat_alt overlaps_def carries_def value_at_def)

lemma functional_write_merges:
  assumes c: "carries p d" and v: "value_at base sz v"
    and ov: "overlaps (unat (pkt_addr p)) (length d) (unat base) (length v)"
  shows "\<exists>v'. functional_write p (pkt_addr p) (pkt_addr p + ucast (pkt_size p) - 1)
       base (base + scast sz - 1) v = Inr v' \<and> length v' = length v \<and>
     (\<forall>i < length v. v' ! i =
       (if unat (pkt_addr p) \<le> unat base + i \<and> unat base + i < unat (pkt_addr p) + length d
        then d ! (unat base + i - unat (pkt_addr p)) else v ! i))"
proof -
  let ?f = "unat (pkt_addr p)" and ?b = "unat base" and ?n = "length d" and ?m = "length v"
  let ?fe = "pkt_addr p + ucast (pkt_size p) - 1" and ?ve = "base + scast sz - 1"
  let ?off = "sint (ucast (pkt_addr p - base) :: 32 word)"
  have off: "?off = int ?f - int ?b"
    by (rule sint_ucast_diff) (use c v ov in \<open>auto simp: carries_def value_at_def overlaps_def\<close>)
  have mn: "unat (min ?fe ?ve) = min (?f + ?n) (?b + ?m) - 1"
    using carries_end [OF c] value_end [OF v] by (auto simp: min_def word_le_nat_alt)
  have cnt: "unat (min ?fe ?ve - x + 1) = min (?f + ?n) (?b + ?m) - unat x"
    if "unat x < min (?f + ?n) (?b + ?m)" "min (?f + ?n) (?b + ?m) < unat x + 2 ^ 31" for x
    using that mn by (subst unat_span) auto
  show ?thesis
  proof (cases "?b \<le> ?f")
    case True
    then obtain j where j: "?f = ?b + j" using le_Suc_ex by blast
    have o: "?off = int j" unfolding off j by simp
    let ?k = "min (?f + ?n) (?b + ?m) - ?f"
    have k: "unat (min ?fe ?ve - pkt_addr p + 1) = ?k"
      using ov c v by (intro cnt) (auto simp: overlaps_def carries_def value_at_def)
    have "j + ?k \<le> ?m" "0 + ?k \<le> ?n" using ov j by (auto simp: overlaps_def)
    from memcpy_total [OF this] obtain v' where v': "memcpy v (int j) d 0 ?k = Inr v'" by auto
    have "v' ! i = (if ?f \<le> ?b + i \<and> ?b + i < ?f + ?n then d ! (?b + i - ?f) else v ! i)"
      if "i < ?m" for i
      using memcpy_nth [OF v' that] that j by auto
    moreover have "functional_write p (pkt_addr p) ?fe base ?ve v = memcpy v (int j) d 0 ?k"
      unfolding functional_write_def carries_access [OF c] Let_def o k by simp
    ultimately show ?thesis using v' memcpy_length [OF v'] by simp
  next
    case False
    then obtain j where j: "?b = ?f + j" "0 < j" by (metis less_imp_add_positive not_le)
    have o: "?off = - int j" unfolding off j by simp
    let ?k = "min (?f + ?n) (?b + ?m) - ?b"
    have k: "unat (min ?fe ?ve - base + 1) = ?k"
      using ov c v by (intro cnt) (auto simp: overlaps_def carries_def value_at_def)
    have "0 + ?k \<le> ?m" "j + ?k \<le> ?n" using ov j by (auto simp: overlaps_def)
    from memcpy_total [OF this] obtain v' where v': "memcpy v 0 d (int j) ?k = Inr v'" by auto
    have "v' ! i = (if ?f \<le> ?b + i \<and> ?b + i < ?f + ?n then d ! (?b + i - ?f) else v ! i)"
      if "i < ?m" for i
      using memcpy_nth [OF v' that] that j by auto
    moreover have "functional_write p (pkt_addr p) ?fe base ?ve v = memcpy v 0 d (int j) ?k"
      unfolding functional_write_def carries_access [OF c] Let_def o k using j(2) by simp
    ultimately show ?thesis using v' memcpy_length [OF v'] by simp
  qed
qed

lemma scan_valid_eq:
  "i + n \<le> length bv \<Longrightarrow> scan_valid bv i n acc = Inr (acc \<and> (\<forall>j < n. bv ! (i + j)))"
  by (induction bv i n acc rule: scan_valid.induct) (auto simp: less_Suc_eq_0_disj)

lemma functional_read_complete:
  assumes c: "carries p d" and v: "value_at base sz v"
    and inside: "unat base \<le> unat (pkt_addr p)" "unat (pkt_addr p) + length d \<le> unat base + length v"
  shows "functional_read p (pkt_addr p) (pkt_addr p + ucast (pkt_size p) - 1) base (base + scast sz - 1) sz v =
     Inr (True, p\<lparr>pkt_data := Some (take (length d) (drop (unat (pkt_addr p) - unat base) v)),
       bytesValid := if bytesValid p = [] then replicate (length d) True else bytesValid p\<rparr>)"
proof -
  let ?f = "unat (pkt_addr p)" and ?b = "unat base"
  let ?fe = "pkt_addr p + ucast (pkt_size p) - 1" and ?ve = "base + scast sz - 1"
  obtain j where j: "?f = ?b + j" using inside(1) le_Suc_ex by blast
  have n: "length d = unat (pkt_size p)" "0 < unat (pkt_size p)" using c by (auto simp: carries_def)
  have "sint (ucast (pkt_addr p - base) :: 32 word) = int ?f - int ?b"
    by (rule sint_ucast_diff) (use c v inside in \<open>auto simp: carries_def value_at_def\<close>)
  then have o: "sint (ucast (pkt_addr p - base) :: 32 word) = int j" unfolding j by simp
  have tests: "base \<le> pkt_addr p" "?fe \<le> ?ve"
    using inside carries_end [OF c] value_end [OF v] by (auto simp: word_le_nat_alt)
  have "memcpy d 0 v (int j) (length d) = Inr (take (length d) (drop j v))"
    using inside j n by (simp add: memcpy_def)
  then show ?thesis
    unfolding functional_read_def carries_access [OF c] o using tests n j by simp
qed

lemma partial_read_prefix:
  assumes c: "carries p d" and bv: "bytesValid p = []" and k: "unat k < length d" "j + unat k \<le> length v"
    and o: "sint off = int j"
  shows "partial_read p (0, off, k) v =
     Inr (False, p\<lparr>pkt_data := Some (take (unat k) (drop j v) @ drop (unat k) d),
                   bytesValid := replicate (unat k) True @ replicate (length d - unat k) False\<rparr>)"
proof -
  let ?k = "unat k" and ?n = "length d"
  have n: "?n = unat (pkt_size p)" "?n < 2 ^ 31" using c by (auto simp: carries_def)
  have k31: "?k < 2 ^ 31" using k n by simp
  have ks: "unat (scast k :: 64 word) = ?k" "nat (sint k) = ?k"
    using unat_scast_up [OF k31] sint_small [OF k31] by simp_all
  have cp: "memcpy d 0 v (int j) ?k = Inr (take ?k (drop j v) @ drop ?k d)"
    using k by (auto simp: memcpy_def)
  let ?bv = "replicate ?k True @ replicate (?n - ?k) False"
  have mk: "mark_valid (replicate ?n False) 0 ?k = Inr ?bv"
    using k by (auto simp: mark_valid_def memcpy_def)
  have len: "?k + (?n - ?k) \<le> length ?bv" by simp
  have sc: "scan_valid ?bv ?k (?n - ?k) True = Inr False"
    unfolding scan_valid_eq [OF len] using k(1) by (auto simp: nth_append intro: exI [of _ 0])
  show ?thesis
    unfolding partial_read_def prod.case carries_access [OF c] o ks
    using cp mk sc bv n(1) by (simp add: Let_def)
qed

lemma functional_read_left:
  assumes c: "carries p d" and v: "value_at base sz v" and bv: "bytesValid p = []"
    and ord: "unat base < unat (pkt_addr p)" "unat (pkt_addr p) < unat base + length v"
      "unat base + length v < unat (pkt_addr p) + length d"
  shows "functional_read p (pkt_addr p) (pkt_addr p + ucast (pkt_size p) - 1) base (base + scast sz - 1) sz v =
     (let k = unat base + length v - 1 - unat (pkt_addr p) in
      Inr (False, p\<lparr>pkt_data := Some (take k (drop (unat (pkt_addr p) - unat base) v) @ drop k d),
                    bytesValid := replicate k True @ replicate (length d - k) False\<rparr>))"
proof -
  let ?f = "unat (pkt_addr p)" and ?b = "unat base"
  let ?fe = "pkt_addr p + ucast (pkt_size p) - 1" and ?ve = "base + scast sz - 1"
  let ?k = "ucast (?ve - pkt_addr p) :: 32 word" and ?o = "ucast (pkt_addr p - base) :: 32 word"
  have n: "length d = unat (pkt_size p)" using c by (auto simp: carries_def)
  obtain j where j: "?f = ?b + j" using ord(1) le_Suc_ex less_imp_le by blast
  have "sint ?o = int ?f - int ?b"
    by (rule sint_ucast_diff) (use c v ord in \<open>auto simp: carries_def value_at_def\<close>)
  then have o: "sint ?o = int j" unfolding j by simp
  note e = carries_end [OF c] value_end [OF v]
  have "unat (?ve - pkt_addr p) = ?b + length v - 1 - ?f"
    using ord e by (simp add: unat_sub word_le_nat_alt)
  then have k: "unat ?k = ?b + length v - 1 - ?f"
    using c v ord by (subst unat_ucast_small) (auto simp: carries_def value_at_def)
  have "base < pkt_addr p" "?ve < ?fe"
    using ord e by (auto simp: word_le_nat_alt word_less_nat_alt)
  then have "functional_read p (pkt_addr p) ?fe base ?ve sz v = partial_read p (0, ?o, ?k) v"
    by (simp add: functional_read_def partial_window_def less_imp_le not_le [THEN iffD2])
  also have "\<dots> = Inr (False, p\<lparr>pkt_data := Some (take (unat ?k) (drop j v) @ drop (unat ?k) d),
      bytesValid := replicate (unat ?k) True @ replicate (length d - unat ?k) False\<rparr>)"
    using ord j k by (intro partial_read_prefix c bv o) auto
  finally show ?thesis unfolding k Let_def j by simp
qed

section \<open>Properties\<close>

text \<open>
  C27: \<open>makeResponse\<close> succeeds exactly on commands that need a response. The packet then is a response,
  is never an express snoop, cannot be turned into a response again, and keeps its
  request, address, size, payload, sender states and snoop-result flags.
\<close>

theorem makeResponse_protocol:
  "case makeResponse p of
     Inl e \<Rightarrow> \<not> needsResponse (pkt_cmd p)
   | Inr q \<Rightarrow> needsResponse (pkt_cmd p) \<and> isResponse (pkt_cmd q) \<and> makeResponse q = Inl Assert_Failed \<and>
       \<not> isExpressSnoop q \<and> pkt_req q = pkt_req p \<and> getAddr q = getAddr p \<and> getSize q = getSize p \<and>
       getPtr q = getPtr p \<and> senderState q = senderState p \<and>
       sharedAsserted q = sharedAsserted p \<and> memInhibitAsserted q = memInhibitAsserted p"
proof (cases "needsResponse (pkt_cmd p)")
  case True
  note r = responseCommand_isResponse [OF True] response_no_response [OF responseCommand_isResponse [OF True]]
  show ?thesis using True r needsResponse_isRequest [OF True]
    by (simp add: makeResponse_def isExpressSnoop_def getAddr_def getSize_def getPtr_def
        sharedAsserted_def memInhibitAsserted_def)
next
  case False
  then show ?thesis by (simp add: makeResponse_def)
qed

text \<open>
  C20: a write into a block is read back. If a packet's payload was copied into a block, then any packet
  with the same address and size that has its own buffer of that size reads exactly that payload from the
  block, and the block keeps its length and every byte outside the written range.
\<close>

theorem block_write_read:
  assumes "carries p d" "writeDataToBlock p blk blkSize = Inr blk'"
    and "carries q e" "pkt_addr q = pkt_addr p" "pkt_size q = pkt_size p"
  shows "setDataFromBlock False q blk' blkSize = Inr (q\<lparr>pkt_data := Some d\<rparr>) \<and> length blk' = length blk \<and>
     (\<forall>i < length blk. i < unat (pkt_addr p AND scast (blkSize - 1)) \<or>
        unat (pkt_addr p AND scast (blkSize - 1)) + length d \<le> i \<longrightarrow> blk' ! i = blk ! i)"
proof -
  let ?o = "pkt_addr p AND scast (blkSize - 1)"
  have n: "length d = unat (pkt_size p)" "length e = length d"
    using assms by (auto simp: carries_def)
  have w: "memcpy blk (uint ?o) d 0 (length d) = Inr blk'"
    using assms(2) n(1) by (simp add: writeDataToBlock_def writeData_def carries_access [OF assms(1)])
  obtain e' where e': "memcpy e 0 blk' (uint ?o) (length d) = Inr e'" "take (length d) e' = d"
    using memcpy_readback [OF w, of e] n by auto
  have "e' = d" using memcpy_length [OF e'(1)] e'(2) n by simp
  then have "setDataFromBlock False q blk' blkSize = Inr (q\<lparr>pkt_data := Some d\<rparr>)"
    using e'(1) n assms(4,5)
    by (simp add: setDataFromBlock_def setData_def carries_access [OF assms(3)])
  moreover have "blk' ! i = blk ! i"
    if "i < length blk" "i < unat ?o \<or> unat ?o + length d \<le> i" for i
  proof -
    have "blk' ! i = (if unat ?o \<le> i \<and> i < unat ?o + length d then d ! (i - unat ?o) else blk ! i)"
      using memcpy_nth [OF w that(1)] by simp
    then show ?thesis using that(2) by auto
  qed
  ultimately show ?thesis using memcpy_length [OF w] by blast
qed

abbreviation demo_packet :: "command \<Rightarrow> addr \<Rightarrow> 8 word list \<Rightarrow> unit packet" where
  "demo_packet c a d \<equiv>
     \<lparr>pkt_flags = 0x2300, pkt_cmd = c, pkt_req = new_Request, pkt_data = Some d, pkt_addr = a,
      pkt_isSecure = False, pkt_size = of_nat (length d), pkt_origCmd = InvalidCmd, bytesValid = [],
      headerDelay = 0, payloadDelay = 0, senderState = []\<rparr>"

theorem block_write_read_witness:
  "setDataFromBlock False (demo_packet ReadReq 66 [0, 0]) [9, 9, 1, 2] 4 = Inr (demo_packet ReadReq 66 [1, 2])"
  using block_write_read [of "demo_packet WriteReq 66 [1, 2]" "[1, 2]" "[9, 9, 9, 9]" 4 "[9, 9, 1, 2]"
      "demo_packet ReadReq 66 [0, 0]" "[0, 0]"]
  by (simp add: carries_def writeDataToBlock_def writeData_def getOffset_def getAddr_def getPtr_def getSize_def
      memcpy_def)

text \<open>
  C18: a functional write that meets a memory value of the same security domain merges into it: every byte
  of the value that the packet also covers takes the packet's byte for that address, every other
  byte keeps its value, and the search for further copies goes on.
\<close>

theorem checkFunctional_write_merges:
  assumes "carries p d" "value_at base sz v" "isWrite (pkt_cmd p)" "\<not> isRead (pkt_cmd p)"
    and "overlaps (unat (pkt_addr p)) (length d) (unat base) (length v)"
  shows "\<exists>v'. checkFunctional p base (pkt_isSecure p) sz (Some v) = Inr (False, p, Some v') \<and>
     length v' = length v \<and>
     (\<forall>i < length v. v' ! i =
       (if unat (pkt_addr p) \<le> unat base + i \<and> unat base + i < unat (pkt_addr p) + length d
        then d ! (unat base + i - unat (pkt_addr p)) else v ! i))"
proof -
  have np: "\<not> isPrint (pkt_cmd p)" using assms(3) by (cases "pkt_cmd p") (simp_all add: cmd_attrib_defs)
  show ?thesis
    using functional_write_merges [OF assms(1,2,5)] no_overlap_test [OF assms(1,2)] np assms
    by (auto simp: checkFunctional_def carries_access [OF assms(1)] Let_def)
qed

theorem checkFunctional_write_merges_witness:
  "\<exists>v'. checkFunctional (demo_packet WriteReq 10 [1, 2]) 8 False 3 (Some [7, 8, 9]) =
     Inr (False, demo_packet WriteReq 10 [1, 2], Some v') \<and> length v' = 3 \<and> v' ! 0 = 7 \<and> v' ! 2 = 1"
  using checkFunctional_write_merges [of "demo_packet WriteReq 10 [1, 2]" "[1, 2]" 8 3 "[7, 8, 9]"]
  by (auto simp: carries_def value_at_def overlaps_def cmd_attrib_defs)

text \<open>
  C19: a functional read that lies inside a memory value of its security domain is satisfied by it: the packet
  receives exactly the bytes of the value at its addresses, and the value is unchanged.
\<close>

theorem checkFunctional_read_inside:
  assumes "carries p d" "value_at base sz v" "isRead (pkt_cmd p)"
    and "unat base \<le> unat (pkt_addr p)" "unat (pkt_addr p) + length d \<le> unat base + length v"
  shows "checkFunctional p base (pkt_isSecure p) sz (Some v) =
     Inr (True, p\<lparr>pkt_data := Some (take (length d) (drop (unat (pkt_addr p) - unat base) v)),
       bytesValid := if bytesValid p = [] then replicate (length d) True else bytesValid p\<rparr>, Some v)"
proof -
  have np: "\<not> isPrint (pkt_cmd p)" using assms(3) by (cases "pkt_cmd p") (simp_all add: cmd_attrib_defs)
  have "overlaps (unat (pkt_addr p)) (length d) (unat base) (length v)"
    using assms by (auto simp: overlaps_def carries_def)
  then show ?thesis
    using functional_read_complete [OF assms(1,2,4,5)] no_overlap_test [OF assms(1,2)] np assms(3)
    by (auto simp: checkFunctional_def carries_access [OF assms(1)] Let_def)
qed

theorem checkFunctional_read_inside_witness:
  "checkFunctional (demo_packet ReadReq 9 [0, 0]) 8 False 4 (Some [6, 7, 8, 9]) =
     Inr (True, (demo_packet ReadReq 9 [7, 8])\<lparr>bytesValid := [True, True]\<rparr>, Some [6, 7, 8, 9])"
  using checkFunctional_read_inside [of "demo_packet ReadReq 9 [0, 0]" "[0, 0]" 8 4 "[6, 7, 8, 9]"]
  by (simp add: carries_def value_at_def cmd_attrib_defs)

text \<open>
  C28: a functional read that starts inside a memory value and runs past its end receives one byte too few.
  The value covers \<open>k + 1\<close> bytes of the packet, where \<open>k\<close> is the distance from the packet's start to the
  value's last byte, but only \<open>k\<close> bytes are copied and marked valid.
\<close>

theorem checkFunctional_partial_read_short:
  assumes "carries p d" "value_at base sz v" "isRead (pkt_cmd p)" "bytesValid p = []"
    and "unat base < unat (pkt_addr p)" "unat (pkt_addr p) < unat base + length v"
      "unat base + length v < unat (pkt_addr p) + length d"
  shows "checkFunctional p base (pkt_isSecure p) sz (Some v) =
     (let k = unat base + length v - 1 - unat (pkt_addr p) in
      Inr (False, p\<lparr>pkt_data := Some (take k (drop (unat (pkt_addr p) - unat base) v) @ drop k d),
                    bytesValid := replicate k True @ replicate (length d - k) False\<rparr>, Some v))"
proof -
  have np: "\<not> isPrint (pkt_cmd p)" using assms(3) by (cases "pkt_cmd p") (simp_all add: cmd_attrib_defs)
  have "overlaps (unat (pkt_addr p)) (length d) (unat base) (length v)"
    using assms by (auto simp: overlaps_def carries_def)
  then show ?thesis
    using functional_read_left [OF assms(1,2,4,5,6,7)] no_overlap_test [OF assms(1,2)] np assms(3)
    by (auto simp: checkFunctional_def carries_access [OF assms(1)] Let_def)
qed

theorem checkFunctional_partial_read_short_witness:
  "checkFunctional (demo_packet ReadReq 10 [0, 0, 0]) 8 False 4 (Some [6, 7, 8, 9]) =
     Inr (False, (demo_packet ReadReq 10 [8, 0, 0])\<lparr>bytesValid := [True, False, False]\<rparr>, Some [6, 7, 8, 9])"
  using checkFunctional_partial_read_short [of "demo_packet ReadReq 10 [0, 0, 0]" "[0, 0, 0]" 8 4 "[6, 7, 8, 9]"]
  by (simp add: carries_def value_at_def cmd_attrib_defs Let_def)

end
