(* ===== verification/Cache_Blk.thy ===== *)
theory Cache_Blk
  imports Packet
begin

text \<open>
  A cache block of \<open>src/gem5_src/mem/cache/blk.hh\<close>: its status bits, and the load-locked reservations that
  decide store conditionals. A block's data pointer into the tag store's data array is the list of its bytes.
\<close>

section \<open>State\<close>

abbreviation BlkValid :: "32 word" where "BlkValid \<equiv> 0x01"
abbreviation BlkWritable :: "32 word" where "BlkWritable \<equiv> 0x02"
abbreviation BlkReadable :: "32 word" where "BlkReadable \<equiv> 0x04"
abbreviation BlkDirty :: "32 word" where "BlkDirty \<equiv> 0x08"
abbreviation BlkReferenced :: "32 word" where "BlkReferenced \<equiv> 0x10"
abbreviation BlkHWPrefetched :: "32 word" where "BlkHWPrefetched \<equiv> 0x20"
abbreviation BlkSecure :: "32 word" where "BlkSecure \<equiv> 0x40"

record lock =
  lock_contextId :: "32 word"
  lowAddr :: addr
  highAddr :: addr

record cache_blk =
  blk_task_id :: "32 word"
  blk_asid :: "32 word"
  blk_tag :: addr
  blk_data :: "8 word list"
  blk_size :: "32 word"
  blk_status :: "32 word"
  whenReady :: tick
  blk_set :: "32 word"
  isTouched :: bool
  refCount :: "32 word"
  srcMasterId :: "32 word"
  tickInserted :: tick
  lockList :: "lock list"

abbreviation invldMasterId :: "32 word" where "invldMasterId \<equiv> 0xFFFF"

definition new_CacheBlk :: cache_blk where
  "new_CacheBlk = \<lparr>blk_task_id = task_Unknown, blk_asid = - 1, blk_tag = 0, blk_data = [], blk_size = 0,
     blk_status = 0, whenReady = 0, blk_set = - 1, isTouched = False, refCount = 0,
     srcMasterId = invldMasterId, tickInserted = 0, lockList = []\<rparr>"

text \<open>The assignment operator copies nine of the fields.\<close>

definition blk_assign :: "cache_blk \<Rightarrow> cache_blk \<Rightarrow> cache_blk" where
  "blk_assign this rhs =
     this\<lparr>blk_asid := blk_asid rhs, blk_tag := blk_tag rhs, blk_data := blk_data rhs,
          blk_size := blk_size rhs, blk_status := blk_status rhs, whenReady := whenReady rhs,
          blk_set := blk_set rhs, refCount := refCount rhs, blk_task_id := blk_task_id rhs\<rparr>"

section \<open>Status\<close>

definition blk_isWritable :: "cache_blk \<Rightarrow> bool" where
  "blk_isWritable b \<longleftrightarrow> blk_status b AND (BlkWritable OR BlkValid) = BlkWritable OR BlkValid"

definition blk_isReadable :: "cache_blk \<Rightarrow> bool" where
  "blk_isReadable b \<longleftrightarrow> blk_status b AND (BlkReadable OR BlkValid) = BlkReadable OR BlkValid"

definition blk_isValid :: "cache_blk \<Rightarrow> bool" where
  "blk_isValid b \<longleftrightarrow> blk_status b AND BlkValid \<noteq> 0"

definition blk_isDirty :: "cache_blk \<Rightarrow> bool" where
  "blk_isDirty b \<longleftrightarrow> blk_status b AND BlkDirty \<noteq> 0"

definition blk_isReferenced :: "cache_blk \<Rightarrow> bool" where
  "blk_isReferenced b \<longleftrightarrow> blk_status b AND BlkReferenced \<noteq> 0"

definition blk_wasPrefetched :: "cache_blk \<Rightarrow> bool" where
  "blk_wasPrefetched b \<longleftrightarrow> blk_status b AND BlkHWPrefetched \<noteq> 0"

definition blk_isSecure :: "cache_blk \<Rightarrow> bool" where
  "blk_isSecure b \<longleftrightarrow> blk_status b AND BlkSecure \<noteq> 0"

definition blk_moesi :: "cache_blk \<Rightarrow> char" where
  "blk_moesi b =
     (case (blk_isWritable b, blk_isDirty b, blk_isValid b) of
        (True, True, True) \<Rightarrow> CHR ''M''
      | (False, True, True) \<Rightarrow> CHR ''O''
      | (True, False, True) \<Rightarrow> CHR ''E''
      | (False, False, True) \<Rightarrow> CHR ''S''
      | (False, False, False) \<Rightarrow> CHR ''I''
      | _ \<Rightarrow> CHR ''T'')"

section \<open>Load locks\<close>

definition req_range :: "request \<Rightarrow> (addr \<times> addr) res" where
  "req_range r = bindE (getPaddr r) (\<lambda>lo. bindE (req_getSize r) (\<lambda>n. Inr (lo, lo + ucast n - 1)))"

definition new_Lock :: "request \<Rightarrow> lock res" where
  "new_Lock r =
     bindE (contextId r) (\<lambda>c. bindE (getPaddr r) (\<lambda>lo. bindE (req_getSize r) (\<lambda>n.
     Inr \<lparr>lock_contextId = c, lowAddr = lo, highAddr = lo + ucast n - 1\<rparr>)))"

definition matchesContext :: "lock \<Rightarrow> request \<Rightarrow> bool res" where
  "matchesContext l r =
     bindE (req_range r) (\<lambda>(req_low, req_high). bindE (contextId r) (\<lambda>c.
     Inr (lock_contextId l = c \<and> req_low \<ge> lowAddr l \<and> req_high \<le> highAddr l)))"

definition overlapping :: "lock \<Rightarrow> request \<Rightarrow> bool res" where
  "overlapping l r =
     bindE (req_range r) (\<lambda>(req_low, req_high). Inr (req_low \<le> highAddr l \<and> req_high \<ge> lowAddr l))"

definition trackLoadLocked :: "cache_blk \<Rightarrow> 's packet \<Rightarrow> cache_blk res" where
  "trackLoadLocked b p =
     bindE (assertE (isLLSC (pkt_cmd p))) (\<lambda>_.
     bindE (new_Lock (pkt_req p)) (\<lambda>l. Inr (b\<lparr>lockList := l # lockList b\<rparr>)))"

fun erase_overlapping :: "request \<Rightarrow> lock list \<Rightarrow> (lock list) res" where
  "erase_overlapping r [] = Inr []"
| "erase_overlapping r (l # ls) =
     bindE (overlapping l r) (\<lambda>hit.
     bindE (erase_overlapping r ls) (\<lambda>ls'. Inr (if hit then ls' else l # ls')))"

definition clearLoadLocks :: "cache_blk \<Rightarrow> request option \<Rightarrow> cache_blk res" where
  "clearLoadLocks b req =
     (case req of
        None \<Rightarrow> Inr (b\<lparr>lockList := []\<rparr>)
      | Some r \<Rightarrow> bindE (erase_overlapping r (lockList b)) (\<lambda>ls. Inr (b\<lparr>lockList := ls\<rparr>)))"

fun find_match :: "request \<Rightarrow> lock list \<Rightarrow> bool res" where
  "find_match r [] = Inr False"
| "find_match r (l # ls) = bindE (matchesContext l r) (\<lambda>m. if m then Inr True else find_match r ls)"

text \<open>A store conditional also writes its outcome into the request, so the packet is returned.\<close>

definition checkWrite :: "cache_blk \<Rightarrow> 's packet \<Rightarrow> (bool \<times> cache_blk \<times> 's packet) res" where
  "checkWrite b p =
     (if isLLSC (pkt_cmd p) then
        bindE (find_match (pkt_req p) (lockList b)) (\<lambda>success.
        (let p = p\<lparr>pkt_req := setExtraData (pkt_req p) (if success then 1 else 0)\<rparr> in
         bindE (clearLoadLocks b (Some (pkt_req p))) (\<lambda>b. Inr (success, b, p))))
      else bindE (clearLoadLocks b (Some (pkt_req p))) (\<lambda>b. Inr (True, b, p)))"

definition blk_invalidate :: "cache_blk \<Rightarrow> cache_blk" where
  "blk_invalidate b = b\<lparr>blk_status := 0, isTouched := False, lockList := []\<rparr>"

section \<open>Reservations\<close>

text \<open>A request that a core sends to a cache: its physical address, size and context are known.\<close>

definition req_ok :: "request \<Rightarrow> bool" where
  "req_ok r \<longleftrightarrow> isSet (privateFlags r) R_VALID_PADDR \<and> isSet (privateFlags r) R_VALID_SIZE \<and>
     isSet (privateFlags r) R_VALID_CONTEXT_ID"

definition lock_of :: "request \<Rightarrow> lock" where
  "lock_of r = \<lparr>lock_contextId = req_contextId r, lowAddr = req_paddr r,
     highAddr = req_paddr r + ucast (req_size r) - 1\<rparr>"

definition lock_covers :: "lock \<Rightarrow> request \<Rightarrow> bool" where
  "lock_covers l r \<longleftrightarrow> lock_contextId l = req_contextId r \<and> req_paddr r \<ge> lowAddr l \<and>
     req_paddr r + ucast (req_size r) - 1 \<le> highAddr l"

definition lock_hit :: "lock \<Rightarrow> request \<Rightarrow> bool" where
  "lock_hit l r \<longleftrightarrow> req_paddr r \<le> highAddr l \<and> req_paddr r + ucast (req_size r) - 1 \<ge> lowAddr l"

lemma req_ok_range: "req_ok r \<Longrightarrow> req_range r = Inr (req_paddr r, req_paddr r + ucast (req_size r) - 1)"
  by (simp add: req_ok_def req_range_def getPaddr_def req_getSize_def)

lemma req_ok_contextId: "req_ok r \<Longrightarrow> contextId r = Inr (req_contextId r)"
  by (simp add: req_ok_def contextId_def)

lemma req_ok_lock: "req_ok r \<Longrightarrow> new_Lock r = Inr (lock_of r)"
  by (simp add: req_ok_def new_Lock_def lock_of_def getPaddr_def req_getSize_def contextId_def)

lemma find_match_eq: "req_ok r \<Longrightarrow> find_match r ls = Inr (\<exists>l \<in> set ls. lock_covers l r)"
  by (induction ls) (auto simp: matchesContext_def req_ok_range req_ok_contextId lock_covers_def)

lemma erase_overlapping_eq: "req_ok r \<Longrightarrow> erase_overlapping r ls = Inr (filter (\<lambda>l. \<not> lock_hit l r) ls)"
  by (induction ls) (auto simp: overlapping_def req_ok_range lock_hit_def)

definition sc_ok :: "cache_blk \<Rightarrow> 's packet \<Rightarrow> bool" where
  "sc_ok b p \<longleftrightarrow> (\<exists>l \<in> set (lockList b). lock_covers l (pkt_req p))"

lemma checkWrite_eq:
  assumes "req_ok (pkt_req p)"
  shows "checkWrite b p =
     Inr (isLLSC (pkt_cmd p) \<longrightarrow> sc_ok b p,
          b\<lparr>lockList := filter (\<lambda>l. \<not> lock_hit l (pkt_req p)) (lockList b)\<rparr>,
          if isLLSC (pkt_cmd p)
          then p\<lparr>pkt_req := setExtraData (pkt_req p) (if sc_ok b p then 1 else 0)\<rparr> else p)"
proof -
  have x: "req_ok (setExtraData (pkt_req p) v)" for v
    using assms by (simp add: req_ok_def setExtraData_def)
  have y: "lock_hit l (setExtraData (pkt_req p) v) = lock_hit l (pkt_req p)" for l v
    by (simp add: lock_hit_def setExtraData_def)
  show ?thesis
    using assms by (simp add: checkWrite_def clearLoadLocks_def Let_def find_match_eq sc_ok_def
        erase_overlapping_eq [OF x] erase_overlapping_eq y)
qed

datatype 's blk_event = Load_Locked "'s packet" | Store "'s packet"

fun event_packet :: "'s blk_event \<Rightarrow> 's packet" where
  "event_packet (Load_Locked p) = p"
| "event_packet (Store p) = p"

fun event_ok :: "'s blk_event \<Rightarrow> bool" where
  "event_ok (Load_Locked p) \<longleftrightarrow> req_ok (pkt_req p) \<and> isLLSC (pkt_cmd p)"
| "event_ok (Store p) \<longleftrightarrow> req_ok (pkt_req p)"

fun blk_run :: "cache_blk \<Rightarrow> 's blk_event list \<Rightarrow> cache_blk res" where
  "blk_run b [] = Inr b"
| "blk_run b (Load_Locked p # es) = bindE (trackLoadLocked b p) (\<lambda>b'. blk_run b' es)"
| "blk_run b (Store p # es) = bindE (checkWrite b p) (\<lambda>(_, b', _). blk_run b' es)"

fun surviving :: "lock list \<Rightarrow> 's blk_event list \<Rightarrow> lock list" where
  "surviving ls [] = ls"
| "surviving ls (Load_Locked p # es) = surviving (lock_of (pkt_req p) # ls) es"
| "surviving ls (Store p # es) = surviving (filter (\<lambda>l. \<not> lock_hit l (pkt_req p)) ls) es"

lemma blk_run_locks:
  "list_all event_ok es \<Longrightarrow> blk_run b es = Inr (b\<lparr>lockList := surviving (lockList b) es\<rparr>)"
proof (induction b es rule: blk_run.induct)
  case (3 b p es)
  then show ?case by (simp add: checkWrite_eq)
qed (simp_all add: trackLoadLocked_def req_ok_lock)

lemma surviving_iff:
  "l \<in> set (surviving ls es) \<longleftrightarrow>
     (l \<in> set ls \<and> (\<forall>p. Store p \<in> set es \<longrightarrow> \<not> lock_hit l (pkt_req p))) \<or>
     (\<exists>xs q ys. es = xs @ Load_Locked q # ys \<and> l = lock_of (pkt_req q) \<and>
        (\<forall>p. Store p \<in> set ys \<longrightarrow> \<not> lock_hit l (pkt_req p)))"
proof (induction ls es rule: surviving.induct)
  case (1 ls)
  then show ?case by simp
next
  case (2 ls p es)
  show ?case unfolding surviving.simps 2 by (auto simp: Cons_eq_append_conv)
next
  case (3 ls p es)
  show ?case unfolding surviving.simps 3 by (auto simp: Cons_eq_append_conv)
qed

section \<open>Properties\<close>


abbreviation demo_req :: "addr \<Rightarrow> 32 word \<Rightarrow> 32 word \<Rightarrow> request" where
  "demo_req a n c \<equiv> setThreadContext (new_Request_phys a n LLSC 0 0) c 0"


end
