(* ===== verification/Cache_Set.thy ===== *)
theory Cache_Set
  imports Cache_Blk
begin

text \<open>
  One set of a set-associative cache, \<open>src/gem5_src/mem/cache/tags/cacheset.hh\<close>: an array of block pointers in
  recency order, most recent first. A pointer is the index of the block in the tag store's block array.
\<close>

definition blk_matches :: "addr \<Rightarrow> bool \<Rightarrow> cache_blk \<Rightarrow> bool" where
  "blk_matches tag is_secure b \<longleftrightarrow> blk_tag b = tag \<and> blk_isValid b \<and> blk_isSecure b = is_secure"

text \<open>The loop returns the way it stopped at, the associativity when it found nothing.\<close>

fun findBlk_way :: "cache_blk list \<Rightarrow> nat list \<Rightarrow> addr \<Rightarrow> bool \<Rightarrow> nat \<Rightarrow> nat \<times> nat option" where
  "findBlk_way blks [] tag is_secure i = (i, None)"
| "findBlk_way blks (k # ks) tag is_secure i =
     (if blk_matches tag is_secure (blks ! k) then (i, Some k)
      else findBlk_way blks ks tag is_secure (Suc i))"

definition findBlk :: "cache_blk list \<Rightarrow> nat list \<Rightarrow> addr \<Rightarrow> bool \<Rightarrow> nat option" where
  "findBlk blks ways tag is_secure = snd (findBlk_way blks ways tag is_secure 0)"

text \<open>
  The do-while loop of \<open>moveToHead\<close>: write \<open>next\<close> at the current position and carry the pointer that was there,
  until the carried pointer is the moved block; running off the array fails the assertion.
\<close>

fun shift_in :: "'b \<Rightarrow> 'b \<Rightarrow> 'b list \<Rightarrow> ('b list) res" where
  "shift_in blk next [] = Inl Assert_Failed"
| "shift_in blk next (x # xs) =
     (if x = blk then Inr (next # xs)
      else bindE (shift_in blk x xs) (\<lambda>ys. Inr (next # ys)))"

definition moveToHead :: "'b list \<Rightarrow> 'b \<Rightarrow> ('b list) res" where
  "moveToHead ways blk =
     bindE (vec_get ways 0) (\<lambda>h. if h = blk then Inr ways else shift_in blk blk ways)"

text \<open>\<open>moveToTail\<close> is the same loop from the last position down.\<close>

definition moveToTail :: "'b list \<Rightarrow> 'b \<Rightarrow> ('b list) res" where
  "moveToTail ways blk =
     (if ways = [] then Inl Out_Of_Bounds
      else if last ways = blk then Inr ways
      else bindE (shift_in blk blk (rev ways)) (\<lambda>r. Inr (rev r)))"

section \<open>Lookup\<close>

lemma findBlk_way_spec:
  "findBlk_way blks ks tag sec i =
     (case find (\<lambda>k. blk_matches tag sec (blks ! k)) ks of
        None \<Rightarrow> (i + length ks, None)
      | Some k \<Rightarrow> (i + length (takeWhile (\<lambda>k. \<not> blk_matches tag sec (blks ! k)) ks), Some k))"
  by (induction blks ks tag sec i rule: findBlk_way.induct) (auto split: option.splits)

lemma findBlk_find: "findBlk blks ks tag sec = find (\<lambda>k. blk_matches tag sec (blks ! k)) ks"
  by (simp add: findBlk_def findBlk_way_spec split: option.splits)

lemma find_Some_mem: "find P xs = Some x \<Longrightarrow> x \<in> set xs \<and> P x"
  by (induction xs) (auto split: if_splits)

lemma find_unique:
  assumes "x \<in> set xs" "P x" "\<And>y. y \<in> set xs \<Longrightarrow> P y \<Longrightarrow> y = x"
  shows "find P xs = Some x"
proof (cases "find P xs")
  case None
  then show ?thesis using assms(1,2) by (auto simp: find_None_iff)
next
  case (Some y)
  then show ?thesis using assms(3) find_Some_mem [OF Some] by auto
qed

section \<open>Recency order\<close>

lemma shift_in_eq:
  "shift_in b n xs = (if b \<in> set xs then Inr (n # remove1 b xs) else Inl Assert_Failed)"
  by (induction b n xs rule: shift_in.induct) auto

lemma moveToHead_eq:
  "b \<in> set ways \<Longrightarrow> moveToHead ways b = Inr (b # remove1 b ways)"
  by (cases ways) (auto simp: moveToHead_def shift_in_eq vec_get_def)

lemma moveToHead_missing:
  "b \<notin> set ways \<Longrightarrow> moveToHead ways b = (if ways = [] then Inl Out_Of_Bounds else Inl Assert_Failed)"
  by (cases ways) (auto simp: moveToHead_def shift_in_eq vec_get_def)

lemma rev_remove1_rev: "distinct xs \<Longrightarrow> rev (remove1 b (rev xs)) = remove1 b xs"
  by (simp add: distinct_remove1_removeAll rev_filter removeAll_filter_not_eq)

lemma moveToTail_eq:
  assumes "b \<in> set ways" "distinct ways"
  shows "moveToTail ways b = Inr (remove1 b ways @ [b])"
proof (cases "last ways = b")
  case True
  have "ways \<noteq> []" using assms(1) by auto
  then obtain xs where xs: "ways = xs @ [b]" using True by (metis append_butlast_last_id)
  then show ?thesis using assms(2) True \<open>ways \<noteq> []\<close> by (simp add: moveToTail_def remove1_append)
next
  case False
  then show ?thesis using assms by (auto simp: moveToTail_def shift_in_eq rev_remove1_rev)
qed

lemma set_move:
  assumes "b \<in> set ways" "distinct ways"
  shows "set (b # remove1 b ways) = set ways" "distinct (b # remove1 b ways)"
    "set (remove1 b ways @ [b]) = set ways" "distinct (remove1 b ways @ [b])"
    "length (b # remove1 b ways) = length ways" "length (remove1 b ways @ [b]) = length ways"
  using assms by (auto simp: length_remove1 dest: length_pos_if_in_set)

end
