(* ===== verification/Base_Set_Assoc.thy ===== *)
theory Base_Set_Assoc
  imports Cache_Set Int_Math
begin

text \<open>
  The set-associative tag store of \<open>src/gem5_src/mem/cache/tags/base_set_assoc.hh\<close> and \<open>base_set_assoc.cc\<close> (with
  the fields it inherits from \<open>base.hh\<close>): the address split into tag, set and offset, lookup, insertion,
  invalidation and the statistics these keep. The clock conversion \<open>ticksToCycles\<close> of the parent cache is an
  argument, as is the current tick; the number of masters of the system is a field.
\<close>

section \<open>State\<close>

record tags =
  ts_blkSize :: "32 word"
  ts_size :: "32 word"
  accessLatency :: "64 word"
  ts_assoc :: "32 word"
  numSets :: "32 word"
  sequentialAccess :: bool
  ts_sets :: "nat list list"
  ts_blks :: "cache_blk list"
  setShift :: nat
  tagShift :: nat
  setMask :: "32 word"
  blkMask :: "32 word"
  warmupBound :: "32 word"
  warmedUp :: bool
  numBlocks :: "32 word"
  maxMasters :: nat
  replacements :: nat
  tagsInUse :: int
  totalRefs :: int
  sampledRefs :: nat
  warmupCycle :: tick
  occupancies :: "int list"
  tagAccesses :: nat
  dataAccesses :: nat

record tags_params =
  p_size :: "64 word"
  p_block_size :: "32 word"
  p_assoc :: "32 word"
  p_hit_latency :: "64 word"
  p_sequential_access :: bool

definition fresh_blk :: "(nat \<Rightarrow> 8 word) \<Rightarrow> 32 word \<Rightarrow> nat \<Rightarrow> nat \<Rightarrow> cache_blk" where
  "fresh_blk garbage blkSize i j =
     (let b = blk_invalidate (new_CacheBlk\<lparr>blk_data := map garbage [0..<unat blkSize]\<rparr>)
      in b\<lparr>blk_tag := of_nat j, whenReady := 0, isTouched := False, blk_size := blkSize, blk_set := of_nat i\<rparr>)"

text \<open>
  The number of sets is computed in the initialiser list, before the checks: with associativity zero it divides by
  zero. The block array has \<open>numSets * assoc\<close> elements in 32-bit arithmetic and is filled for every set and way.
\<close>

definition new_BaseSetAssoc :: "(nat \<Rightarrow> 8 word) \<Rightarrow> nat \<Rightarrow> tags_params \<Rightarrow> tags res" where
  "new_BaseSetAssoc garbage masters p =
     (let blkSize = p_block_size p; assoc = p_assoc p;
          divisor = scast (p_block_size p * p_assoc p) :: 64 word in
      if divisor = 0 then Inl Div_By_Zero else
      (let nsets = ucast (p_size p div divisor) :: 32 word in
       if blkSize < 4 \<or> \<not> isPowerOf2 blkSize then Inl Fatal_Error
       else if nsets \<le> 0 \<or> \<not> isPowerOf2 nsets then Inl Fatal_Error
       else if assoc \<le> 0 then Inl Fatal_Error
       else bindE (floorLog2 blkSize) (\<lambda>ss. bindE (floorLog2 nsets) (\<lambda>ls.
         if unat nsets * unat assoc \<ge> 2 ^ 32 then Inl Out_Of_Bounds
         else Inr \<lparr>ts_blkSize = blkSize, ts_size = ucast (p_size p), accessLatency = p_hit_latency p,
           ts_assoc = assoc, numSets = nsets, sequentialAccess = p_sequential_access p,
           ts_sets = map (\<lambda>i. [i * unat assoc ..< Suc i * unat assoc]) [0..<unat nsets],
           ts_blks = concat (map (\<lambda>i. map (fresh_blk garbage blkSize i) [0..<unat assoc]) [0..<unat nsets]),
           setShift = ss, tagShift = ss + ls, setMask = nsets - 1, blkMask = blkSize - 1,
           warmupBound = nsets * assoc, warmedUp = False, numBlocks = nsets * assoc,
           maxMasters = masters, replacements = 0, tagsInUse = 0, totalRefs = 0, sampledRefs = 0,
           warmupCycle = 0, occupancies = replicate masters 0, tagAccesses = 0, dataAccesses = 0\<rparr>))))"

section \<open>Addresses\<close>

definition extractTag :: "tags \<Rightarrow> addr \<Rightarrow> addr" where
  "extractTag t a = drop_bit (tagShift t) a"

definition extractSet :: "tags \<Rightarrow> addr \<Rightarrow> 32 word" where
  "extractSet t a = ucast (drop_bit (setShift t) a AND ucast (setMask t))"

definition blkAlign :: "tags \<Rightarrow> addr \<Rightarrow> addr" where
  "blkAlign t a = a AND NOT (ucast (blkMask t))"

definition regenerateBlkAddr :: "tags \<Rightarrow> addr \<Rightarrow> 32 word \<Rightarrow> addr" where
  "regenerateBlkAddr t tag s = push_bit (tagShift t) tag OR push_bit (setShift t) (ucast s)"

definition extractBlkOffset :: "tags \<Rightarrow> addr \<Rightarrow> 32 word" where
  "extractBlkOffset t a = ucast (a AND ucast (ts_blkSize t - 1))"

section \<open>Operations\<close>

abbreviation the_set :: "tags \<Rightarrow> addr \<Rightarrow> nat list" where
  "the_set t a \<equiv> ts_sets t ! unat (extractSet t a)"

abbreviation upd_blk :: "tags \<Rightarrow> nat \<Rightarrow> (cache_blk \<Rightarrow> cache_blk) \<Rightarrow> tags" where
  "upd_blk t k f \<equiv> t\<lparr>ts_blks := (ts_blks t)[k := f (ts_blks t ! k)]\<rparr>"

definition findBlock :: "tags \<Rightarrow> addr \<Rightarrow> bool \<Rightarrow> nat option" where
  "findBlock t a is_secure = findBlk (ts_blks t) (the_set t a) (extractTag t a) is_secure"

definition base_accessBlock ::
    "(tick \<Rightarrow> 64 word) \<Rightarrow> tick \<Rightarrow> tags \<Rightarrow> addr \<Rightarrow> bool \<Rightarrow> nat option \<times> (64 word) \<times> tags" where
  "base_accessBlock ticksToCycles now t a is_secure =
     (let blk = findBlk (ts_blks t) (the_set t a) (extractTag t a) is_secure;
          lat = accessLatency t;
          t = t\<lparr>tagAccesses := tagAccesses t + unat (ts_assoc t)\<rparr>;
          t = (if sequentialAccess t then
                 (if blk \<noteq> None then t\<lparr>dataAccesses := dataAccesses t + 1\<rparr> else t)
               else t\<lparr>dataAccesses := dataAccesses t + unat (ts_assoc t)\<rparr>)
      in case blk of
           None \<Rightarrow> (None, lat, t)
         | Some k \<Rightarrow>
             (let b = ts_blks t ! k;
                  lat = (if whenReady b > now \<and> ticksToCycles (whenReady b - now) > accessLatency t
                         then ticksToCycles (whenReady b - now) else lat)
              in (Some k, lat, upd_blk t k (\<lambda>b. b\<lparr>refCount := refCount b + 1\<rparr>))))"

fun first_invalid :: "cache_blk list \<Rightarrow> nat list \<Rightarrow> nat option" where
  "first_invalid blks [] = None"
| "first_invalid blks [k] = Some k"
| "first_invalid blks (k # k' # ks) =
     (if \<not> blk_isValid (blks ! k) then Some k else first_invalid blks (k' # ks))"

definition base_findVictim :: "tags \<Rightarrow> addr \<Rightarrow> nat option" where
  "base_findVictim t a = first_invalid (ts_blks t) (the_set t a)"

definition occ_add :: "tags \<Rightarrow> 32 word \<Rightarrow> int \<Rightarrow> tags res" where
  "occ_add t m d =
     bindE (assertE (unat m < maxMasters t)) (\<lambda>_.
     bindE (vec_get (occupancies t) (unat m)) (\<lambda>n.
     Inr (t\<lparr>occupancies := (occupancies t)[unat m := n + d]\<rparr>)))"

definition base_invalidate :: "tick \<Rightarrow> tags \<Rightarrow> nat \<Rightarrow> tags res" where
  "base_invalidate now t k =
     bindE (assertE (blk_isValid (ts_blks t ! k))) (\<lambda>_.
     (let t = t\<lparr>tagsInUse := tagsInUse t - 1\<rparr> in
      bindE (occ_add t (srcMasterId (ts_blks t ! k)) (- 1)) (\<lambda>t.
      Inr (upd_blk t k (\<lambda>b. b\<lparr>srcMasterId := invldMasterId, blk_task_id := task_Unknown, tickInserted := now\<rparr>)))))"

definition touch_blk :: "tick \<Rightarrow> tags \<Rightarrow> nat \<Rightarrow> tags" where
  "touch_blk now t k =
     (if \<not> isTouched (ts_blks t ! k) then
        (let t = t\<lparr>tagsInUse := tagsInUse t + 1\<rparr>;
             t = upd_blk t k (\<lambda>b. b\<lparr>isTouched := True\<rparr>)
         in if \<not> warmedUp t \<and> tagsInUse t \<ge> sint (warmupBound t)
            then t\<lparr>warmedUp := True, warmupCycle := now\<rparr> else t)
      else t)"

definition retire_blk :: "tags \<Rightarrow> nat \<Rightarrow> tags res" where
  "retire_blk t k =
     (if blk_isValid (ts_blks t ! k) then
        (let t = t\<lparr>replacements := replacements t + 1,
                   totalRefs := totalRefs t + sint (refCount (ts_blks t ! k)),
                   sampledRefs := sampledRefs t + 1\<rparr>;
             t = upd_blk t k (\<lambda>b. b\<lparr>refCount := 0\<rparr>) in
         bindE (occ_add t (srcMasterId (ts_blks t ! k)) (- 1)) (\<lambda>t. Inr (upd_blk t k blk_invalidate)))
      else Inr t)"

definition base_insertBlock :: "tick \<Rightarrow> tags \<Rightarrow> 's packet \<Rightarrow> nat \<Rightarrow> tags res" where
  "base_insertBlock now t pkt k =
     bindE (getAddr pkt) (\<lambda>a.
     (let master_id = ucast (req_masterId (pkt_req pkt)) :: 32 word;
          task_id = req_taskId (pkt_req pkt) in
      bindE (retire_blk (touch_blk now t k) k) (\<lambda>t.
      (let t = upd_blk t k (\<lambda>b. b\<lparr>isTouched := True, blk_tag := extractTag t a\<rparr>) in
       bindE (occ_add t master_id 1) (\<lambda>t.
       Inr ((upd_blk t k (\<lambda>b. b\<lparr>srcMasterId := master_id, blk_task_id := task_id, tickInserted := now\<rparr>))
            \<lparr>tagAccesses := tagAccesses t + 1, dataAccesses := dataAccesses t + 1\<rparr>))))))"

definition clearLocks :: "tags \<Rightarrow> tags" where
  "clearLocks t = t\<lparr>ts_blks := map (\<lambda>b. b\<lparr>lockList := []\<rparr>) (ts_blks t)\<rparr>"

definition cleanupRefs :: "tags \<Rightarrow> tags" where
  "cleanupRefs t =
     fold (\<lambda>b t. if blk_isValid b
        then t\<lparr>totalRefs := totalRefs t + sint (refCount b), sampledRefs := sampledRefs t + 1\<rparr> else t)
       (ts_blks t) t"

text \<open>A visitor returns whether to go on, and the block it leaves behind.\<close>

fun forEachBlk :: "(cache_blk \<Rightarrow> bool \<times> cache_blk) \<Rightarrow> cache_blk list \<Rightarrow> cache_blk list" where
  "forEachBlk visitor [] = []"
| "forEachBlk visitor (b # bs) =
     (case visitor b of (go_on, b') \<Rightarrow> if go_on then b' # forEachBlk visitor bs else b' # bs)"

text \<open>
  \<open>computeStats\<close> counts the valid blocks per task and per age class; \<open>us\<close> and \<open>ms\<close> are the simulator's ticks
  per micro- and millisecond.
\<close>

definition age_index :: "tick \<Rightarrow> tick \<Rightarrow> tick \<Rightarrow> nat" where
  "age_index us ms age =
     (if age div us < 10 then 0 else if age div us < 100 then 1
      else if age div ms < 1 then 2 else if age div ms < 10 then 3 else 4)"

fun count_blocks ::
    "tick \<Rightarrow> tick \<Rightarrow> tick \<Rightarrow> cache_blk list \<Rightarrow> nat list \<times> nat list list \<Rightarrow> (nat list \<times> nat list list) res" where
  "count_blocks us ms now [] st = Inr st"
| "count_blocks us ms now (b # bs) (occ, age) =
     (if blk_isValid b then
        bindE (assertE (blk_task_id b < 1025)) (\<lambda>_.
        bindE (assertE (tickInserted b \<le> now)) (\<lambda>_.
        (let i = unat (blk_task_id b); j = age_index us ms (now - tickInserted b) in
         count_blocks us ms now bs (occ[i := occ ! i + 1], age[i := (age ! i)[j := age ! i ! j + 1]]))))
      else count_blocks us ms now bs (occ, age))"

definition computeStats :: "tick \<Rightarrow> tick \<Rightarrow> tick \<Rightarrow> tags \<Rightarrow> (nat list \<times> nat list list) res" where
  "computeStats us ms now t =
     count_blocks us ms now (ts_blks t) (replicate 1025 0, replicate 1025 (replicate 5 0))"

section \<open>Geometry\<close>

definition tags_geom :: "tags \<Rightarrow> bool" where
  "tags_geom t \<longleftrightarrow> setShift t < 32 \<and> setShift t \<le> tagShift t \<and> tagShift t - setShift t < 32 \<and>
     ts_blkSize t = 2 ^ setShift t \<and> numSets t = 2 ^ (tagShift t - setShift t) \<and>
     setMask t = numSets t - 1 \<and> blkMask t = ts_blkSize t - 1"

lemma ucast_mask: "k \<le> 32 \<Longrightarrow> (ucast (2 ^ k - 1 :: 32 word) :: 64 word) = mask k"
  unfolding mask_eq_exp_minus_1 [symmetric] by (rule bit_word_eqI) (auto simp: bit_simps)

lemma extractSet_eq:
  assumes "tags_geom t"
  shows "extractSet t a = ucast (take_bit (tagShift t - setShift t) (drop_bit (setShift t) a))"
  using assms by (simp add: extractSet_def tags_geom_def ucast_mask take_bit_eq_mask)

lemma unat_extractSet:
  assumes "tags_geom t"
  shows "unat (extractSet t a) = unat a div 2 ^ setShift t mod unat (numSets t)"
proof -
  let ?k = "tagShift t - setShift t"
  let ?x = "take_bit ?k (drop_bit (setShift t) a)"
  have k: "?k < 32" "numSets t = 2 ^ ?k" using assms by (auto simp: tags_geom_def)
  have x: "unat ?x = unat a div 2 ^ setShift t mod 2 ^ ?k"
    by (simp only: unat_take unat_shiftr)
  also have "\<dots> < 2 ^ ?k" by simp
  also have "\<dots> < 2 ^ LENGTH(32)" using k(1) by (intro power_strict_increasing) simp_all
  finally have "unat (ucast ?x :: 32 word) = unat ?x" by (rule unat_ucast_small)
  then show ?thesis unfolding extractSet_eq [OF assms] using x k by (simp add: unat_power2)
qed

lemma extractSet_bound: "tags_geom t \<Longrightarrow> unat (extractSet t a) < unat (numSets t)"
  by (simp add: unat_extractSet tags_geom_def unat_power2)

lemma blkAlign_eq: "tags_geom t \<Longrightarrow> blkAlign t a = push_bit (setShift t) (drop_bit (setShift t) a)"
  by (simp add: blkAlign_def tags_geom_def ucast_mask and_not_mask)

lemma regenerate_split:
  fixes a :: "64 word"
  shows "push_bit (s + k) (drop_bit (s + k) a) OR push_bit s (take_bit k (drop_bit s a)) = push_bit s (drop_bit s a)"
proof (rule bit_word_eqI)
  fix n assume "n < LENGTH(64)"
  then show "bit (push_bit (s + k) (drop_bit (s + k) a) OR push_bit s (take_bit k (drop_bit s a))) n =
      bit (push_bit s (drop_bit s a)) n"
    by (cases "s + k \<le> n") (auto simp: bit_simps)
qed

lemma ucast_ucast_take: "k \<le> 32 \<Longrightarrow> (ucast (ucast (take_bit k x) :: 32 word) :: 64 word) = take_bit k (x :: 64 word)"
  by (rule bit_word_eqI) (auto simp: bit_simps)

lemma regenerate_roundtrip:
  assumes "tags_geom t"
  shows "regenerateBlkAddr t (extractTag t a) (extractSet t a) = blkAlign t a"
proof -
  let ?k = "tagShift t - setShift t"
  have k: "tagShift t = setShift t + ?k" "?k \<le> 32" using assms by (auto simp: tags_geom_def)
  have "regenerateBlkAddr t (extractTag t a) (extractSet t a) =
      push_bit (setShift t + ?k) (drop_bit (setShift t + ?k) a) OR
      push_bit (setShift t) (take_bit ?k (drop_bit (setShift t) a))"
    using k by (simp only: regenerateBlkAddr_def extractTag_def extractSet_eq [OF assms] ucast_ucast_take)
  then show ?thesis by (simp only: regenerate_split blkAlign_eq [OF assms])
qed

lemma blkAlign_idem:
  assumes "tags_geom t"
  shows "extractTag t (blkAlign t a) = extractTag t a" "extractSet t (blkAlign t a) = extractSet t a"
proof -
  have d: "drop_bit s (push_bit s (drop_bit s a)) = drop_bit s a" for s
    by (rule bit_word_eqI) (auto simp: bit_simps dest: bit_imp_le_length)
  show "extractSet t (blkAlign t a) = extractSet t a"
    by (simp only: extractSet_def blkAlign_eq [OF assms] d)
  have "setShift t \<le> tagShift t" using assms by (simp add: tags_geom_def)
  then show "extractTag t (blkAlign t a) = extractTag t a"
    unfolding extractTag_def blkAlign_eq [OF assms] by (intro bit_word_eqI) (auto simp: bit_simps dest: bit_imp_le_length)
qed

lemma same_block_iff:
  assumes "tags_geom t"
  shows "extractTag t a = extractTag t b \<and> extractSet t a = extractSet t b \<longleftrightarrow> blkAlign t a = blkAlign t b"
  using regenerate_roundtrip [OF assms] blkAlign_idem [OF assms] by metis

section \<open>Invariant\<close>

definition ways_of :: "nat \<Rightarrow> nat \<Rightarrow> nat set" where
  "ways_of assoc i = {i * assoc ..< Suc i * assoc}"

definition tags_struct :: "tags \<Rightarrow> bool" where
  "tags_struct t \<longleftrightarrow> tags_geom t \<and> 0 < unat (ts_assoc t) \<and>
     length (ts_sets t) = unat (numSets t) \<and> length (ts_blks t) = unat (numSets t) * unat (ts_assoc t) \<and>
     (\<forall>i < unat (numSets t). distinct (ts_sets t ! i) \<and> set (ts_sets t ! i) = ways_of (unat (ts_assoc t)) i) \<and>
     (\<forall>k < length (ts_blks t). unat (blk_set (ts_blks t ! k)) = k div unat (ts_assoc t))"

text \<open>No two valid blocks of a set carry the same tag in the same security domain.\<close>

definition tags_unique :: "tags \<Rightarrow> bool" where
  "tags_unique t \<longleftrightarrow> (\<forall>i < length (ts_sets t). \<forall>j \<in> set (ts_sets t ! i). \<forall>k \<in> set (ts_sets t ! i).
     blk_matches (blk_tag (ts_blks t ! k)) (blk_isSecure (ts_blks t ! k)) (ts_blks t ! j) \<longrightarrow>
     blk_isValid (ts_blks t ! k) \<longrightarrow> j = k)"

definition touched_count :: "cache_blk list \<Rightarrow> nat" where
  "touched_count bs = length (filter isTouched bs)"

definition owned_count :: "nat \<Rightarrow> cache_blk list \<Rightarrow> nat" where
  "owned_count m bs = length (filter (\<lambda>b. blk_isValid b \<and> unat (srcMasterId b) = m) bs)"

text \<open>The statistics count what the blocks say, and an invalid block has no status bits.\<close>

definition blk_accounted :: "nat \<Rightarrow> cache_blk \<Rightarrow> bool" where
  "blk_accounted masters b \<longleftrightarrow>
     (if blk_isValid b then isTouched b \<and> unat (srcMasterId b) < masters
      else \<not> isTouched b \<and> blk_status b = 0)"

definition tags_account :: "tags \<Rightarrow> bool" where
  "tags_account t \<longleftrightarrow> tagsInUse t = int (touched_count (ts_blks t)) \<and>
     length (occupancies t) = maxMasters t \<and>
     (\<forall>m < maxMasters t. occupancies t ! m = int (owned_count m (ts_blks t))) \<and>
     list_all (blk_accounted (maxMasters t)) (ts_blks t)"

definition tags_inv :: "tags \<Rightarrow> bool" where
  "tags_inv t \<longleftrightarrow> tags_struct t \<and> tags_unique t \<and> tags_account t"

lemma the_set_facts:
  assumes "tags_struct t"
  shows "unat (extractSet t a) < length (ts_sets t)" "distinct (the_set t a)"
    "set (the_set t a) = ways_of (unat (ts_assoc t)) (unat (extractSet t a))"
  using assms extractSet_bound [of t a] by (auto simp: tags_struct_def)

lemma ways_of_bound: "k \<in> ways_of n i \<Longrightarrow> i < m \<Longrightarrow> k < m * n"
proof -
  assume a: "k \<in> ways_of n i" and "i < m"
  then have "Suc i * n \<le> m * n" by (intro mult_le_mono1) simp
  then show ?thesis using a unfolding ways_of_def by simp
qed

lemma ways_of_div: "k \<in> ways_of n i \<Longrightarrow> k div n = i"
  by (auto simp: ways_of_def mult.commute intro!: div_nat_eqI)

lemma the_set_bound:
  assumes "tags_struct t" "k \<in> set (the_set t a)"
  shows "k < length (ts_blks t)"
  using assms the_set_facts [OF assms(1), of a] extractSet_bound [of t a]
  by (auto simp: tags_struct_def intro: ways_of_bound)

lemma the_set_index:
  assumes "tags_struct t" "k \<in> set (the_set t a)"
  shows "unat (blk_set (ts_blks t ! k)) = unat (extractSet t a)"
  using assms the_set_bound [OF assms] the_set_facts(3) [OF assms(1), of a] ways_of_div
  by (auto simp: tags_struct_def)

lemma findBlock_Some_iff:
  assumes "tags_struct t" "tags_unique t"
  shows "findBlock t a sec = Some k \<longleftrightarrow>
     k \<in> set (the_set t a) \<and> blk_matches (extractTag t a) sec (ts_blks t ! k)"
proof
  assume "findBlock t a sec = Some k"
  then show "k \<in> set (the_set t a) \<and> blk_matches (extractTag t a) sec (ts_blks t ! k)"
    unfolding findBlock_def findBlk_find by (rule find_Some_mem)
next
  assume k: "k \<in> set (the_set t a) \<and> blk_matches (extractTag t a) sec (ts_blks t ! k)"
  have "j = k" if "j \<in> set (the_set t a)" "blk_matches (extractTag t a) sec (ts_blks t ! j)" for j
    using assms(2) the_set_facts(1) [OF assms(1), of a] k that
    unfolding tags_unique_def by (auto simp: blk_matches_def)
  then show "findBlock t a sec = Some k"
    unfolding findBlock_def findBlk_find using k by (intro find_unique) auto
qed

lemma findBlock_None_iff:
  "findBlock t a sec = None \<longleftrightarrow> (\<forall>k \<in> set (the_set t a). \<not> blk_matches (extractTag t a) sec (ts_blks t ! k))"
  by (auto simp: findBlock_def findBlk_find find_None_iff)

lemma filter_update_count:
  "k < length xs \<Longrightarrow> int (length (filter P (xs[k := x]))) =
     int (length (filter P xs)) + of_bool (P x) - of_bool (P (xs ! k))"
proof (induction xs arbitrary: k)
  case (Cons y ys)
  then show ?case by (cases k) auto
qed simp

lemma list_all_update: "list_all P xs \<Longrightarrow> P x \<Longrightarrow> list_all P (xs[k := x])"
  by (auto simp: list_all_iff dest: set_update_subset_insert [THEN subsetD])

section \<open>Insertion\<close>

text \<open>What the caller of \<open>insertBlock\<close> does next: it sets the status of the block it inserted.\<close>

definition set_status :: "tags \<Rightarrow> nat \<Rightarrow> 32 word \<Rightarrow> tags" where
  "set_status t k st = upd_blk t k (\<lambda>b. b\<lparr>blk_status := blk_status b OR st\<rparr>)"

definition inserted_blk :: "tick \<Rightarrow> tags \<Rightarrow> 's packet \<Rightarrow> cache_blk \<Rightarrow> cache_blk" where
  "inserted_blk now t pkt b =
     b\<lparr>refCount := if blk_isValid b then 0 else refCount b,
       blk_status := if blk_isValid b then 0 else blk_status b,
       lockList := if blk_isValid b then [] else lockList b,
       isTouched := True, blk_tag := extractTag t (pkt_addr pkt),
       srcMasterId := ucast (req_masterId (pkt_req pkt)), blk_task_id := req_taskId (pkt_req pkt),
       tickInserted := now\<rparr>"

definition same_frame :: "tags \<Rightarrow> tags \<Rightarrow> bool" where
  "same_frame t t' \<longleftrightarrow> ts_sets t' = ts_sets t \<and> ts_assoc t' = ts_assoc t \<and> numSets t' = numSets t \<and>
     setShift t' = setShift t \<and> tagShift t' = tagShift t \<and> setMask t' = setMask t \<and>
     blkMask t' = blkMask t \<and> ts_blkSize t' = ts_blkSize t \<and> maxMasters t' = maxMasters t"

lemma base_insertBlock_valid:
  assumes "tags_account t" "k < length (ts_blks t)" "isSet (pkt_flags pkt) VALID_ADDR"
    and "unat (req_masterId (pkt_req pkt)) < maxMasters t" "blk_isValid (ts_blks t ! k)"
  shows "\<exists>t'. base_insertBlock now t pkt k = Inr t' \<and> same_frame t t' \<and>
     ts_blks t' = (ts_blks t)[k := inserted_blk now t pkt (ts_blks t ! k)] \<and> tagsInUse t' = tagsInUse t \<and>
     occupancies t' = (let m = unat (srcMasterId (ts_blks t ! k)); n = unat (req_masterId (pkt_req pkt));
        occ = (occupancies t)[m := occupancies t ! m - 1] in occ[n := occ ! n + 1])"
proof -
  let ?b = "ts_blks t ! k"
  have b: "isTouched ?b" "unat (srcMasterId ?b) < maxMasters t" "length (occupancies t) = maxMasters t"
    using assms by (auto simp: tags_account_def list_all_length blk_accounted_def)
  have m: "unat (ucast (req_masterId (pkt_req pkt)) :: 32 word) = unat (req_masterId (pkt_req pkt))"
    by (rule unat_ucast_up) simp
  show ?thesis
    using assms b
    by (simp add: base_insertBlock_def getAddr_def touch_blk_def retire_blk_def occ_add_def Let_def m
        inserted_blk_def same_frame_def blk_invalidate_def extractTag_def)
qed

lemma base_insertBlock_invalid:
  assumes "tags_account t" "k < length (ts_blks t)" "isSet (pkt_flags pkt) VALID_ADDR"
    and "unat (req_masterId (pkt_req pkt)) < maxMasters t" "\<not> blk_isValid (ts_blks t ! k)"
  shows "\<exists>t'. base_insertBlock now t pkt k = Inr t' \<and> same_frame t t' \<and>
     ts_blks t' = (ts_blks t)[k := inserted_blk now t pkt (ts_blks t ! k)] \<and> tagsInUse t' = tagsInUse t + 1 \<and>
     occupancies t' = (let n = unat (req_masterId (pkt_req pkt)) in
        (occupancies t)[n := occupancies t ! n + 1])"
proof -
  let ?b = "ts_blks t ! k"
  have b: "\<not> isTouched ?b" "length (occupancies t) = maxMasters t"
    using assms by (auto simp: tags_account_def list_all_length blk_accounted_def)
  have m: "unat (ucast (req_masterId (pkt_req pkt)) :: 32 word) = unat (req_masterId (pkt_req pkt))"
    by (rule unat_ucast_up) simp
  have v: "\<not> blk_isValid (?b\<lparr>isTouched := True\<rparr>)" using assms(5) by (simp add: blk_isValid_def)
  show ?thesis
    using assms b v
    by (cases "\<not> warmedUp t \<and> tagsInUse t + 1 \<ge> sint (warmupBound t)")
       (auto simp: base_insertBlock_def getAddr_def touch_blk_def retire_blk_def occ_add_def Let_def m
        inserted_blk_def same_frame_def extractTag_def)
qed

lemma status_or_valid: "isSet st BlkValid \<Longrightarrow> blk_isValid (b\<lparr>blk_status := 0 OR st\<rparr>)"
  by (simp add: blk_isValid_def isSet_def)

lemma insert_total:
  assumes "tags_account t" "k < length (ts_blks t)" "isSet (pkt_flags pkt) VALID_ADDR"
    and "unat (req_masterId (pkt_req pkt)) < maxMasters t"
  obtains t' where "base_insertBlock now t pkt k = Inr t'" "same_frame t t'"
    "ts_blks t' = (ts_blks t)[k := inserted_blk now t pkt (ts_blks t ! k)]"
  using base_insertBlock_valid [OF assms, of now] base_insertBlock_invalid [OF assms, of now] by blast

lemma occ_swap:
  assumes "i < length occ"
  shows "(let occ' = occ[m := occ ! m - 1] in occ'[n := occ' ! n + (1 :: int)]) ! i =
     occ ! i + of_bool (i = n) - of_bool (m = i)"
  using assms by (auto simp: nth_list_update Let_def)

lemma insert_counters:
  assumes acc: "tags_account t" and k: "k < length (ts_blks t)" and pk: "isSet (pkt_flags pkt) VALID_ADDR"
    and m: "unat (req_masterId (pkt_req pkt)) < maxMasters t" and ins: "base_insertBlock now t pkt k = Inr t'"
  shows "tagsInUse t' = tagsInUse t + of_bool (\<not> isTouched (ts_blks t ! k))"
    and "length (occupancies t') = maxMasters t"
    and "i < maxMasters t \<Longrightarrow> occupancies t' ! i =
       occupancies t ! i + of_bool (i = unat (req_masterId (pkt_req pkt)))
         - of_bool (blk_isValid (ts_blks t ! k) \<and> unat (srcMasterId (ts_blks t ! k)) = i)"
proof -
  let ?b = "ts_blks t ! k"
  have len: "length (occupancies t) = maxMasters t" using acc by (simp add: tags_account_def)
  have tv: "isTouched ?b = blk_isValid ?b" using acc k by (auto simp: tags_account_def list_all_length blk_accounted_def split: if_splits)
  show "tagsInUse t' = tagsInUse t + of_bool (\<not> isTouched ?b)"
    using base_insertBlock_valid [OF acc k pk m, of now] base_insertBlock_invalid [OF acc k pk m, of now] ins tv
    by (cases "blk_isValid ?b") auto
  show "length (occupancies t') = maxMasters t"
    using base_insertBlock_valid [OF acc k pk m, of now] base_insertBlock_invalid [OF acc k pk m, of now] ins len
    by (cases "blk_isValid ?b") (auto simp: Let_def)
  show "occupancies t' ! i = occupancies t ! i + of_bool (i = unat (req_masterId (pkt_req pkt)))
      - of_bool (blk_isValid ?b \<and> unat (srcMasterId ?b) = i)" if i: "i < maxMasters t"
  proof (cases "blk_isValid ?b")
    case True
    then show ?thesis using base_insertBlock_valid [OF acc k pk m True, of now] ins occ_swap [of i "occupancies t"] i len
      by (auto simp: Let_def)
  next
    case False
    then show ?thesis using base_insertBlock_invalid [OF acc k pk m False, of now] ins i len
      by (auto simp: Let_def nth_list_update)
  qed
qed

lemma inserted_status:
  "tags_account t \<Longrightarrow> k < length (ts_blks t) \<Longrightarrow> blk_status (inserted_blk now t pkt (ts_blks t ! k)) = 0"
  by (auto simp: tags_account_def list_all_length blk_accounted_def inserted_blk_def split: if_splits)

lemma insert_blks:
  assumes "tags_account t" "k < length (ts_blks t)" "isSet (pkt_flags pkt) VALID_ADDR"
    and "unat (req_masterId (pkt_req pkt)) < maxMasters t" "base_insertBlock now t pkt k = Inr t'"
  shows "same_frame t t'"
    "ts_blks (set_status t' k st) = (ts_blks t)[k := (inserted_blk now t pkt (ts_blks t ! k))\<lparr>blk_status := st\<rparr>]"
proof -
  obtain u where u: "base_insertBlock now t pkt k = Inr u" "same_frame t u"
    "ts_blks u = (ts_blks t)[k := inserted_blk now t pkt (ts_blks t ! k)]"
    using insert_total [OF assms(1-4), of now] by blast
  with assms(5) have "u = t'" by simp
  with u show "same_frame t t'" by simp
  show "ts_blks (set_status t' k st) = (ts_blks t)[k := (inserted_blk now t pkt (ts_blks t ! k))\<lparr>blk_status := st\<rparr>]"
    using u(3) \<open>u = t'\<close> assms(2) inserted_status [OF assms(1,2), of now pkt] by (simp add: set_status_def)
qed

lemma insert_account:
  assumes acc: "tags_account t" and k: "k < length (ts_blks t)" and pk: "isSet (pkt_flags pkt) VALID_ADDR"
    and m: "unat (req_masterId (pkt_req pkt)) < maxMasters t" and st: "isSet st BlkValid"
    and ins: "base_insertBlock now t pkt k = Inr t'"
  shows "tags_account (set_status t' k st)"
proof -
  let ?b = "ts_blks t ! k" and ?n = "unat (req_masterId (pkt_req pkt))"
  let ?b' = "(inserted_blk now t pkt ?b)\<lparr>blk_status := st\<rparr>"
  note bs = insert_blks(2) [OF acc k pk m ins, of st] and fr = insert_blks(1) [OF acc k pk m ins]
  note cnt = insert_counters [OF acc k pk m ins]
  have b': "blk_isValid ?b'" "isTouched ?b'" "unat (srcMasterId ?b') = ?n"
    using st by (simp_all add: blk_isValid_def isSet_def inserted_blk_def unat_ucast_up)
  have "int (owned_count i (ts_blks (set_status t' k st))) = occupancies t' ! i" if "i < maxMasters t" for i
  proof -
    have "int (owned_count i (ts_blks t)) = occupancies t ! i" using acc that by (simp add: tags_account_def)
    then show ?thesis unfolding cnt(3) [OF that] bs owned_count_def filter_update_count [OF k]
      using b' by (simp add: eq_commute)
  qed
  moreover have "int (touched_count (ts_blks (set_status t' k st))) = tagsInUse t'"
    unfolding cnt(1) bs touched_count_def filter_update_count [OF k]
    using acc b'(2) by (simp add: tags_account_def touched_count_def)
  moreover have "list_all (blk_accounted (maxMasters t)) (ts_blks (set_status t' k st))"
    unfolding bs using acc b' m by (intro list_all_update) (auto simp: tags_account_def blk_accounted_def)
  ultimately show ?thesis using cnt(2) fr
    by (simp add: tags_account_def set_status_def same_frame_def)
qed

section \<open>Lookup after a block changes\<close>

lemma same_frame_addr:
  assumes "same_frame t t'"
  shows "extractTag t' a = extractTag t a" "extractSet t' a = extractSet t a" "blkAlign t' a = blkAlign t a"
    "tags_geom t' = tags_geom t"
  using assms by (auto simp: same_frame_def extractTag_def extractSet_def blkAlign_def tags_geom_def)

lemma struct_update:
  assumes "tags_struct t" "same_frame t t'" "ts_blks t' = (ts_blks t)[k := b]"
    "k < length (ts_blks t)" "blk_set b = blk_set (ts_blks t ! k)"
  shows "tags_struct t'"
  using assms same_frame_addr(4) [OF assms(2)]
  by (auto simp: tags_struct_def same_frame_def nth_list_update)

lemma find_after_update:
  assumes "tags_struct t" "tags_unique t" "tags_struct t'" "tags_unique t'" "same_frame t t'"
    "ts_blks t' = (ts_blks t)[k := b]" "k < length (ts_blks t)"
  shows "findBlock t' a s =
     (if k \<in> set (the_set t a) \<and> blk_matches (extractTag t a) s b then Some k
      else if findBlock t a s = Some k then None else findBlock t a s)"
proof -
  have ws: "the_set t' a = the_set t a" "extractTag t' a = extractTag t a"
    using assms(5) same_frame_addr [OF assms(5)] by (auto simp: same_frame_def)
  have bl: "j \<in> set (the_set t a) \<Longrightarrow> ts_blks t' ! j = (if j = k then b else ts_blks t ! j)" for j
    using assms(6,7) the_set_bound [OF assms(1), of j a] by (auto simp: nth_list_update)
  have new: "findBlock t' a s = Some j \<longleftrightarrow> j \<in> set (the_set t a) \<and>
      blk_matches (extractTag t a) s (if j = k then b else ts_blks t ! j)" for j
    unfolding findBlock_Some_iff [OF assms(3,4)] ws using bl by auto
  note old = findBlock_Some_iff [OF assms(1,2), of a s]
  have "findBlock t' a s = Some j \<longleftrightarrow>
     (if k \<in> set (the_set t a) \<and> blk_matches (extractTag t a) s b then Some k
      else if findBlock t a s = Some k then None else findBlock t a s) = Some j" for j
    using new [of j] new [of k] old [of j] old [of k] by auto
  then show ?thesis by (metis not_Some_eq)
qed

lemma unique_update:
  assumes s: "tags_struct t" and u: "tags_unique t" and f: "same_frame t t'" and b: "ts_blks t' = (ts_blks t)[k := b]"
    and k: "k \<in> set (the_set t a)"
    and new: "blk_isValid b \<Longrightarrow> extractTag t a = blk_tag b \<and> findBlock t a (blk_isSecure b) = None"
  shows "tags_unique t'"
proof -
  let ?i = "unat (extractSet t a)"
  have kl: "k < length (ts_blks t)" by (rule the_set_bound [OF s k])
  have sets: "ts_sets t' = ts_sets t" using f by (simp add: same_frame_def)
  have own: "i = ?i" if "i < length (ts_sets t)" "k \<in> set (ts_sets t ! i)" for i
    using that s k the_set_facts(3) [OF s, of a] ways_of_div [of k "unat (ts_assoc t)" i]
      ways_of_div [of k "unat (ts_assoc t)" ?i] by (auto simp: tags_struct_def)
  have miss: "\<not> blk_matches (blk_tag b) (blk_isSecure b) (ts_blks t ! j)"
    if "blk_isValid b" "j \<in> set (the_set t a)" for j
    using new [OF that(1)] that(2) by (auto simp: findBlock_None_iff)
  have "j = l"
    if i: "i < length (ts_sets t)" and j: "j \<in> set (ts_sets t ! i)" and l: "l \<in> set (ts_sets t ! i)"
      and mt: "blk_matches (blk_tag (ts_blks t' ! l)) (blk_isSecure (ts_blks t' ! l)) (ts_blks t' ! j)"
      and v: "blk_isValid (ts_blks t' ! l)" for i j l
  proof (rule ccontr)
    assume ne: "j \<noteq> l"
    show False
    proof (cases "j = k \<or> l = k")
      case True
      then have set_i: "ts_sets t ! i = the_set t a" using own [OF i] j l by auto
      have nk: "ts_blks t' ! k = b" "\<And>x. x \<noteq> k \<Longrightarrow> ts_blks t' ! x = ts_blks t ! x"
        using b kl by simp_all
      show False
      proof (cases "l = k")
        case True
        then show False using mt v nk ne miss [of j] j set_i by simp
      next
        case False
        then have "j = k" using \<open>j = k \<or> l = k\<close> by simp
        then have "blk_isValid b" "blk_matches (blk_tag b) (blk_isSecure b) (ts_blks t ! l)"
          using mt v nk False by (auto simp: blk_matches_def)
        then show False using miss [of l] l set_i by simp
      qed
    next
      case False
      then have "ts_blks t' ! j = ts_blks t ! j" "ts_blks t' ! l = ts_blks t ! l"
        using b by auto
      with mt v u i j l ne show False unfolding tags_unique_def by auto
    qed
  qed
  then show ?thesis unfolding tags_unique_def sets by blast
qed

section \<open>Installing and evicting\<close>

lemma install_inv:
  assumes inv: "tags_inv t" and k: "k \<in> set (the_set t (pkt_addr pkt))" and pk: "isSet (pkt_flags pkt) VALID_ADDR"
    and m: "unat (req_masterId (pkt_req pkt)) < maxMasters t" and st: "isSet st BlkValid"
    and miss: "findBlock t (pkt_addr pkt) (isSet st BlkSecure) = None"
    and ins: "base_insertBlock now t pkt k = Inr t'"
  shows "tags_inv (set_status t' k st)" "same_frame t (set_status t' k st)"
    "findBlock (set_status t' k st) a s =
       (if blkAlign t a = blkAlign t (pkt_addr pkt) \<and> s = isSet st BlkSecure then Some k
        else if findBlock t a s = Some k then None else findBlock t a s)"
proof -
  let ?t' = "set_status t' k st" and ?p = "pkt_addr pkt"
  let ?b = "(inserted_blk now t pkt (ts_blks t ! k))\<lparr>blk_status := st\<rparr>"
  have s: "tags_struct t" and u: "tags_unique t" and acc: "tags_account t" using inv by (auto simp: tags_inv_def)
  have kl: "k < length (ts_blks t)" by (rule the_set_bound [OF s k])
  show fr: "same_frame t ?t'"
    using insert_blks(1) [OF acc kl pk m ins] by (simp add: set_status_def same_frame_def)
  note bl = insert_blks(2) [OF acc kl pk m ins, of st]
  have b: "blk_isValid ?b" "blk_isSecure ?b = isSet st BlkSecure" "blk_tag ?b = extractTag t ?p"
    "blk_set ?b = blk_set (ts_blks t ! k)"
    using st by (simp_all add: blk_isValid_def blk_isSecure_def isSet_def inserted_blk_def)
  have s': "tags_struct ?t'" by (rule struct_update [OF s fr bl kl b(4)])
  have u': "tags_unique ?t'" by (rule unique_update [OF s u fr bl k]) (use miss b in simp)
  show "tags_inv ?t'"
    using s' u' insert_account [OF acc kl pk m st ins] by (simp add: tags_inv_def)
  have g: "tags_geom t" using s by (simp add: tags_struct_def)
  have mem: "k \<in> set (the_set t a) \<longleftrightarrow> extractSet t a = extractSet t ?p"
  proof
    assume "k \<in> set (the_set t a)"
    then have "unat (extractSet t a) = unat (extractSet t ?p)"
      using the_set_index [OF s k] the_set_index [OF s, of k a] by simp
    then show "extractSet t a = extractSet t ?p" by (rule unsigned_word_eqI)
  qed (use k in simp)
  have "k \<in> set (the_set t a) \<and> blk_matches (extractTag t a) s ?b \<longleftrightarrow>
      blkAlign t a = blkAlign t ?p \<and> s = isSet st BlkSecure"
    unfolding mem blk_matches_def b same_block_iff [OF g, symmetric] using b(1) by metis
  then show "findBlock ?t' a s =
       (if blkAlign t a = blkAlign t ?p \<and> s = isSet st BlkSecure then Some k
        else if findBlock t a s = Some k then None else findBlock t a s)"
    using find_after_update [OF s u s' u' fr bl kl, of a s] by simp
qed

text \<open>The cache drops a block in two steps: the tag store forgets it, then its state is cleared.\<close>

definition drop_blk :: "tags \<Rightarrow> nat \<Rightarrow> tags" where
  "drop_blk t k = upd_blk t k blk_invalidate"

lemma base_invalidate_eq:
  assumes "tags_account t" "k < length (ts_blks t)" "blk_isValid (ts_blks t ! k)"
  shows "base_invalidate now t k = Inr (t\<lparr>tagsInUse := tagsInUse t - 1,
     occupancies := (occupancies t)[unat (srcMasterId (ts_blks t ! k)) :=
       occupancies t ! unat (srcMasterId (ts_blks t ! k)) - 1],
     ts_blks := (ts_blks t)[k := (ts_blks t ! k)\<lparr>srcMasterId := invldMasterId, blk_task_id := task_Unknown,
       tickInserted := now\<rparr>]\<rparr>)"
proof -
  have "unat (srcMasterId (ts_blks t ! k)) < maxMasters t" "length (occupancies t) = maxMasters t"
    using assms by (auto simp: tags_account_def list_all_length blk_accounted_def)
  then show ?thesis using assms(3) by (simp add: base_invalidate_def occ_add_def Let_def)
qed

lemma evict_inv:
  assumes inv: "tags_inv t" and k: "k \<in> set (the_set t p)" and v: "blk_isValid (ts_blks t ! k)"
    and e: "base_invalidate now t k = Inr t'"
  shows "tags_inv (drop_blk t' k)" "same_frame t (drop_blk t' k)"
    "findBlock (drop_blk t' k) a s = (if findBlock t a s = Some k then None else findBlock t a s)"
proof -
  let ?t' = "drop_blk t' k" and ?b = "ts_blks t ! k"
  let ?b' = "blk_invalidate (?b\<lparr>srcMasterId := invldMasterId, blk_task_id := task_Unknown, tickInserted := now\<rparr>)"
  have s: "tags_struct t" and u: "tags_unique t" and acc: "tags_account t" using inv by (auto simp: tags_inv_def)
  have kl: "k < length (ts_blks t)" by (rule the_set_bound [OF s k])
  note t' = e [unfolded base_invalidate_eq [OF acc kl v], simplified, symmetric]
  have bl: "ts_blks ?t' = (ts_blks t)[k := ?b']" using kl by (simp add: drop_blk_def t')
  show fr: "same_frame t ?t'" by (simp add: drop_blk_def t' same_frame_def)
  have b': "\<not> blk_isValid ?b'" "\<not> isTouched ?b'" "blk_status ?b' = 0" "blk_set ?b' = blk_set ?b"
    by (simp_all add: blk_invalidate_def blk_isValid_def)
  have s': "tags_struct ?t'" by (rule struct_update [OF s fr bl kl b'(4)])
  have u': "tags_unique ?t'" by (rule unique_update [OF s u fr bl k]) (use b' in simp)
  have bb: "isTouched ?b" "unat (srcMasterId ?b) < maxMasters t" "length (occupancies t) = maxMasters t"
    using acc kl v by (auto simp: tags_account_def list_all_length blk_accounted_def)
  have "int (owned_count i (ts_blks ?t')) = occupancies ?t' ! i" if "i < maxMasters t" for i
  proof -
    have "int (owned_count i (ts_blks t)) = occupancies t ! i" using acc that by (simp add: tags_account_def)
    then show ?thesis unfolding bl owned_count_def filter_update_count [OF kl]
      using b' v bb that by (auto simp: drop_blk_def t' nth_list_update)
  qed
  moreover have "int (touched_count (ts_blks ?t')) = tagsInUse ?t'"
    unfolding bl touched_count_def filter_update_count [OF kl]
    using acc b' bb by (simp add: tags_account_def touched_count_def drop_blk_def t')
  moreover have "list_all (blk_accounted (maxMasters t)) (ts_blks ?t')"
    unfolding bl using acc b' by (intro list_all_update) (auto simp: tags_account_def blk_accounted_def)
  ultimately have "tags_account ?t'" using bb(3) fr
    by (simp add: tags_account_def same_frame_def) (simp add: drop_blk_def t')
  then show "tags_inv ?t'" using s' u' by (simp add: tags_inv_def)
  show "findBlock ?t' a s = (if findBlock t a s = Some k then None else findBlock t a s)"
    using find_after_update [OF s u s' u' fr bl kl, of a s] b'(1) by (simp add: blk_matches_def)
qed

section \<open>Construction\<close>

lemma length_concat_grid: "length (concat (map (\<lambda>i. map (f i) [0..<n]) [0..<m])) = m * n"
  by (induction m) auto

lemma nth_concat_grid:
  "k < m * n \<Longrightarrow> concat (map (\<lambda>i. map (f i) [0..<n]) [0..<m]) ! k = f (k div n) (k mod n)"
proof (induction m)
  case (Suc m)
  show ?case
  proof (cases "k < m * n")
    case True
    then show ?thesis using Suc.IH by (simp add: nth_append length_concat_grid)
  next
    case False
    then have "k - m * n < n" "k div n = m" "k mod n = k - m * n"
      using Suc.prems by (auto simp: div_nat_eqI mult.commute intro!: mod_nat_eqI)
    then show ?thesis using False by (simp add: nth_append length_concat_grid)
  qed
qed simp

lemma floorLog2_of_power2: "isPowerOf2 (n :: 32 word) \<Longrightarrow> floorLog2 n = Inr k \<Longrightarrow> n = 2 ^ k \<and> k < 32"
  using floorLog2_power2 by (auto simp: isPowerOf2_iff)

lemma fresh_blk_facts:
  "blk_status (fresh_blk g bs i j) = 0" "\<not> isTouched (fresh_blk g bs i j)"
  "blk_set (fresh_blk g bs i j) = of_nat i" "\<not> blk_isValid (fresh_blk g bs i j)"
  by (simp_all add: fresh_blk_def Let_def blk_invalidate_def blk_isValid_def)

lemma new_BaseSetAssoc_inv:
  assumes "new_BaseSetAssoc garbage masters p = Inr t"
  shows "tags_inv t"
proof -
  let ?n = "unat (numSets t)" and ?w = "unat (ts_assoc t)"
  obtain ss ls where g: "isPowerOf2 (ts_blkSize t)" "isPowerOf2 (numSets t)" "floorLog2 (ts_blkSize t) = Inr ss"
      "floorLog2 (numSets t) = Inr ls" "setShift t = ss" "tagShift t = ss + ls"
      "setMask t = numSets t - 1" "blkMask t = ts_blkSize t - 1" "0 < ts_assoc t" "?n * ?w < 2 ^ 32"
    and sets: "ts_sets t = map (\<lambda>i. [i * ?w ..< Suc i * ?w]) [0..<?n]"
    and blks: "ts_blks t = concat (map (\<lambda>i. map (fresh_blk garbage (ts_blkSize t) i) [0..<?w]) [0..<?n])"
    and st: "tagsInUse t = 0" "occupancies t = replicate masters 0" "maxMasters t = masters"
    using assms by (auto simp: new_BaseSetAssoc_def Let_def not_le word_neq_0_conv split: if_splits)
  have len: "length (ts_blks t) = ?n * ?w" by (simp add: blks length_concat_grid)
  have nth: "k < length (ts_blks t) \<Longrightarrow> ts_blks t ! k = fresh_blk garbage (ts_blkSize t) (k div ?w) (k mod ?w)" for k
    using len by (simp add: blks nth_concat_grid)
  have inv: "\<not> blk_isValid b \<and> \<not> isTouched b \<and> blk_status b = 0" if "b \<in> set (ts_blks t)" for b
    using that nth by (metis fresh_blk_facts(1,2,4) in_set_conv_nth)
  have "tags_geom t" using floorLog2_of_power2 [OF g(1,3)] floorLog2_of_power2 [OF g(2,4)] g
    by (simp add: tags_geom_def)
  moreover have "0 < ?w" using g(9) by (simp add: word_less_nat_alt)
  moreover have "unat (blk_set (ts_blks t ! k)) = k div ?w" if "k < length (ts_blks t)" for k
  proof -
    have "k div ?w < 2 ^ 32" using that len g(10) by (metis div_le_dividend le_less_trans less_trans)
    then show ?thesis using nth [OF that] by (simp add: fresh_blk_facts unat_of_nat)
  qed
  ultimately have "tags_struct t" using len by (auto simp: tags_struct_def sets ways_of_def)
  moreover have "tags_unique t"
    unfolding tags_unique_def
  proof (intro allI ballI impI)
    fix i j k assume "i < length (ts_sets t)" "k \<in> set (ts_sets t ! i)" "blk_isValid (ts_blks t ! k)"
    then have "k < length (ts_blks t)"
      using ways_of_bound [of k ?w i ?n] len by (auto simp: sets ways_of_def)
    with \<open>blk_isValid (ts_blks t ! k)\<close> show "j = k" using inv nth_mem by blast
  qed
  moreover have "tags_account t"
    using inv by (auto simp: tags_account_def st touched_count_def owned_count_def list_all_iff
        blk_accounted_def filter_empty_conv)
  ultimately show ?thesis by (simp add: tags_inv_def)
qed

end
