(* ===== verification/Line_Store_Spec.thy ===== *)
theory Line_Store_Spec
  imports Prelude
begin

text \<open>
  The interface of a store of cache lines, as the cache uses it: look a line up, record a hit, or make
  room for a missing line and put it in. What a provider promises is that a hit changes no lookup, and that
  filling a missing line makes it present at the cost of at most the one line that occupied the chosen slot. A client
  that touches lines one after the other then knows what it can find afterwards.
\<close>

definition touch_line ::
    "('t \<Rightarrow> 'k \<Rightarrow> nat option) \<Rightarrow> ('t \<Rightarrow> 'k \<Rightarrow> 't res) \<Rightarrow> ('t \<Rightarrow> 'k \<Rightarrow> 't res) \<Rightarrow> 't \<Rightarrow> 'k \<Rightarrow> 't res" where
  "touch_line look hit fill t k = (if look t k \<noteq> None then hit t k else fill t k)"

fun touch_lines ::
    "('t \<Rightarrow> 'k \<Rightarrow> nat option) \<Rightarrow> ('t \<Rightarrow> 'k \<Rightarrow> 't res) \<Rightarrow> ('t \<Rightarrow> 'k \<Rightarrow> 't res) \<Rightarrow> 't \<Rightarrow> 'k list \<Rightarrow> 't res" where
  "touch_lines look hit fill t [] = Inr t"
| "touch_lines look hit fill t (k # ks) =
     bindE (touch_line look hit fill t k) (\<lambda>t'. touch_lines look hit fill t' ks)"

locale line_store =
  fixes wf :: "'t \<Rightarrow> bool"
    and ok :: "'t \<Rightarrow> 'k \<Rightarrow> bool"
    and same :: "'t \<Rightarrow> 'k \<Rightarrow> 'k \<Rightarrow> bool"
    and look :: "'t \<Rightarrow> 'k \<Rightarrow> nat option"
    and hit :: "'t \<Rightarrow> 'k \<Rightarrow> 't res"
    and fill :: "'t \<Rightarrow> 'k \<Rightarrow> 't res"
  assumes hit_law: "wf t \<Longrightarrow> look t k \<noteq> None \<Longrightarrow>
      \<exists>t'. hit t k = Inr t' \<and> wf t' \<and> ok t' = ok t \<and> same t' = same t \<and> look t' = look t"
    and fill_law: "wf t \<Longrightarrow> ok t k \<Longrightarrow> look t k = None \<Longrightarrow>
      \<exists>t' v. fill t k = Inr t' \<and> wf t' \<and> ok t' = ok t \<and> same t' = same t \<and>
        (\<forall>k'. look t' k' = (if same t k' k then Some v else if look t k' = Some v then None else look t k'))"
    and same_refl: "wf t \<Longrightarrow> same t k k"
begin

lemma touch_law:
  assumes "wf t" "ok t k"
  shows "\<exists>t'. touch_line look hit fill t k = Inr t' \<and> wf t' \<and> ok t' = ok t \<and> same t' = same t \<and>
     look t' k \<noteq> None \<and> (\<forall>k'. look t' k' \<noteq> None \<longrightarrow> same t k' k \<or> look t k' \<noteq> None)"
proof (cases "look t k = None")
  case True
  then show ?thesis using fill_law [OF assms True] same_refl [OF assms(1), of k]
    by (fastforce simp: touch_line_def)
next
  case False
  then show ?thesis using hit_law [OF assms(1) False] by (auto simp: touch_line_def)
qed

lemma touches_total:
  assumes "wf t" "list_all (ok t) ks"
  shows "\<exists>t'. touch_lines look hit fill t ks = Inr t' \<and> wf t' \<and> same t' = same t \<and> ok t' = ok t \<and>
     (\<forall>k. look t' k \<noteq> None \<longrightarrow> look t k \<noteq> None \<or> (\<exists>k' \<in> set ks. same t k k'))"
  using assms
proof (induction ks arbitrary: t)
  case Nil
  then show ?case by simp
next
  case (Cons x ks)
  then obtain t1 where t1: "touch_line look hit fill t x = Inr t1" "wf t1" "ok t1 = ok t" "same t1 = same t"
    "\<forall>k'. look t1 k' \<noteq> None \<longrightarrow> same t k' x \<or> look t k' \<noteq> None"
    using touch_law [of t x] by auto
  have "list_all (ok t1) ks" using Cons.prems t1(3) by simp
  from Cons.IH [OF t1(2) this] t1 obtain t2 where t2: "touch_lines look hit fill t1 ks = Inr t2" "wf t2"
      "same t2 = same t" "ok t2 = ok t"
    and old: "\<And>k. look t2 k \<noteq> None \<Longrightarrow> look t1 k \<noteq> None \<or> (\<exists>k' \<in> set ks. same t k k')"
    by auto
  have "look t k \<noteq> None \<or> (\<exists>k' \<in> set (x # ks). same t k k')" if "look t2 k \<noteq> None" for k
    using old [OF that] t1(5) by (metis list.set_intros)
  then show ?case using t1(1) t2 by simp
qed

lemma touched_present:
  assumes "wf t" "list_all (ok t) (ks @ [k])"
  shows "\<exists>t'. touch_lines look hit fill t (ks @ [k]) = Inr t' \<and> wf t' \<and> look t' k \<noteq> None \<and>
     (\<forall>k'. look t' k' \<noteq> None \<longrightarrow> look t k' \<noteq> None \<or> (\<exists>x \<in> set (ks @ [k]). same t k' x))"
proof -
  obtain t1 where t1: "touch_lines look hit fill t ks = Inr t1" "wf t1" "same t1 = same t" "ok t1 = ok t"
    "\<forall>k. look t1 k \<noteq> None \<longrightarrow> look t k \<noteq> None \<or> (\<exists>k' \<in> set ks. same t k k')"
    using touches_total [of t ks] assms by auto
  then obtain t2 where t2: "touch_line look hit fill t1 k = Inr t2" "wf t2" "look t2 k \<noteq> None"
    "\<forall>k'. look t2 k' \<noteq> None \<longrightarrow> same t k' k \<or> look t1 k' \<noteq> None"
    using touch_law [of t1 k] assms by auto
  have "touch_lines look hit fill t (ks @ [k]) = bindE (touch_lines look hit fill t ks)
      (\<lambda>t'. touch_lines look hit fill t' [k])" for t
    by (induction ks arbitrary: t) (simp_all add: bindE_assoc)
  then show ?thesis using t1 t2 by fastforce
qed

end

end
