(* ===== verification/Tag_Policies.thy ===== *)
theory Tag_Policies
  imports Base_Set_Assoc Line_Store_Spec
begin

text \<open>
  The two replacement policies over the set-associative store: least-recently-used (\<open>tags/lru.cc\<close>) and random
  (\<open>tags/random_repl.cc\<close>). What a policy may do to the ways of a set is the interface \<open>way_order\<close>: it permutes
  them. Both policies then provide the interface \<open>line_store\<close>.
\<close>

section \<open>LRU\<close>

definition reorder_set :: "(nat list \<Rightarrow> nat \<Rightarrow> (nat list) res) \<Rightarrow> tags \<Rightarrow> nat \<Rightarrow> nat \<Rightarrow> tags res" where
  "reorder_set reorder t i k =
     bindE (vec_get (ts_sets t) i) (\<lambda>ws. bindE (reorder ws k) (\<lambda>ws'.
     Inr (t\<lparr>ts_sets := (ts_sets t)[i := ws']\<rparr>)))"

definition lru_accessBlock ::
    "(tick \<Rightarrow> 64 word) \<Rightarrow> tick \<Rightarrow> tags \<Rightarrow> addr \<Rightarrow> bool \<Rightarrow> (nat option \<times> (64 word) \<times> tags) res" where
  "lru_accessBlock ticksToCycles now t a is_secure =
     (case base_accessBlock ticksToCycles now t a is_secure of
        (None, lat, t) \<Rightarrow> Inr (None, lat, t)
      | (Some k, lat, t) \<Rightarrow>
          bindE (reorder_set moveToHead t (unat (blk_set (ts_blks t ! k))) k) (\<lambda>t. Inr (Some k, lat, t)))"

definition lru_findVictim :: "tags \<Rightarrow> addr \<Rightarrow> nat res" where
  "lru_findVictim t a = vec_get (the_set t a) (unat (ts_assoc t - 1))"

definition lru_insertBlock :: "tick \<Rightarrow> tags \<Rightarrow> 's packet \<Rightarrow> nat \<Rightarrow> tags res" where
  "lru_insertBlock now t pkt k =
     bindE (base_insertBlock now t pkt k) (\<lambda>t.
     bindE (getAddr pkt) (\<lambda>a. reorder_set moveToHead t (unat (extractSet t a)) k))"

definition lru_invalidate :: "tick \<Rightarrow> tags \<Rightarrow> nat \<Rightarrow> tags res" where
  "lru_invalidate now t k =
     bindE (base_invalidate now t k) (\<lambda>t.
     reorder_set moveToTail t (unat (blk_set (ts_blks t ! k))) k)"

section \<open>Random replacement\<close>

text \<open>A uniform draw from an integer range, as a function of the generator's next value.\<close>

definition random_between :: "nat \<Rightarrow> nat \<Rightarrow> nat \<Rightarrow> nat" where
  "random_between draw lo hi = lo + draw mod (hi - lo + 1)"

definition rnd_accessBlock ::
    "(tick \<Rightarrow> 64 word) \<Rightarrow> tick \<Rightarrow> tags \<Rightarrow> addr \<Rightarrow> bool \<Rightarrow> nat option \<times> (64 word) \<times> tags" where
  "rnd_accessBlock = base_accessBlock"

definition rnd_findVictim :: "nat \<Rightarrow> tags \<Rightarrow> addr \<Rightarrow> nat res" where
  "rnd_findVictim draw t a =
     (case base_findVictim t a of
        None \<Rightarrow> Inl Out_Of_Bounds
      | Some k \<Rightarrow>
          if blk_isValid (ts_blks t ! k) then
            (let idx = random_between draw 0 (unat (ts_assoc t - 1)) in
             bindE (assertE (idx < unat (ts_assoc t))) (\<lambda>_. vec_get (the_set t a) idx))
          else Inr k)"

definition rnd_insertBlock :: "tick \<Rightarrow> tags \<Rightarrow> 's packet \<Rightarrow> nat \<Rightarrow> tags res" where
  "rnd_insertBlock = base_insertBlock"

definition rnd_invalidate :: "tick \<Rightarrow> tags \<Rightarrow> nat \<Rightarrow> tags res" where
  "rnd_invalidate = base_invalidate"

section \<open>Permuting the ways of a set\<close>

locale way_order =
  fixes reorder :: "nat list \<Rightarrow> nat \<Rightarrow> (nat list) res"
  assumes reorder_perm: "k \<in> set ws \<Longrightarrow> distinct ws \<Longrightarrow>
    \<exists>ws'. reorder ws k = Inr ws' \<and> distinct ws' \<and> set ws' = set ws"
begin

lemma reorder_set_inv:
  assumes inv: "tags_inv t" and k: "k \<in> set (the_set t a)"
  shows "\<exists>ws'. reorder (the_set t a) k = Inr ws' \<and> distinct ws' \<and> set ws' = set (the_set t a) \<and>
     (let t' = t\<lparr>ts_sets := (ts_sets t)[unat (extractSet t a) := ws']\<rparr> in
      reorder_set reorder t (unat (extractSet t a)) k = Inr t' \<and> tags_inv t' \<and> findBlock t' = findBlock t)"
proof -
  let ?i = "unat (extractSet t a)"
  have s: "tags_struct t" and u: "tags_unique t" and acc: "tags_account t" using inv by (auto simp: tags_inv_def)
  have i: "?i < length (ts_sets t)" "distinct (the_set t a)" using the_set_facts [OF s] by auto
  obtain ws' where ws': "reorder (the_set t a) k = Inr ws'" "distinct ws'" "set ws' = set (the_set t a)"
    using reorder_perm [OF k i(2)] by auto
  let ?t' = "t\<lparr>ts_sets := (ts_sets t)[?i := ws']\<rparr>"
  have r: "reorder_set reorder t ?i k = Inr ?t'" using i ws'(1) by (simp add: reorder_set_def)
  have mem: "set (ts_sets ?t' ! j) = set (ts_sets t ! j)" for j
    using i ws'(3) by (cases "j = ?i") (auto simp: nth_list_update)
  have g: "tags_geom ?t' = tags_geom t" by (simp add: tags_geom_def)
  have s': "tags_struct ?t'" using s mem ws'(2) i by (auto simp: tags_struct_def g nth_list_update)
  have u': "tags_unique ?t'" using u mem unfolding tags_unique_def by simp
  have acc': "tags_account ?t'" using acc by (simp add: tags_account_def)
  have ex: "extractSet ?t' x = extractSet t x" "extractTag ?t' x = extractTag t x" for x
    by (simp_all add: extractSet_def extractTag_def)
  have "findBlock ?t' x sec = Some j \<longleftrightarrow> findBlock t x sec = Some j" for x sec j
    unfolding findBlock_Some_iff [OF s' u'] findBlock_Some_iff [OF s u] ex using mem by simp
  then have "findBlock ?t' = findBlock t" by (intro ext) (metis not_Some_eq)
  then show ?thesis using ws' r s' u' acc' by (auto simp: tags_inv_def Let_def)
qed

end

interpretation to_head: way_order moveToHead
  by unfold_locales (use set_move(1,2) in \<open>auto simp: moveToHead_eq\<close>)

interpretation to_tail: way_order moveToTail
  by unfold_locales (use set_move(3,4) in \<open>auto simp: moveToTail_eq\<close>)

section \<open>Accesses change only counters\<close>

definition blk_id :: "cache_blk \<Rightarrow> addr \<times> bool \<times> bool \<times> bool \<times> bool \<times> (32 word) \<times> (32 word)" where
  "blk_id b = (blk_tag b, blk_isValid b, blk_isSecure b, blk_isValid b \<or> blk_status b = 0, isTouched b, srcMasterId b, blk_set b)"

lemma blk_id_eq:
  "blk_id b = blk_id c \<Longrightarrow> blk_isValid b = blk_isValid c \<and> blk_isSecure b = blk_isSecure c \<and>
     blk_tag b = blk_tag c \<and> isTouched b = isTouched c \<and> srcMasterId b = srcMasterId c \<and> blk_set b = blk_set c \<and>
     (\<not> blk_isValid b \<longrightarrow> (blk_status b = 0) = (blk_status c = 0))"
  by (auto simp: blk_id_def)

lemma map_eq_filter:
  assumes "map f xs = map f ys" "\<And>b c. f b = f c \<Longrightarrow> P b = P c"
  shows "length (filter P xs) = length (filter P ys) \<and> list_all P xs = list_all P ys"
proof -
  have "length xs = length ys" using assms(1) by (metis length_map)
  then show ?thesis using assms(1)
  proof (induction xs ys rule: list_induct2)
    case (Cons x xs y ys)
    then show ?case using assms(2) [of x y] by auto
  qed simp
qed

lemma inv_blk_id:
  assumes inv: "tags_inv t" and fr: "same_frame t t'" and ids: "map blk_id (ts_blks t') = map blk_id (ts_blks t)"
    and cnt: "tagsInUse t' = tagsInUse t" "occupancies t' = occupancies t"
  shows "tags_inv t'" "findBlock t' = findBlock t"
proof -
  have s: "tags_struct t" and u: "tags_unique t" and acc: "tags_account t" using inv by (auto simp: tags_inv_def)
  have len: "length (ts_blks t') = length (ts_blks t)" using ids by (metis length_map)
  have id: "blk_id (ts_blks t' ! k) = blk_id (ts_blks t ! k)" if "k < length (ts_blks t)" for k
    using ids that len by (metis nth_map)
  have mt: "blk_matches g sec (ts_blks t' ! k) = blk_matches g sec (ts_blks t ! k)"
    if "k < length (ts_blks t)" for k g sec
    using blk_id_eq [OF id [OF that]] by (auto simp: blk_matches_def)
  have sets: "ts_sets t' = ts_sets t" using fr by (simp add: same_frame_def)
  have s': "tags_struct t'"
    using s fr len blk_id_eq [OF id] same_frame_addr(4) [OF fr] unfolding tags_struct_def same_frame_def by auto
  have bd: "k < length (ts_blks t)" if "i < length (ts_sets t)" "k \<in> set (ts_sets t ! i)" for i k
    using s that ways_of_bound [of k "unat (ts_assoc t)" i "unat (numSets t)"] by (auto simp: tags_struct_def)
  have u': "tags_unique t'"
    unfolding tags_unique_def sets
  proof (intro allI ballI impI)
    fix i j k
    assume i: "i < length (ts_sets t)" and j: "j \<in> set (ts_sets t ! i)" and k: "k \<in> set (ts_sets t ! i)"
      and m: "blk_matches (blk_tag (ts_blks t' ! k)) (blk_isSecure (ts_blks t' ! k)) (ts_blks t' ! j)"
      and v: "blk_isValid (ts_blks t' ! k)"
    have "blk_matches (blk_tag (ts_blks t ! k)) (blk_isSecure (ts_blks t ! k)) (ts_blks t ! j)"
      "blk_isValid (ts_blks t ! k)"
      using m v mt [OF bd [OF i j]] blk_id_eq [OF id [OF bd [OF i k]]] by simp_all
    then show "j = k" using u i j k unfolding tags_unique_def by blast
  qed
  have cm: "length (filter P (ts_blks t')) = length (filter P (ts_blks t))"
      "list_all P (ts_blks t') = list_all P (ts_blks t)"
    if "\<And>b c. blk_id b = blk_id c \<Longrightarrow> P b = P c" for P
    using map_eq_filter [OF ids that] by auto
  have "touched_count (ts_blks t') = touched_count (ts_blks t)" "owned_count m (ts_blks t') = owned_count m (ts_blks t)"
    "list_all (blk_accounted n) (ts_blks t') = list_all (blk_accounted n) (ts_blks t)" for m n
    unfolding touched_count_def owned_count_def by (rule cm; auto simp: blk_accounted_def dest: blk_id_eq)+
  then have acc': "tags_account t'" using acc cnt fr by (simp add: tags_account_def same_frame_def)
  show "tags_inv t'" using s' u' acc' by (simp add: tags_inv_def)
  have "the_set t' x = the_set t x" "extractTag t' x = extractTag t x" for x
    using sets same_frame_addr [OF fr] by auto
  then have "findBlock t' x sec = Some k \<longleftrightarrow> findBlock t x sec = Some k" for x sec k
    unfolding findBlock_Some_iff [OF s' u'] findBlock_Some_iff [OF s u]
    using mt the_set_bound [OF s] by auto
  then show "findBlock t' = findBlock t" by (intro ext) (metis not_Some_eq)
qed

lemma map_update_same: "f y = f (xs ! k) \<Longrightarrow> map f (xs[k := y]) = map f xs"
  by (cases "k < length xs") (simp_all add: map_update list_update_same_conv list_update_beyond)

lemma base_access_inv:
  assumes inv: "tags_inv t" and acc: "base_accessBlock ttc now t a sec = (r, lat, t')"
  shows "r = findBlock t a sec" "same_frame t t'" "tags_inv t'" "findBlock t' = findBlock t"
    "map blk_id (ts_blks t') = map blk_id (ts_blks t)"
proof -
  show r: "r = findBlock t a sec"
    using acc by (auto simp: base_accessBlock_def findBlock_def Let_def split: option.splits if_splits)
  show fr: "same_frame t t'"
    using acc by (auto simp: base_accessBlock_def same_frame_def Let_def split: option.splits if_splits)
  show ids: "map blk_id (ts_blks t') = map blk_id (ts_blks t)"
  proof (cases r)
    case None
    then show ?thesis using acc
      by (auto simp: base_accessBlock_def Let_def split: option.splits if_splits)
  next
    case (Some k)
    then have "ts_blks t' = (ts_blks t)[k := (ts_blks t ! k)\<lparr>refCount := refCount (ts_blks t ! k) + 1\<rparr>]"
      using acc by (auto simp: base_accessBlock_def Let_def split: option.splits if_splits)
    then show ?thesis by (simp only:) (rule map_update_same, simp add: blk_id_def blk_isValid_def blk_isSecure_def)
  qed
  have cnt: "tagsInUse t' = tagsInUse t" "occupancies t' = occupancies t"
    using acc by (auto simp: base_accessBlock_def Let_def split: option.splits if_splits)
  show "tags_inv t'" "findBlock t' = findBlock t" by (rule inv_blk_id [OF inv fr ids cnt])+
qed

section \<open>Lines\<close>

record 's line_req =
  lr_now :: tick
  lr_draw :: nat
  lr_pkt :: "'s packet"
  lr_status :: "32 word"

definition line_ok :: "tags \<Rightarrow> 's line_req \<Rightarrow> bool" where
  "line_ok t r \<longleftrightarrow> isSet (pkt_flags (lr_pkt r)) VALID_ADDR \<and>
     unat (req_masterId (pkt_req (lr_pkt r))) < maxMasters t \<and> isSet (lr_status r) BlkValid"

definition same_line :: "tags \<Rightarrow> 's line_req \<Rightarrow> 's line_req \<Rightarrow> bool" where
  "same_line t r r' \<longleftrightarrow> blkAlign t (pkt_addr (lr_pkt r)) = blkAlign t (pkt_addr (lr_pkt r')) \<and>
     isSet (lr_status r) BlkSecure = isSet (lr_status r') BlkSecure"

definition find_line :: "tags \<Rightarrow> 's line_req \<Rightarrow> nat option" where
  "find_line t r = findBlock t (pkt_addr (lr_pkt r)) (isSet (lr_status r) BlkSecure)"

definition lru_hit_line :: "(tick \<Rightarrow> 64 word) \<Rightarrow> tags \<Rightarrow> 's line_req \<Rightarrow> tags res" where
  "lru_hit_line ttc t r =
     bindE (lru_accessBlock ttc (lr_now r) t (pkt_addr (lr_pkt r)) (isSet (lr_status r) BlkSecure))
       (\<lambda>(_, _, t). Inr t)"

definition lru_fill_line :: "tags \<Rightarrow> 's line_req \<Rightarrow> tags res" where
  "lru_fill_line t r =
     bindE (lru_findVictim t (pkt_addr (lr_pkt r))) (\<lambda>k.
     bindE (lru_insertBlock (lr_now r) t (lr_pkt r) k) (\<lambda>t. Inr (set_status t k (lr_status r))))"

definition rnd_hit_line :: "(tick \<Rightarrow> 64 word) \<Rightarrow> tags \<Rightarrow> 's line_req \<Rightarrow> tags res" where
  "rnd_hit_line ttc t r =
     (case rnd_accessBlock ttc (lr_now r) t (pkt_addr (lr_pkt r)) (isSet (lr_status r) BlkSecure) of
        (_, _, t) \<Rightarrow> Inr t)"

definition rnd_fill_line :: "tags \<Rightarrow> 's line_req \<Rightarrow> tags res" where
  "rnd_fill_line t r =
     bindE (rnd_findVictim (lr_draw r) t (pkt_addr (lr_pkt r))) (\<lambda>k.
     bindE (rnd_insertBlock (lr_now r) t (lr_pkt r) k) (\<lambda>t. Inr (set_status t k (lr_status r))))"

lemma set_length:
  assumes "tags_struct t"
  shows "length (the_set t a) = unat (ts_assoc t)"
proof -
  have "length (the_set t a) = card (ways_of (unat (ts_assoc t)) (unat (extractSet t a)))"
    using the_set_facts(2,3) [OF assms, of a] distinct_card by metis
  then show ?thesis by (simp add: ways_of_def)
qed

lemma lru_victim:
  assumes "tags_struct t"
  shows "lru_findVictim t a = Inr (last (the_set t a))" "last (the_set t a) \<in> set (the_set t a)"
proof -
  have w: "0 < unat (ts_assoc t)" using assms by (simp add: tags_struct_def)
  then have ne: "the_set t a \<noteq> []" using set_length [OF assms, of a] by (metis length_greater_0_conv)
  show "last (the_set t a) \<in> set (the_set t a)" using ne by simp
  have "unat (ts_assoc t - 1) = unat (ts_assoc t) - 1" using w by (simp add: unat_minus_one unat_gt_0)
  then show "lru_findVictim t a = Inr (last (the_set t a))"
    using w ne set_length [OF assms, of a] by (simp add: lru_findVictim_def last_conv_nth)
qed

lemma first_invalid_mem: "first_invalid blks ws = Some k \<Longrightarrow> k \<in> set ws"
  by (induction blks ws rule: first_invalid.induct) (auto split: if_splits)

lemma first_invalid_total: "ws \<noteq> [] \<Longrightarrow> \<exists>k. first_invalid blks ws = Some k"
  by (induction blks ws rule: first_invalid.induct) auto

lemma rnd_victim:
  assumes "tags_struct t"
  shows "\<exists>k. rnd_findVictim draw t a = Inr k \<and> k \<in> set (the_set t a)"
proof -
  have w: "0 < unat (ts_assoc t)" using assms by (simp add: tags_struct_def)
  then have ne: "the_set t a \<noteq> []" using set_length [OF assms, of a] by (metis length_greater_0_conv)
  have "unat (ts_assoc t - 1) = unat (ts_assoc t) - 1" using w by (simp add: unat_minus_one unat_gt_0)
  then have "random_between draw 0 (unat (ts_assoc t - 1)) < unat (ts_assoc t)"
    using w by (simp add: random_between_def)
  then show ?thesis
    using first_invalid_total [OF ne, of "ts_blks t"] first_invalid_mem [of "ts_blks t" "the_set t a"]
      set_length [OF assms, of a]
    by (auto simp: rnd_findVictim_def base_findVictim_def Let_def)
qed

lemma frame_lines:
  assumes "same_frame t t'"
  shows "line_ok t' = line_ok t" "same_line t' = same_line t"
  using assms same_frame_addr [OF assms]
  by (auto simp: line_ok_def same_line_def same_frame_def fun_eq_iff)

lemma set_status_sets [simp]: "set_status (t\<lparr>ts_sets := x\<rparr>) k st = (set_status t k st)\<lparr>ts_sets := x\<rparr>"
  by (simp add: set_status_def)

lemma line_ok_sets [simp]: "line_ok (t\<lparr>ts_sets := x\<rparr>) = line_ok t" "same_line (t\<lparr>ts_sets := x\<rparr>) = same_line t"
  by (auto simp: line_ok_def same_line_def blkAlign_def fun_eq_iff)

lemma find_line_eqI: "findBlock t' = findBlock t \<Longrightarrow> find_line t' = find_line t"
  by (simp add: find_line_def fun_eq_iff)

text \<open>A hit changes no lookup and moves the block to the head of its set.\<close>

lemma lru_hit_moves:
  assumes inv: "tags_inv t" and h: "find_line t r = Some k"
  shows "\<exists>t'. lru_hit_line ttc t r = Inr t' \<and> tags_inv t' \<and> line_ok t' = line_ok t \<and>
     same_line t' = same_line t \<and> find_line t' = find_line t \<and> extractSet t' = extractSet t \<and>
     blkAlign t' = blkAlign t \<and> ts_assoc t' = ts_assoc t \<and>
     ts_sets t' = (ts_sets t)[unat (extractSet t (pkt_addr (lr_pkt r))) :=
       k # remove1 k (the_set t (pkt_addr (lr_pkt r)))]"
proof -
  let ?a = "pkt_addr (lr_pkt r)" and ?s = "isSet (lr_status r) BlkSecure"
  obtain x lat t1 where acc: "base_accessBlock ttc (lr_now r) t ?a ?s = (x, lat, t1)" by (metis prod_cases3)
  note b = base_access_inv [OF inv acc]
  have k: "findBlock t ?a ?s = Some k" using h by (simp add: find_line_def)
  have s: "tags_struct t" "tags_unique t" "tags_struct t1" using inv b(3) by (auto simp: tags_inv_def)
  have ad: "extractSet t1 ?a = extractSet t ?a" "the_set t1 ?a = the_set t ?a"
    using same_frame_addr [OF b(2)] b(2) by (auto simp: same_frame_def)
  have kin: "k \<in> set (the_set t1 ?a)" using k findBlock_Some_iff [OF s(1,2)] ad by auto
  have i: "unat (blk_set (ts_blks t1 ! k)) = unat (extractSet t1 ?a)"
    by (rule the_set_index [OF s(3) kin])
  obtain ws' where mv: "moveToHead (the_set t1 ?a) k = Inr ws'"
    and ro: "reorder_set moveToHead t1 (unat (extractSet t1 ?a)) k =
      Inr (t1\<lparr>ts_sets := (ts_sets t1)[unat (extractSet t1 ?a) := ws']\<rparr>)"
    "tags_inv (t1\<lparr>ts_sets := (ts_sets t1)[unat (extractSet t1 ?a) := ws']\<rparr>)"
    "findBlock (t1\<lparr>ts_sets := (ts_sets t1)[unat (extractSet t1 ?a) := ws']\<rparr>) = findBlock t1"
    using to_head.reorder_set_inv [OF b(3) kin] by (auto simp: Let_def)
  have "lru_hit_line ttc t r = Inr (t1\<lparr>ts_sets := (ts_sets t1)[unat (extractSet t1 ?a) := ws']\<rparr>)"
    using acc b(1) k i ro(1) by (simp add: lru_hit_line_def lru_accessBlock_def)
  moreover have "find_line (t1\<lparr>ts_sets := (ts_sets t1)[unat (extractSet t1 ?a) := ws']\<rparr>) = find_line t"
    using ro(3) b(4) by (intro find_line_eqI) simp
  moreover have "ws' = k # remove1 k (the_set t ?a)" using mv moveToHead_eq [OF kin] ad by simp
  moreover have "extractSet (t1\<lparr>ts_sets := x\<rparr>) = extractSet t" "blkAlign (t1\<lparr>ts_sets := x\<rparr>) = blkAlign t"
    "ts_assoc t1 = ts_assoc t" "ts_sets t1 = ts_sets t" for x
    using b(2) by (auto simp: same_frame_def extractSet_def blkAlign_def fun_eq_iff)
  ultimately show ?thesis using ro(2) frame_lines [OF b(2)] ad(1) by simp
qed

lemma lru_hit_law:
  assumes "tags_inv t" "find_line t r \<noteq> None"
  shows "\<exists>t'. lru_hit_line ttc t r = Inr t' \<and> tags_inv t' \<and> line_ok t' = line_ok t \<and>
     same_line t' = same_line t \<and> find_line t' = find_line t"
  using lru_hit_moves [OF assms(1), of r _ ttc] assms(2) by blast

text \<open>A fill replaces the last block of the set and moves it to the head.\<close>

lemma lru_fill_moves:
  assumes inv: "tags_inv t" and ok: "line_ok t r" and miss: "find_line t r = None"
    and kd: "k = last (the_set t (pkt_addr (lr_pkt r)))"
  shows "\<exists>t'. lru_fill_line t r = Inr t' \<and> tags_inv t' \<and> line_ok t' = line_ok t \<and> same_line t' = same_line t \<and>
     (\<forall>r'. find_line t' r' =
        (if same_line t r' r then Some k else if find_line t r' = Some k then None else find_line t r')) \<and>
     extractSet t' = extractSet t \<and> blkAlign t' = blkAlign t \<and> ts_assoc t' = ts_assoc t \<and>
     ts_sets t' = (ts_sets t)[unat (extractSet t (pkt_addr (lr_pkt r))) :=
       k # remove1 k (the_set t (pkt_addr (lr_pkt r)))]"
proof -
  let ?a = "pkt_addr (lr_pkt r)" and ?st = "lr_status r"
  let ?k = "last (the_set t ?a)"
  have s: "tags_struct t" and acc: "tags_account t" using inv by (auto simp: tags_inv_def)
  note vic = lru_victim [OF s, of ?a]
  have kl: "?k < length (ts_blks t)" by (rule the_set_bound [OF s vic(2)])
  have o: "isSet (pkt_flags (lr_pkt r)) VALID_ADDR" "unat (req_masterId (pkt_req (lr_pkt r))) < maxMasters t"
    "isSet ?st BlkValid" using ok by (auto simp: line_ok_def)
  obtain t1 where ins: "base_insertBlock (lr_now r) t (lr_pkt r) ?k = Inr t1"
    using insert_total [OF acc kl o(1,2), of "lr_now r"] by blast
  note f = install_inv [OF inv vic(2) o(1,2,3) miss [unfolded find_line_def] ins]
  let ?t2 = "set_status t1 ?k ?st"
  have ad: "extractSet ?t2 ?a = extractSet t ?a" "the_set ?t2 ?a = the_set t ?a"
    using same_frame_addr [OF f(2)] f(2) by (auto simp: same_frame_def)
  have kin: "?k \<in> set (the_set ?t2 ?a)" using vic(2) ad by simp
  obtain ws' where ro: "moveToHead (the_set ?t2 ?a) ?k = Inr ws'"
    "tags_inv (?t2\<lparr>ts_sets := (ts_sets ?t2)[unat (extractSet ?t2 ?a) := ws']\<rparr>)"
    "findBlock (?t2\<lparr>ts_sets := (ts_sets ?t2)[unat (extractSet ?t2 ?a) := ws']\<rparr>) = findBlock ?t2"
    using to_head.reorder_set_inv [OF f(1) kin] by (auto simp: Let_def)
  let ?t3 = "?t2\<lparr>ts_sets := (ts_sets ?t2)[unat (extractSet ?t2 ?a) := ws']\<rparr>"
  have t12: "extractSet t1 ?a = extractSet ?t2 ?a" "ts_sets t1 = ts_sets ?t2"
    by (simp_all add: set_status_def extractSet_def)
  have bd: "unat (extractSet ?t2 ?a) < length (ts_sets ?t2)"
    using the_set_facts(1) [of ?t2 ?a] f(1) unfolding tags_inv_def by blast
  have "lru_insertBlock (lr_now r) t (lr_pkt r) ?k = Inr (t1\<lparr>ts_sets := (ts_sets ?t2)[unat (extractSet ?t2 ?a) := ws']\<rparr>)"
    using ins o(1) ro(1) bd by (simp add: lru_insertBlock_def getAddr_def reorder_set_def t12)
  then have run: "lru_fill_line t r = Inr ?t3" using vic(1) by (simp add: lru_fill_line_def)
  have "find_line ?t3 r' = (if same_line t r' r then Some ?k
      else if find_line t r' = Some ?k then None else find_line t r')" for r'
    unfolding find_line_def ro(3) f(3) same_line_def by simp
  moreover have "ws' = ?k # remove1 ?k (the_set t ?a)" using ro(1) moveToHead_eq [OF kin] ad by simp
  moreover have "extractSet ?t3 = extractSet t" "blkAlign ?t3 = blkAlign t" "ts_assoc ?t2 = ts_assoc t"
    "ts_sets ?t2 = ts_sets t"
    using f(2) by (auto simp: same_frame_def extractSet_def blkAlign_def fun_eq_iff)
  ultimately show ?thesis using run ro(2) frame_lines [OF f(2)] ad(1) unfolding kd
    by (intro exI [of _ ?t3] conjI) simp_all
qed

lemma lru_fill_law:
  assumes "tags_inv t" "line_ok t r" "find_line t r = None"
  shows "\<exists>t' v. lru_fill_line t r = Inr t' \<and> tags_inv t' \<and> line_ok t' = line_ok t \<and> same_line t' = same_line t \<and>
     (\<forall>r'. find_line t' r' =
        (if same_line t r' r then Some v else if find_line t r' = Some v then None else find_line t r'))"
  using lru_fill_moves [OF assms refl] by blast

interpretation lru: line_store tags_inv line_ok same_line find_line "lru_hit_line ttc" lru_fill_line for ttc
  by unfold_locales (rule lru_hit_law, assumption+, rule lru_fill_law, assumption+, simp add: same_line_def)

lemma rnd_hit_law:
  assumes inv: "tags_inv t"
  shows "\<exists>t'. rnd_hit_line ttc t r = Inr t' \<and> tags_inv t' \<and> line_ok t' = line_ok t \<and>
     same_line t' = same_line t \<and> find_line t' = find_line t"
proof -
  let ?a = "pkt_addr (lr_pkt r)" and ?s = "isSet (lr_status r) BlkSecure"
  obtain x lat t1 where acc: "base_accessBlock ttc (lr_now r) t ?a ?s = (x, lat, t1)" by (metis prod_cases3)
  note b = base_access_inv [OF inv acc]
  have "rnd_hit_line ttc t r = Inr t1" using acc by (simp add: rnd_hit_line_def rnd_accessBlock_def)
  then show ?thesis using b(3) find_line_eqI [OF b(4)] frame_lines [OF b(2)] by auto
qed

lemma rnd_fill_law:
  assumes inv: "tags_inv t" and ok: "line_ok t r" and miss: "find_line t r = None"
  shows "\<exists>t' v. rnd_fill_line t r = Inr t' \<and> tags_inv t' \<and> line_ok t' = line_ok t \<and> same_line t' = same_line t \<and>
     (\<forall>r'. find_line t' r' =
        (if same_line t r' r then Some v else if find_line t r' = Some v then None else find_line t r'))"
proof -
  let ?a = "pkt_addr (lr_pkt r)" and ?st = "lr_status r"
  have s: "tags_struct t" and acc: "tags_account t" using inv by (auto simp: tags_inv_def)
  obtain k where vic: "rnd_findVictim (lr_draw r) t ?a = Inr k" "k \<in> set (the_set t ?a)"
    using rnd_victim [OF s] by blast
  have kl: "k < length (ts_blks t)" by (rule the_set_bound [OF s vic(2)])
  have o: "isSet (pkt_flags (lr_pkt r)) VALID_ADDR" "unat (req_masterId (pkt_req (lr_pkt r))) < maxMasters t"
    "isSet ?st BlkValid" using ok by (auto simp: line_ok_def)
  obtain t1 where ins: "base_insertBlock (lr_now r) t (lr_pkt r) k = Inr t1"
    using insert_total [OF acc kl o(1,2), of "lr_now r"] by blast
  note f = install_inv [OF inv vic(2) o(1,2,3) miss [unfolded find_line_def] ins]
  have run: "rnd_fill_line t r = Inr (set_status t1 k ?st)"
    using vic(1) ins by (simp add: rnd_fill_line_def rnd_insertBlock_def)
  have "find_line (set_status t1 k ?st) r' = (if same_line t r' r then Some k
      else if find_line t r' = Some k then None else find_line t r')" for r'
    unfolding find_line_def f(3) same_line_def by simp
  then show ?thesis using run f(1) frame_lines [OF f(2)]
    by (intro exI [of _ "set_status t1 k ?st"] exI [of _ k] conjI) simp_all
qed

interpretation rnd: line_store tags_inv line_ok same_line find_line "rnd_hit_line ttc" rnd_fill_line for ttc
  by unfold_locales (rule rnd_hit_law, assumption+, rule rnd_fill_law, assumption+, simp add: same_line_def)

section \<open>Dropping a block\<close>

text \<open>How the cache drops a valid block: the policy's \<open>invalidate\<close>, then the block's own.\<close>

definition lru_evict :: "tick \<Rightarrow> tags \<Rightarrow> nat \<Rightarrow> tags res" where
  "lru_evict now t k = bindE (lru_invalidate now t k) (\<lambda>t. Inr (drop_blk t k))"

lemma lru_evict_law:
  assumes inv: "tags_inv t" and hit: "findBlock t a sec = Some k"
  shows "\<exists>t'. lru_evict now t k = Inr t' \<and> tags_inv t' \<and>
     (\<forall>x s. findBlock t' x s = (if findBlock t x s = Some k then None else findBlock t x s))"
proof -
  have s: "tags_struct t" "tags_unique t" and acc: "tags_account t" using inv by (auto simp: tags_inv_def)
  have k: "k \<in> set (the_set t a)" "blk_isValid (ts_blks t ! k)"
    using hit findBlock_Some_iff [OF s] by (auto simp: blk_matches_def)
  have kl: "k < length (ts_blks t)" by (rule the_set_bound [OF s(1) k(1)])
  obtain t1 where e: "base_invalidate now t k = Inr t1" using base_invalidate_eq [OF acc kl k(2)] by blast
  note f = evict_inv [OF inv k e]
  let ?t2 = "drop_blk t1 k"
  have ad: "extractSet ?t2 a = extractSet t a" "the_set ?t2 a = the_set t a" "ts_sets t1 = ts_sets ?t2"
    using same_frame_addr [OF f(2)] f(2) by (auto simp: same_frame_def drop_blk_def)
  have kin: "k \<in> set (the_set ?t2 a)" using k(1) ad by simp
  obtain ws' where ro: "moveToTail (the_set ?t2 a) k = Inr ws'"
    "tags_inv (?t2\<lparr>ts_sets := (ts_sets ?t2)[unat (extractSet ?t2 a) := ws']\<rparr>)"
    "findBlock (?t2\<lparr>ts_sets := (ts_sets ?t2)[unat (extractSet ?t2 a) := ws']\<rparr>) = findBlock ?t2"
    using to_tail.reorder_set_inv [OF f(1) kin] by (auto simp: Let_def)
  have st2: "tags_struct ?t2" using f(1) by (simp add: tags_inv_def)
  have bd: "unat (extractSet ?t2 a) < length (ts_sets ?t2)" by (rule the_set_facts(1) [OF st2])
  have "unat (blk_set (ts_blks t1 ! k)) = unat (blk_set (ts_blks ?t2 ! k))"
    by (cases "k < length (ts_blks t1)") (simp_all add: drop_blk_def blk_invalidate_def list_update_beyond)
  then have i: "unat (blk_set (ts_blks t1 ! k)) = unat (extractSet ?t2 a)"
    using the_set_index [OF st2 kin] by simp
  have "lru_evict now t k = Inr (?t2\<lparr>ts_sets := (ts_sets ?t2)[unat (extractSet ?t2 a) := ws']\<rparr>)"
    using e ro(1) bd by (simp add: lru_evict_def lru_invalidate_def i reorder_set_def ad(3)) (simp add: drop_blk_def)
  then show ?thesis using ro(2,3) f(3) by auto
qed

section \<open>What LRU keeps\<close>

definition line_key :: "tags \<Rightarrow> 's line_req \<Rightarrow> addr \<times> bool" where
  "line_key t r = (blkAlign t (pkt_addr (lr_pkt r)), isSet (lr_status r) BlkSecure)"

text \<open>The lines other than \<open>x\<close> that compete with it for its set, among those touched.\<close>

definition rivals :: "tags \<Rightarrow> 's line_req \<Rightarrow> 's line_req set \<Rightarrow> (addr \<times> bool) set" where
  "rivals t x ys = line_key t ` {y \<in> ys. line_key t y \<noteq> line_key t x \<and>
     extractSet t (pkt_addr (lr_pkt y)) = extractSet t (pkt_addr (lr_pkt x))}"

text \<open>Every block more recent than that of \<open>x\<close> in its set holds a line touched since.\<close>

definition recent :: "tags \<Rightarrow> 's line_req \<Rightarrow> nat \<Rightarrow> 's line_req set \<Rightarrow> bool" where
  "recent t x v ys \<longleftrightarrow> find_line t x = Some v \<and>
     (\<forall>j \<in> set (takeWhile (\<lambda>k. k \<noteq> v) (the_set t (pkt_addr (lr_pkt x)))). \<exists>y \<in> ys. find_line t y = Some j)"

lemma find_line_key:
  assumes "tags_inv t" "line_key t y = line_key t z"
  shows "find_line t y = find_line t z"
proof -
  have g: "tags_geom t" using assms(1) by (simp add: tags_inv_def tags_struct_def)
  have "extractTag t (pkt_addr (lr_pkt y)) = extractTag t (pkt_addr (lr_pkt z))"
    "extractSet t (pkt_addr (lr_pkt y)) = extractSet t (pkt_addr (lr_pkt z))"
    using same_block_iff [OF g] assms(2) by (auto simp: line_key_def)
  then show ?thesis using assms(2) by (simp add: find_line_def findBlock_def line_key_def)
qed

lemma same_line_key: "same_line t y z \<longleftrightarrow> line_key t y = line_key t z"
  by (auto simp: same_line_def line_key_def)

lemma find_line_mem:
  assumes "tags_inv t" "find_line t y = Some j"
  shows "j \<in> set (the_set t (pkt_addr (lr_pkt y)))"
  using assms findBlock_Some_iff [of t] by (auto simp: tags_inv_def find_line_def)

lemma find_line_set:
  assumes "tags_inv t" "find_line t y = Some j" "j \<in> set (the_set t a)"
  shows "extractSet t (pkt_addr (lr_pkt y)) = extractSet t a"
proof -
  have s: "tags_struct t" using assms(1) by (simp add: tags_inv_def)
  have "unat (extractSet t (pkt_addr (lr_pkt y))) = unat (extractSet t a)"
    using the_set_index [OF s find_line_mem [OF assms(1,2)]] the_set_index [OF s assms(3)] by simp
  then show ?thesis by (rule unsigned_word_eqI)
qed

lemma recent_rivals:
  fixes x :: "'s line_req"
  assumes inv: "tags_inv t" and r: "recent t x v ys"
  shows "\<exists>K \<subseteq> rivals t x ys. card K = length (takeWhile (\<lambda>k. k \<noteq> v) (the_set t (pkt_addr (lr_pkt x)))) \<and>
     (\<forall>y :: 's line_req. line_key t y \<in> K \<longrightarrow> find_line t y \<noteq> None)"
proof -
  let ?ws = "the_set t (pkt_addr (lr_pkt x))"
  let ?F = "set (takeWhile (\<lambda>k. k \<noteq> v) ?ws)"
  have "\<forall>j \<in> ?F. \<exists>y \<in> ys. find_line t y = Some j" using r by (simp add: recent_def)
  then obtain h where h: "\<And>j. j \<in> ?F \<Longrightarrow> h j \<in> ys \<and> find_line t (h j) = Some j" by metis
  have inj: "inj_on (\<lambda>j. line_key t (h j)) ?F"
  proof (rule inj_onI)
    fix i j assume ij: "i \<in> ?F" "j \<in> ?F" "line_key t (h i) = line_key t (h j)"
    have "find_line t (h i) = find_line t (h j)" by (rule find_line_key [OF inv ij(3)])
    then show "i = j" using h [OF ij(1)] h [OF ij(2)] by simp
  qed
  have sub: "line_key t (h j) \<in> rivals t x ys" if j: "j \<in> ?F" for j
  proof -
    have jw: "j \<in> set ?ws" "j \<noteq> v" using j by (auto dest: set_takeWhileD)
    have "line_key t (h j) \<noteq> line_key t x"
      using h [OF j] jw(2) find_line_key [OF inv, of "h j" x] r by (auto simp: recent_def)
    then show ?thesis using h [OF j] find_line_set [OF inv _ jw(1), of "h j"] by (auto simp: rivals_def)
  qed
  have "distinct ?ws" using inv the_set_facts(2) by (auto simp: tags_inv_def)
  then have "card ?F = length (takeWhile (\<lambda>k. k \<noteq> v) ?ws)" by (intro distinct_card distinct_takeWhile)
  then have "card ((\<lambda>j. line_key t (h j)) ` ?F) = length (takeWhile (\<lambda>k. k \<noteq> v) ?ws)"
    using card_image [OF inj] by simp
  moreover have "find_line t y \<noteq> None" if "line_key t y \<in> (\<lambda>j. line_key t (h j)) ` ?F" for y :: "'s line_req"
    using that h find_line_key [OF inv, of y] by fastforce
  ultimately show ?thesis using sub by (intro exI [of _ "(\<lambda>j. line_key t (h j)) ` ?F"]) auto
qed

lemma takeWhile_move:
  assumes "v \<noteq> k"
  shows "set (takeWhile (\<lambda>x. x \<noteq> v) (k # remove1 k ws)) \<subseteq> insert k (set (takeWhile (\<lambda>x. x \<noteq> v) ws))"
proof -
  have "set (takeWhile (\<lambda>x. x \<noteq> v) (remove1 k ws)) \<subseteq> set (takeWhile (\<lambda>x. x \<noteq> v) ws)" for ws
    by (induction ws) (use assms in auto)
  then show ?thesis using assms by auto
qed

lemma recent_move:
  fixes x y :: "'s line_req"
  assumes inv: "tags_inv t" and r: "recent t x v ys" and ne: "v \<noteq> k"
    and fx: "find_line t' x = Some v" and fy: "find_line t' y = Some k"
    and keep: "\<And>(z :: 's line_req) j. find_line t z = Some j \<Longrightarrow> j \<noteq> k \<Longrightarrow> find_line t' z = Some j"
    and ex: "extractSet t' = extractSet t"
    and sets: "ts_sets t' = (ts_sets t)[unat (extractSet t a) := k # remove1 k (the_set t a)]"
  shows "recent t' x v (insert y ys)"
proof -
  let ?x = "pkt_addr (lr_pkt x)"
  let ?F = "\<lambda>t. set (takeWhile (\<lambda>j. j \<noteq> v) (the_set t ?x))"
  have b: "unat (extractSet t a) < length (ts_sets t)" using inv the_set_facts(1) by (auto simp: tags_inv_def)
  have sub: "?F t' \<subseteq> insert k (?F t)"
  proof (cases "unat (extractSet t ?x) = unat (extractSet t a)")
    case True
    then have "the_set t' ?x = k # remove1 k (the_set t ?x)" using b by (simp add: ex sets)
    then show ?thesis using takeWhile_move [OF ne] by simp
  next
    case False
    then have "the_set t' ?x = the_set t ?x" by (simp add: ex sets)
    then show ?thesis by auto
  qed
  have "\<exists>z \<in> insert y ys. find_line t' z = Some j" if "j \<in> ?F t'" for j
  proof (cases "j = k")
    case True
    then show ?thesis using fy by blast
  next
    case False
    then have "j \<in> ?F t" using sub that by blast
    then obtain z where "z \<in> ys" "find_line t z = Some j" using r by (auto simp: recent_def)
    then show ?thesis using keep [OF _ False] by blast
  qed
  then show ?thesis using fx by (simp add: recent_def)
qed

lemma last_takeWhile:
  "ws \<noteq> [] \<Longrightarrow> distinct ws \<Longrightarrow> length (takeWhile (\<lambda>j. j \<noteq> last ws) ws) = length ws - 1"
  by (induction ws) auto

lemma recent_not_victim:
  fixes x :: "'s line_req"
  assumes inv: "tags_inv t" and r: "recent t x v ys" and fin: "finite ys" and miss: "find_line t y = None"
    and few: "card (rivals t x (insert y ys)) < unat (ts_assoc t)"
  shows "v \<noteq> last (the_set t (pkt_addr (lr_pkt y)))"
proof
  let ?wx = "the_set t (pkt_addr (lr_pkt x))" and ?wy = "the_set t (pkt_addr (lr_pkt y))"
  assume v: "v = last ?wy"
  have s: "tags_struct t" using inv by (simp add: tags_inv_def)
  have fx: "find_line t x = Some v" using r by (simp add: recent_def)
  have "v \<in> set ?wy" using lru_victim(2) [OF s] v by simp
  then have set_eq: "extractSet t (pkt_addr (lr_pkt x)) = extractSet t (pkt_addr (lr_pkt y))"
    by (rule find_line_set [OF inv fx])
  have ky: "line_key t y \<noteq> line_key t x" using find_line_key [OF inv, of y x] fx miss by auto
  obtain K where K: "K \<subseteq> rivals t x ys" "card K = length (takeWhile (\<lambda>k. k \<noteq> v) ?wx)" "line_key t y \<notin> K"
    using recent_rivals [OF inv r] miss by blast
  have "?wx \<noteq> []" using set_length [OF s, of "pkt_addr (lr_pkt x)"] s by (auto simp: tags_struct_def)
  then have "card K = unat (ts_assoc t) - 1"
    using K(2) last_takeWhile [of ?wx] set_length [OF s, of "pkt_addr (lr_pkt x)"]
      the_set_facts(2) [OF s, of "pkt_addr (lr_pkt x)"] v set_eq by simp
  moreover have fK: "finite K" using K(1) fin by (auto simp: rivals_def intro: finite_subset)
  moreover have "insert (line_key t y) K \<subseteq> rivals t x (insert y ys)"
    using K(1) ky set_eq by (auto simp: rivals_def)
  then have "card (insert (line_key t y) K) \<le> card (rivals t x (insert y ys))"
    using fin by (intro card_mono) (auto simp: rivals_def)
  ultimately show False using few K(3) by simp
qed

lemma recent_touch:
  fixes x y :: "'s line_req"
  assumes inv: "tags_inv t" and ok: "line_ok t y" and r: "recent t x v ys" and fin: "finite ys"
    and few: "card (rivals t x (insert y ys)) < unat (ts_assoc t)"
  shows "\<exists>t'. touch_line find_line (lru_hit_line ttc) lru_fill_line t y = Inr t' \<and> tags_inv t' \<and>
     recent t' x v (insert y ys) \<and> rivals t' x = rivals t x \<and> line_ok t' = (line_ok t :: 's line_req \<Rightarrow> bool) \<and>
     ts_assoc t' = ts_assoc t"
proof (cases "find_line t y")
  case (Some k)
  obtain t' where t': "lru_hit_line ttc t y = Inr t'" "tags_inv t'" "line_ok t' = (line_ok t :: 's line_req \<Rightarrow> bool)"
      "find_line t' = (find_line t :: 's line_req \<Rightarrow> nat option)" "extractSet t' = extractSet t"
      "blkAlign t' = blkAlign t" "ts_assoc t' = ts_assoc t"
      "ts_sets t' = (ts_sets t)[unat (extractSet t (pkt_addr (lr_pkt y))) :=
         k # remove1 k (the_set t (pkt_addr (lr_pkt y)))]"
    using lru_hit_moves [OF inv Some, of ttc] by auto
  have fx: "find_line t x = Some v" using r by (simp add: recent_def)
  have "recent t' x v (insert y ys)"
  proof (cases "v = k")
    case True
    have "extractSet t (pkt_addr (lr_pkt x)) = extractSet t (pkt_addr (lr_pkt y))"
      using find_line_set [OF inv fx] find_line_mem [OF inv Some] True by simp
    moreover have "unat (extractSet t (pkt_addr (lr_pkt y))) < length (ts_sets t)"
      using inv the_set_facts(1) by (auto simp: tags_inv_def)
    ultimately show ?thesis using True fx t'(4) by (simp add: recent_def t'(5,8))
  next
    case False
    show ?thesis by (rule recent_move [OF inv r False _ _ _ t'(5,8)]) (use t'(4) r Some in \<open>auto simp: recent_def\<close>)
  qed
  then show ?thesis using t' Some by (simp add: touch_line_def rivals_def line_key_def fun_eq_iff)
next
  case None
  let ?k = "last (the_set t (pkt_addr (lr_pkt y)))"
  obtain t' where t': "lru_fill_line t y = Inr t'" "tags_inv t'" "line_ok t' = (line_ok t :: 's line_req \<Rightarrow> bool)"
      "\<And>z :: 's line_req. find_line t' z = (if same_line t z y then Some ?k
          else if find_line t z = Some ?k then None else find_line t z)" "extractSet t' = extractSet t"
      "blkAlign t' = blkAlign t" "ts_assoc t' = ts_assoc t"
      "ts_sets t' = (ts_sets t)[unat (extractSet t (pkt_addr (lr_pkt y))) :=
         ?k # remove1 ?k (the_set t (pkt_addr (lr_pkt y)))]"
    using lru_fill_moves [OF inv ok None refl] by auto
  have ne: "v \<noteq> ?k" by (rule recent_not_victim [OF inv r fin None few])
  have nl: "\<not> same_line t z y" if "find_line t z = Some j" for z :: "'s line_req" and j
    using find_line_key [OF inv, of z y] that None by (auto simp: same_line_key)
  have "recent t' x v (insert y ys)"
  proof (rule recent_move [OF inv r ne _ _ _ t'(5,8)])
    show "find_line t' x = Some v" using t'(4) [of x] nl ne r by (auto simp: recent_def)
    show "find_line t' y = Some ?k" using t'(4) [of y] by (simp add: same_line_def)
    show "find_line t' z = Some j" if "find_line t z = Some j" "j \<noteq> ?k" for z :: "'s line_req" and j
      using t'(4) [of z] nl [OF that(1)] that by simp
  qed
  then show ?thesis using t' None by (simp add: touch_line_def rivals_def line_key_def fun_eq_iff)
qed

lemma recent_touches:
  fixes x :: "'s line_req"
  assumes "tags_inv t" "list_all (line_ok t) zs" "recent t x v ys" "finite ys"
    and "card (rivals t x (ys \<union> set zs)) < unat (ts_assoc t)"
  shows "\<exists>t'. touch_lines find_line (lru_hit_line ttc) lru_fill_line t zs = Inr t' \<and> find_line t' x = Some v"
  using assms
proof (induction zs arbitrary: t ys)
  case Nil
  then show ?case by (simp add: recent_def)
next
  case (Cons z zs)
  have "card (rivals t x (insert z ys)) \<le> card (rivals t x (ys \<union> set (z # zs)))"
    using Cons.prems(4) by (intro card_mono) (auto simp: rivals_def)
  then have few: "card (rivals t x (insert z ys)) < unat (ts_assoc t)" using Cons.prems(5) by linarith
  have ok: "line_ok t z" using Cons.prems(2) by simp
  obtain t1 where t1: "touch_line find_line (lru_hit_line ttc) lru_fill_line t z = Inr t1" "tags_inv t1"
     "recent t1 x v (insert z ys)" "rivals t1 x = rivals t x" "line_ok t1 = (line_ok t :: 's line_req \<Rightarrow> bool)"
     "ts_assoc t1 = ts_assoc t"
    using recent_touch [OF Cons.prems(1) ok Cons.prems(3,4) few, of ttc] by blast
  have "\<exists>t'. touch_lines find_line (lru_hit_line ttc) lru_fill_line t1 zs = Inr t' \<and> find_line t' x = Some v"
    using t1 Cons.prems by (intro Cons.IH [of t1 "insert z ys"]) simp_all
  then show ?case using t1(1) by simp
qed

lemma recent_start:
  fixes x :: "'s line_req"
  assumes inv: "tags_inv t" and ok: "line_ok t x"
  shows "\<exists>t' v. touch_line find_line (lru_hit_line ttc) lru_fill_line t x = Inr t' \<and> tags_inv t' \<and>
     recent t' x v {} \<and> rivals t' x = rivals t x \<and> line_ok t' = (line_ok t :: 's line_req \<Rightarrow> bool) \<and>
     ts_assoc t' = ts_assoc t"
proof -
  let ?a = "pkt_addr (lr_pkt x)"
  have b: "unat (extractSet t ?a) < length (ts_sets t)" using inv the_set_facts(1) by (auto simp: tags_inv_def)
  show ?thesis
  proof (cases "find_line t x")
    case (Some k)
    obtain t' where t': "lru_hit_line ttc t x = Inr t'" "tags_inv t'" "line_ok t' = (line_ok t :: 's line_req \<Rightarrow> bool)"
        "find_line t' = (find_line t :: 's line_req \<Rightarrow> nat option)" "extractSet t' = extractSet t"
        "blkAlign t' = blkAlign t" "ts_assoc t' = ts_assoc t"
        "ts_sets t' = (ts_sets t)[unat (extractSet t ?a) := k # remove1 k (the_set t ?a)]"
      using lru_hit_moves [OF inv Some, of ttc] by auto
    then show ?thesis using Some b
      by (intro exI [of _ t'] exI [of _ k]) (simp add: touch_line_def recent_def rivals_def line_key_def fun_eq_iff)
  next
    case None
    let ?k = "last (the_set t ?a)"
    obtain t' where t': "lru_fill_line t x = Inr t'" "tags_inv t'" "line_ok t' = (line_ok t :: 's line_req \<Rightarrow> bool)"
        "find_line t' x = Some ?k" "extractSet t' = extractSet t" "blkAlign t' = blkAlign t" "ts_assoc t' = ts_assoc t"
        "ts_sets t' = (ts_sets t)[unat (extractSet t ?a) := ?k # remove1 ?k (the_set t ?a)]"
      using lru_fill_moves [OF inv ok None refl] by (auto simp: same_line_def)
    then show ?thesis using None b
      by (intro exI [of _ t'] exI [of _ ?k]) (simp add: touch_line_def recent_def rivals_def line_key_def fun_eq_iff)
  qed
qed

section \<open>Reachable LRU stores\<close>

inductive lru_reach :: "nat \<Rightarrow> tags_params \<Rightarrow> tags \<Rightarrow> bool" for masters p where
  init: "new_BaseSetAssoc garbage masters p = Inr t \<Longrightarrow> lru_reach masters p t"
| access: "lru_reach masters p t \<Longrightarrow> lru_accessBlock ttc now t a sec = Inr (r, lat, t') \<Longrightarrow> lru_reach masters p t'"
| fill: "lru_reach masters p t \<Longrightarrow> line_ok t (req :: unit line_req) \<Longrightarrow> find_line t req = None \<Longrightarrow>
    lru_fill_line t req = Inr t' \<Longrightarrow> lru_reach masters p t'"
| evict: "lru_reach masters p t \<Longrightarrow> findBlock t a sec = Some k \<Longrightarrow> lru_evict now t k = Inr t' \<Longrightarrow>
    lru_reach masters p t'"

lemma lru_access_inv:
  assumes inv: "tags_inv t" and acc: "lru_accessBlock ttc now t a sec = Inr (r, lat, t')"
  shows "tags_inv t'"
proof (cases "findBlock t a sec")
  case None
  obtain x l t1 where b: "base_accessBlock ttc now t a sec = (x, l, t1)" by (metis prod_cases3)
  note i = base_access_inv [OF inv b]
  with None acc b show ?thesis by (simp add: lru_accessBlock_def)
next
  case (Some k)
  let ?r = "\<lparr>lr_now = now, lr_draw = 0, lr_pkt = (new_Packet new_Request ReadReq)\<lparr>pkt_addr := a\<rparr>,
     lr_status = if sec then BlkSecure else 0\<rparr> :: unit line_req"
  have "find_line t ?r = Some k" using Some by (cases sec) (simp_all add: find_line_def)
  from lru_hit_moves [OF inv this, of ttc] acc show ?thesis
    by (cases sec) (auto simp: lru_hit_line_def)
qed

lemma lru_reach_inv: "lru_reach masters p t \<Longrightarrow> tags_inv t"
proof (induction rule: lru_reach.induct)
  case (init garbage t)
  then show ?case by (rule new_BaseSetAssoc_inv)
next
  case (access t ttc now a sec r lat t')
  then show ?case using lru_access_inv by blast
next
  case (fill t req t')
  then show ?case using lru_fill_law [of t req] by auto
next
  case (evict t a sec k now t')
  then show ?case using lru_evict_law [of t a sec k now] by auto
qed

section \<open>Properties\<close>

abbreviation demo_params :: tags_params where
  "demo_params \<equiv> \<lparr>p_size = 8, p_block_size = 4, p_assoc = 2, p_hit_latency = 1, p_sequential_access = False\<rparr>"

lemma demo_tags:
  "\<exists>t. new_BaseSetAssoc (\<lambda>_. 0) 1 demo_params = Inr t \<and> maxMasters t = 1 \<and> ts_assoc t = 2"
proof -
  have "floorLog2 4 = Inr 2" using floorLog2_power2 [of 2] by simp
  moreover have "floorLog2 1 = Inr 0" using floorLog2_power2 [of 0] by simp
  moreover have "isPowerOf2 (4 :: 32 word)" "isPowerOf2 (1 :: 32 word)"
    by (simp_all add: isPowerOf2_def leastSigBit_def)
  ultimately show ?thesis by (simp add: new_BaseSetAssoc_def Let_def)
qed

text \<open>
  C34: splitting an address into tag and set loses nothing but the offset in the block. For every tag store the
  constructor accepts, regenerating an address from the tag and set of \<open>a\<close> gives \<open>a\<close> aligned to its block, the set
  index is in range, and two addresses have the same tag and set exactly if they lie in the same block.
\<close>

theorem regenerateBlkAddr_roundtrip:
  assumes "new_BaseSetAssoc garbage masters p = Inr t"
  shows "regenerateBlkAddr t (extractTag t a) (extractSet t a) = blkAlign t a \<and>
     unat (extractSet t a) < unat (numSets t) \<and>
     (extractTag t a = extractTag t b \<and> extractSet t a = extractSet t b \<longleftrightarrow> blkAlign t a = blkAlign t b)"
proof -
  have "tags_geom t" using new_BaseSetAssoc_inv [OF assms] by (simp add: tags_inv_def tags_struct_def)
  then show ?thesis using regenerate_roundtrip extractSet_bound same_block_iff by blast
qed

theorem regenerateBlkAddr_roundtrip_witness:
  "\<exists>t. new_BaseSetAssoc (\<lambda>_. 0) 1 demo_params = Inr t \<and>
     regenerateBlkAddr t (extractTag t 13) (extractSet t 13) = blkAlign t 13"
proof -
  obtain t where t: "new_BaseSetAssoc (\<lambda>_. 0) 1 demo_params = Inr t" using demo_tags by blast
  show ?thesis using t regenerateBlkAddr_roundtrip [OF t, of 13 13] by blast
qed

text \<open>
  C5: however an LRU tag store has been used since construction (hits, misses that fill the victim, evictions of
  present lines), its bookkeeping is exact: \<open>tagsInUse\<close> counts the touched blocks, the occupancy of every master
  counts the valid blocks it brought in, valid blocks are touched and owned by an existing master, and no two
  valid blocks of a set hold the same line.
\<close>

theorem lru_bookkeeping:
  assumes "lru_reach masters p t"
  shows "tagsInUse t = int (touched_count (ts_blks t)) \<and>
     (\<forall>m < maxMasters t. occupancies t ! m = int (owned_count m (ts_blks t))) \<and>
     list_all (blk_accounted (maxMasters t)) (ts_blks t) \<and> tags_unique t"
  using lru_reach_inv [OF assms] by (simp add: tags_inv_def tags_account_def)

theorem lru_bookkeeping_witness:
  "\<exists>t. lru_reach 1 demo_params t \<and> tagsInUse t = int (touched_count (ts_blks t))"
proof -
  obtain t where t: "new_BaseSetAssoc (\<lambda>_. 0) 1 demo_params = Inr t" using demo_tags by blast
  show ?thesis using lru_bookkeeping [OF lru_reach.init [OF t]] lru_reach.init [OF t] by blast
qed

abbreviation demo_line :: "addr \<Rightarrow> unit line_req" where
  "demo_line a \<equiv> \<lparr>lr_now = 0, lr_draw = 0, lr_pkt = createRead (new_Request_phys a 4 0 0 0), lr_status = BlkValid\<rparr>"

lemma demo_line_ok: "maxMasters t = 1 \<Longrightarrow> line_ok t (demo_line a)"
  by (simp add: line_ok_def createRead_def new_Packet_def new_Request_phys_def setPhys_def new_Request_def
      hasPaddr_def hasSize_def Let_def)

text \<open>
  C4: a cache line that was just touched in an LRU store stays until as many other lines of its set have been touched as
  the set has ways: after touching \<open>x\<close> and then any lines \<open>ys\<close> of which fewer than the associativity are distinct
  lines competing for the same set, the line \<open>x\<close> is still found.
\<close>

theorem lru_keeps_recent_lines:
  fixes x :: "unit line_req"
  assumes "lru_reach masters p t" "list_all (line_ok t) (x # ys)"
    and "card (rivals t x (set ys)) < unat (ts_assoc t)"
  shows "\<exists>t'. touch_lines find_line (lru_hit_line ttc) lru_fill_line t (x # ys) = Inr t' \<and> find_line t' x \<noteq> None"
proof -
  obtain t1 v where t1: "touch_line find_line (lru_hit_line ttc) lru_fill_line t x = Inr t1" "tags_inv t1"
     "recent t1 x v {}" "rivals t1 x = rivals t x" "line_ok t1 = (line_ok t :: unit line_req \<Rightarrow> bool)"
     "ts_assoc t1 = ts_assoc t"
    using recent_start [OF lru_reach_inv [OF assms(1)], of x ttc] assms(2) by auto
  have "\<exists>t'. touch_lines find_line (lru_hit_line ttc) lru_fill_line t1 ys = Inr t' \<and> find_line t' x = Some v"
    using t1 assms by (intro recent_touches [of _ _ _ _ "{}"]) simp_all
  then show ?thesis using t1(1) by auto
qed

theorem lru_keeps_recent_lines_witness:
  "\<exists>t t'. new_BaseSetAssoc (\<lambda>_. 0) 1 demo_params = Inr t \<and>
     touch_lines find_line (lru_hit_line (\<lambda>x. x)) lru_fill_line t [demo_line 0, demo_line 4] = Inr t' \<and>
     find_line t' (demo_line 0) \<noteq> None"
proof -
  obtain t where t: "new_BaseSetAssoc (\<lambda>_. 0) 1 demo_params = Inr t" "maxMasters t = 1" "ts_assoc t = 2"
    using demo_tags by blast
  have "card (rivals t (demo_line 0) {demo_line 4}) \<le> card (line_key t ` {demo_line 4})"
    by (intro card_mono) (auto simp: rivals_def)
  then have "card (rivals t (demo_line 0) (set [demo_line 4])) < unat (ts_assoc t)" using t(3) by simp
  then show ?thesis
    using lru_keeps_recent_lines [OF lru_reach.init [OF t(1)], of "demo_line 0" "[demo_line 4]" "\<lambda>x. x"]
      t(1) demo_line_ok [OF t(2)] by fastforce
qed

lemma new_find_None: "new_BaseSetAssoc garbage masters p = Inr t \<Longrightarrow> find_line t r = None"
proof -
  assume n: "new_BaseSetAssoc garbage masters p = Inr t"
  then have s: "tags_struct t" and "tagsInUse t = 0" and acc: "tags_account t"
    using new_BaseSetAssoc_inv [OF n]
    by (auto simp: tags_inv_def new_BaseSetAssoc_def Let_def split: if_splits)
  then have "touched_count (ts_blks t) = 0" by (simp add: tags_account_def)
  then have "\<not> blk_isValid b" if "b \<in> set (ts_blks t)" for b
    using acc that by (auto simp: touched_count_def tags_account_def list_all_iff blk_accounted_def
        filter_empty_conv split: if_splits)
  then show "find_line t r = None"
    using the_set_bound [OF s] unfolding find_line_def findBlock_None_iff blk_matches_def
    by (meson nth_mem)
qed

text \<open>
  C16: a cache with random replacement holds what was asked for and nothing else. Whatever the random draws, after touching
  any sequence of lines of a freshly constructed store the last one is present, and every line that is present is
  one of those touched.
\<close>

theorem random_store_contents:
  fixes k :: "unit line_req"
  assumes "new_BaseSetAssoc garbage masters p = Inr t" "list_all (line_ok t) (ks @ [k])"
  shows "\<exists>t'. touch_lines find_line (rnd_hit_line ttc) rnd_fill_line t (ks @ [k]) = Inr t' \<and>
     find_line t' k \<noteq> None \<and> (\<forall>k'. find_line t' k' \<noteq> None \<longrightarrow> (\<exists>x \<in> set (ks @ [k]). same_line t k' x))"
  using rnd.touched_present [OF new_BaseSetAssoc_inv [OF assms(1)] assms(2), of ttc]
    new_find_None [OF assms(1)] by metis

theorem random_store_contents_witness:
  "\<exists>t t'. new_BaseSetAssoc (\<lambda>_. 0) 1 demo_params = Inr t \<and>
     touch_lines find_line (rnd_hit_line (\<lambda>x. x)) rnd_fill_line t ([demo_line 0, demo_line 4] @ [demo_line 8]) = Inr t' \<and>
     find_line t' (demo_line 8) \<noteq> None"
proof -
  obtain t where t: "new_BaseSetAssoc (\<lambda>_. 0) 1 demo_params = Inr t" "maxMasters t = 1" "ts_assoc t = 2"
    using demo_tags by blast
  have "list_all (line_ok t) ([demo_line 0, demo_line 4] @ [demo_line 8])" using demo_line_ok [OF t(2)] by simp
  from random_store_contents [OF t(1) this, of "\<lambda>x. x"] t(1) show ?thesis by blast
qed

end
