(* ===== verification/MSHR.thy ===== *)
theory MSHR
  imports Packet
begin

text \<open>
  Miss status holding registers, \<open>src/gem5_src/mem/cache/mshr.hh\<close> and \<open>mshr.cc\<close>. The registers of all caches live in one
  heap, a list indexed by register number, because a register reaches into those of the caches above it: a packet's
  sender states name the registers it came through, and adding or serving a target sets or clears their
  \<open>downstreamPending\<close> flags. A packet held by a target is owned by it. The recursive clearing takes fuel; one more than the
  number of pending registers is always enough.
\<close>

section \<open>State\<close>

datatype sender = MSHR_State nat | Other_State

datatype tgt_source = FromCPU | FromSnoop | FromPrefetcher

record target =
  recvTime :: tick
  tgt_readyTime :: tick
  tgt_order :: "64 word"
  tgt_pkt :: "sender packet"
  tgt_source :: tgt_source
  markedPending :: bool

record target_list =
  tl_targets :: "target list"
  tl_needsExclusive :: bool
  tl_hasUpgrade :: bool

record mshr =
  readyTime :: tick
  mshr_isUncacheable :: bool
  downstreamPending :: bool
  pendingDirty :: bool
  postInvalidate :: bool
  postDowngrade :: bool
  mshr_order :: "64 word"
  mshr_blkAddr :: addr
  mshr_blkSize :: "32 word"
  mshr_isSecure :: bool
  inService :: bool
  isForward :: bool
  threadNum :: "16 word"
  targets :: target_list
  deferredTargets :: target_list

type_synonym heap = "mshr list"

definition new_TargetList :: target_list where
  "new_TargetList = \<lparr>tl_targets = [], tl_needsExclusive = False, tl_hasUpgrade = False\<rparr>"

definition new_MSHR :: mshr where
  "new_MSHR = \<lparr>readyTime = 0, mshr_isUncacheable = False, downstreamPending = False, pendingDirty = False,
     postInvalidate = False, postDowngrade = False, mshr_order = 0, mshr_blkAddr = 0, mshr_blkSize = 0,
     mshr_isSecure = False, inService = False, isForward = False, threadNum = - 1,
     targets = new_TargetList, deferredTargets = new_TargetList\<rparr>"

definition tl_resetFlags :: "target_list \<Rightarrow> target_list" where
  "tl_resetFlags tgts = tgts\<lparr>tl_needsExclusive := False, tl_hasUpgrade := False\<rparr>"

definition tl_isReset :: "target_list \<Rightarrow> bool" where
  "tl_isReset tgts \<longleftrightarrow> \<not> tl_needsExclusive tgts \<and> \<not> tl_hasUpgrade tgts"

section \<open>Target lists\<close>

definition is_mshr_state :: "sender \<Rightarrow> bool" where
  "is_mshr_state s \<longleftrightarrow> (case s of MSHR_State _ \<Rightarrow> True | Other_State \<Rightarrow> False)"

definition sender_mshr :: "sender packet \<Rightarrow> nat option" where
  "sender_mshr p = (case findNextSenderState is_mshr_state p of Some (MSHR_State i) \<Rightarrow> Some i | _ \<Rightarrow> None)"

definition tl_add ::
    "tick \<Rightarrow> heap \<Rightarrow> target_list \<Rightarrow> sender packet \<Rightarrow> tick \<Rightarrow> 64 word \<Rightarrow> tgt_source \<Rightarrow> bool \<Rightarrow> (heap \<times> target_list) res" where
  "tl_add now h tgts pkt rt ord src markPending =
     (let tgts = (if src \<noteq> FromSnoop then
                  tgts\<lparr>tl_needsExclusive := tl_needsExclusive tgts \<or> needsExclusive (pkt_cmd pkt),
                     tl_hasUpgrade := tl_hasUpgrade tgts \<or> isUpgrade (pkt_cmd pkt) \<or> pkt_cmd pkt = StoreCondReq\<rparr>
                else tgts) in
      bindE (if markPending then
               (case sender_mshr pkt of
                  None \<Rightarrow> Inr h
                | Some i \<Rightarrow> bindE (vec_get h i) (\<lambda>m. bindE (assertE (\<not> downstreamPending m)) (\<lambda>_.
                    Inr (h[i := m\<lparr>downstreamPending := True\<rparr>]))))
             else Inr h) (\<lambda>h.
      Inr (h, tgts\<lparr>tl_targets := tl_targets tgts @
        [\<lparr>recvTime = now, tgt_readyTime = rt, tgt_order = ord, tgt_pkt = pkt, tgt_source = src,
          markedPending = markPending\<rparr>]\<rparr>)))"

definition replaceUpgrade :: "sender packet \<Rightarrow> sender packet" where
  "replaceUpgrade p =
     (if pkt_cmd p = UpgradeReq then p\<lparr>pkt_cmd := ReadExReq\<rparr>
      else if pkt_cmd p = SCUpgradeReq then p\<lparr>pkt_cmd := SCUpgradeFailReq\<rparr>
      else if pkt_cmd p = StoreCondReq then p\<lparr>pkt_cmd := StoreCondFailReq\<rparr>
      else p)"

definition replaceUpgrades :: "target_list \<Rightarrow> target_list" where
  "replaceUpgrades tgts =
     (if \<not> tl_hasUpgrade tgts then tgts
      else tgts\<lparr>tl_targets := map (\<lambda>t. t\<lparr>tgt_pkt := replaceUpgrade (tgt_pkt t)\<rparr>) (tl_targets tgts),
              tl_hasUpgrade := False\<rparr>)"

fun clearDownstreamPending :: "nat \<Rightarrow> heap \<Rightarrow> nat \<Rightarrow> heap res"
  and tl_clearDownstreamPending :: "nat \<Rightarrow> heap \<Rightarrow> target list \<Rightarrow> heap res" where
  "clearDownstreamPending 0 h i = Inl Out_Of_Fuel"
| "clearDownstreamPending (Suc n) h i =
     bindE (vec_get h i) (\<lambda>m.
     bindE (assertE (downstreamPending m)) (\<lambda>_.
     tl_clearDownstreamPending n (h[i := m\<lparr>downstreamPending := False\<rparr>]) (tl_targets (targets m))))"
| "tl_clearDownstreamPending n h [] = Inr h"
| "tl_clearDownstreamPending n h (t # ts) =
     bindE (if markedPending t then
              (case sender_mshr (tgt_pkt t) of None \<Rightarrow> Inr h | Some i \<Rightarrow> clearDownstreamPending n h i)
            else Inr h) (\<lambda>h. tl_clearDownstreamPending n h ts)"

fun tl_checkFunctional :: "sender packet \<Rightarrow> target list \<Rightarrow> (bool \<times> sender packet \<times> target list) res" where
  "tl_checkFunctional p [] = Inr (False, p, [])"
| "tl_checkFunctional p (t # ts) =
     bindE (checkFunctional_packet p (tgt_pkt t)) (\<lambda>(ok, p, q).
     if ok then Inr (True, p, t\<lparr>tgt_pkt := q\<rparr> # ts)
     else bindE (tl_checkFunctional p ts) (\<lambda>(ok, p, ts). Inr (ok, p, t\<lparr>tgt_pkt := q\<rparr> # ts)))"

section \<open>Registers\<close>

definition mshr_needsExclusive :: "mshr \<Rightarrow> bool" where
  "mshr_needsExclusive m = tl_needsExclusive (targets m)"

definition isPendingDirty :: "mshr \<Rightarrow> bool res" where
  "isPendingDirty m = bindE (assertE (inService m)) (\<lambda>_. Inr (pendingDirty m))"

definition hasPostInvalidate :: "mshr \<Rightarrow> bool res" where
  "hasPostInvalidate m = bindE (assertE (inService m)) (\<lambda>_. Inr (postInvalidate m))"

definition hasPostDowngrade :: "mshr \<Rightarrow> bool res" where
  "hasPostDowngrade m = bindE (assertE (inService m)) (\<lambda>_. Inr (postDowngrade m))"

definition getNumTargets :: "mshr \<Rightarrow> nat" where
  "getNumTargets m = length (tl_targets (targets m)) + length (tl_targets (deferredTargets m))"

definition hasTargets :: "mshr \<Rightarrow> bool" where
  "hasTargets m \<longleftrightarrow> tl_targets (targets m) \<noteq> []"

definition getTarget :: "mshr \<Rightarrow> target res" where
  "getTarget m = bindE (assertE (hasTargets m)) (\<lambda>_. vec_get (tl_targets (targets m)) 0)"

definition popTarget :: "mshr \<Rightarrow> mshr res" where
  "popTarget m = (case tl_targets (targets m) of
     [] \<Rightarrow> Inl Out_Of_Bounds
   | _ # ts \<Rightarrow> Inr (m\<lparr>targets := (targets m)\<lparr>tl_targets := ts\<rparr>\<rparr>))"

definition isForwardNoResponse :: "mshr \<Rightarrow> bool res" where
  "isForwardNoResponse m =
     (if getNumTargets m \<noteq> 1 then Inr False
      else bindE (vec_get (tl_targets (targets m)) 0) (\<lambda>t.
        Inr (tgt_source t = FromCPU \<and> \<not> needsResponse (pkt_cmd (tgt_pkt t)))))"

definition put_mshr :: "heap \<Rightarrow> nat \<Rightarrow> (mshr \<Rightarrow> mshr) \<Rightarrow> heap" where
  "put_mshr h i f = h[i := f (h ! i)]"

definition mshr_allocate ::
    "tick \<Rightarrow> heap \<Rightarrow> nat \<Rightarrow> addr \<Rightarrow> 32 word \<Rightarrow> sender packet \<Rightarrow> tick \<Rightarrow> 64 word \<Rightarrow> heap res" where
  "mshr_allocate now h i blk_addr blk_size pkt when_ready ord =
     bindE (vec_get h i) (\<lambda>m.
     bindE (isSecure pkt) (\<lambda>sec.
     (let m = m\<lparr>mshr_blkAddr := blk_addr, mshr_blkSize := blk_size, mshr_isSecure := sec,
                readyTime := when_ready, mshr_order := ord, isForward := False,
                mshr_isUncacheable := req_isUncacheable (pkt_req pkt), inService := False,
                downstreamPending := False, threadNum := 0\<rparr> in
      bindE (assertE (tl_isReset (targets m))) (\<lambda>_.
      bindE (tl_add now (h[i := m]) (targets m) pkt when_ready ord
               (if pkt_cmd pkt = HardPFReq then FromPrefetcher else FromCPU) True) (\<lambda>(h, tgts).
      bindE (assertE (tl_isReset (deferredTargets (h ! i)))) (\<lambda>_.
      Inr (put_mshr h i (\<lambda>m. m\<lparr>targets := tgts\<rparr>))))))))"

definition mshr_markInService :: "nat \<Rightarrow> heap \<Rightarrow> nat \<Rightarrow> bool \<Rightarrow> (bool \<times> heap) res" where
  "mshr_markInService fuel h i pending_dirty_resp =
     bindE (vec_get h i) (\<lambda>m.
     bindE (assertE (\<not> inService m)) (\<lambda>_.
     bindE (isForwardNoResponse m) (\<lambda>fwd.
     if fwd then
       bindE (assertE (getNumTargets m = 1)) (\<lambda>_.
       bindE (popTarget m) (\<lambda>m. Inr (True, h[i := m])))
     else
       (let m = m\<lparr>inService := True, pendingDirty := tl_needsExclusive (targets m) \<or> pending_dirty_resp,
                  postInvalidate := False, postDowngrade := False\<rparr>;
            h = h[i := m] in
        bindE (if \<not> downstreamPending m
               then tl_clearDownstreamPending fuel h (tl_targets (targets m)) else Inr h)
          (\<lambda>h. Inr (False, h))))))"

definition mshr_deallocate :: "mshr \<Rightarrow> mshr res" where
  "mshr_deallocate m =
     bindE (assertE (tl_targets (targets m) = [])) (\<lambda>_.
     (let m = m\<lparr>targets := tl_resetFlags (targets m)\<rparr> in
      bindE (assertE (tl_isReset (deferredTargets m))) (\<lambda>_. Inr (m\<lparr>inService := False\<rparr>))))"

definition must_defer :: "mshr \<Rightarrow> sender packet \<Rightarrow> bool" where
  "must_defer m pkt \<longleftrightarrow> inService m \<and>
     (tl_targets (deferredTargets m) \<noteq> [] \<or> postInvalidate m \<or>
      (needsExclusive (pkt_cmd pkt) \<and> (\<not> pendingDirty m \<or> postDowngrade m \<or> isForward m)))"

definition allocateTarget :: "tick \<Rightarrow> heap \<Rightarrow> nat \<Rightarrow> sender packet \<Rightarrow> tick \<Rightarrow> 64 word \<Rightarrow> heap res" where
  "allocateTarget now h i pkt whenReady ord =
     bindE (assertE (pkt_cmd pkt \<noteq> HardPFReq)) (\<lambda>_.
     bindE (vec_get h i) (\<lambda>m.
     bindE (assertE (\<not> mshr_isUncacheable m)) (\<lambda>_.
     if must_defer m pkt then
       (let pkt = (if postInvalidate m then replaceUpgrade pkt else pkt) in
        bindE (tl_add now h (deferredTargets m) pkt whenReady ord FromCPU True) (\<lambda>(h, tgts).
        Inr (put_mshr h i (\<lambda>m. m\<lparr>deferredTargets := tgts\<rparr>))))
     else
       bindE (tl_add now h (targets m) pkt whenReady ord FromCPU (\<not> inService m)) (\<lambda>(h, tgts).
       Inr (put_mshr h i (\<lambda>m. m\<lparr>targets := tgts\<rparr>))))))"

text \<open>The part of \<open>handleSnoop\<close> that saves the snooped packet for a register whose request precedes it.\<close>

definition save_snoop ::
    "(nat \<Rightarrow> 8 word) \<Rightarrow> tick \<Rightarrow> heap \<Rightarrow> nat \<Rightarrow> sender packet \<Rightarrow> 64 word \<Rightarrow> (sender packet \<times> heap) res" where
  "save_snoop garbage now h i pkt ord =
     bindE (if pendingDirty (h ! i) then
              bindE (copy_Packet garbage pkt True True) (\<lambda>cp_pkt.
              bindE (assertMemInhibit pkt) (\<lambda>pkt. Inr (cp_pkt, setSupplyExclusive pkt)))
            else Inr (new_Packet (pkt_req pkt) (pkt_cmd pkt), pkt)) (\<lambda>(cp_pkt, pkt).
     bindE (tl_add now h (targets (h ! i)) cp_pkt now ord FromSnoop
              (downstreamPending (h ! i) \<and> tl_needsExclusive (targets (h ! i)))) (\<lambda>(h, tgts).
     (let h = put_mshr h i (\<lambda>m. m\<lparr>targets := tgts\<rparr>);
          h = (if needsExclusive (pkt_cmd pkt)
               then put_mshr h i (\<lambda>m. m\<lparr>postInvalidate := True\<rparr>) else h)
      in Inr (pkt, h))))"

definition mshr_handleSnoop ::
    "(nat \<Rightarrow> 8 word) \<Rightarrow> tick \<Rightarrow> heap \<Rightarrow> nat \<Rightarrow> sender packet \<Rightarrow> 64 word \<Rightarrow> (bool \<times> sender packet \<times> heap) res" where
  "mshr_handleSnoop garbage now h i pkt ord =
     bindE (vec_get h i) (\<lambda>m.
     if \<not> inService m \<or> (isExpressSnoop pkt \<and> downstreamPending m) then
       Inr (False, pkt, h[i := if needsExclusive (pkt_cmd pkt)
                               then m\<lparr>targets := replaceUpgrades (targets m),
                                      deferredTargets := replaceUpgrades (deferredTargets m)\<rparr>
                               else m])
     else
       (let m = (if needsExclusive (pkt_cmd pkt)
                 then m\<lparr>deferredTargets := replaceUpgrades (deferredTargets m)\<rparr> else m);
            h = h[i := m] in
        bindE (hasPostInvalidate m) (\<lambda>postInv.
        if postInv then Inr (True, pkt, h)
        else
          bindE (isPendingDirty m) (\<lambda>pdirty.
          bindE (if pdirty \<or> isInvalidate (pkt_cmd pkt) then save_snoop garbage now h i pkt ord
                 else Inr (pkt, h)) (\<lambda>(pkt, h).
          if \<not> needsExclusive (pkt_cmd pkt) \<and> \<not> req_isUncacheable (pkt_req pkt)
          then Inr (True, assertShared pkt, put_mshr h i (\<lambda>m. m\<lparr>postDowngrade := True\<rparr>))
          else Inr (True, pkt, h))))))"

definition promoteDeferredTargets :: "tick \<Rightarrow> mshr \<Rightarrow> (bool \<times> mshr) res" where
  "promoteDeferredTargets now m =
     bindE (assertE (tl_targets (targets m) = [])) (\<lambda>_.
     case tl_targets (deferredTargets m) of
       [] \<Rightarrow> Inr (False, m)
     | t # _ \<Rightarrow>
         Inr (True, m\<lparr>targets := deferredTargets m, deferredTargets := tl_resetFlags (targets m),
                      mshr_order := tgt_order t, readyTime := max now (tgt_readyTime t)\<rparr>))"

definition mshr_handleFill :: "nat \<Rightarrow> heap \<Rightarrow> nat \<Rightarrow> sender packet \<Rightarrow> heap res" where
  "mshr_handleFill fuel h i pkt =
     bindE (vec_get h i) (\<lambda>m.
     bindE (if \<not> sharedAsserted pkt then
              bindE (hasPostInvalidate m) (\<lambda>pi.
              if pi then Inr False else bindE (hasPostDowngrade m) (\<lambda>pd.
              Inr (\<not> pd \<and> tl_needsExclusive (deferredTargets m))))
            else Inr False) (\<lambda>c.
     if c then
       bindE (assertE (\<not> tl_needsExclusive (targets m))) (\<lambda>_.
       bindE (assertE (\<not> downstreamPending m)) (\<lambda>_.
       bindE (tl_clearDownstreamPending fuel h (tl_targets (deferredTargets m))) (\<lambda>h.
       Inr (put_mshr h i (\<lambda>m. m\<lparr>
         targets := (targets m)\<lparr>tl_needsExclusive := True,
           tl_targets := tl_targets (targets m) @ tl_targets (deferredTargets m)\<rparr>,
         deferredTargets := tl_resetFlags ((deferredTargets m)\<lparr>tl_targets := []\<rparr>)\<rparr>)))))
     else Inr h))"

definition mshr_checkFunctional :: "mshr \<Rightarrow> sender packet \<Rightarrow> (bool \<times> sender packet \<times> mshr) res" where
  "mshr_checkFunctional m pkt =
     (if isPrint (pkt_cmd pkt) then
        bindE (checkFunctional pkt (mshr_blkAddr m) (mshr_isSecure m) (mshr_blkSize m) None) (\<lambda>(_, pkt, _).
        Inr (False, pkt, m))
      else
        bindE (tl_checkFunctional pkt (tl_targets (targets m))) (\<lambda>(ok, pkt, ts).
        (let m = m\<lparr>targets := (targets m)\<lparr>tl_targets := ts\<rparr>\<rparr> in
         if ok then Inr (True, pkt, m)
         else bindE (tl_checkFunctional pkt (tl_targets (deferredTargets m))) (\<lambda>(ok, pkt, ts).
           Inr (ok, pkt, m\<lparr>deferredTargets := (deferredTargets m)\<lparr>tl_targets := ts\<rparr>\<rparr>)))))"

section \<open>Heaps that differ in the pending flags only\<close>

definition pending_eq :: "heap \<Rightarrow> heap \<Rightarrow> bool" where
  "pending_eq h h' \<longleftrightarrow> length h' = length h \<and>
     (\<forall>i < length h. \<exists>b. h' ! i = (h ! i)\<lparr>downstreamPending := b\<rparr>)"

definition pending_count :: "heap \<Rightarrow> nat" where
  "pending_count h = length (filter downstreamPending h)"

lemma pending_eq_refl [simp]: "pending_eq h h"
proof -
  have "\<exists>b. m = m\<lparr>downstreamPending := b\<rparr>" for m :: mshr
    by (rule exI [of _ "downstreamPending m"]) simp
  then show ?thesis by (simp add: pending_eq_def)
qed

lemma pending_eq_trans: "pending_eq a b \<Longrightarrow> pending_eq b c \<Longrightarrow> pending_eq a c"
  unfolding pending_eq_def by fastforce

lemma pending_eq_length: "pending_eq h h' \<Longrightarrow> length h' = length h"
  by (simp add: pending_eq_def)

lemma pending_eq_nth:
  assumes "pending_eq h h'" "i < length h"
  obtains b where "h' ! i = (h ! i)\<lparr>downstreamPending := b\<rparr>"
  using assms by (auto simp: pending_eq_def)

lemma pending_eq_update [simp]: "pending_eq h (h[i := (h ! i)\<lparr>downstreamPending := b\<rparr>])"
  unfolding pending_eq_def
proof (intro conjI allI impI)
  fix j assume "j < length h"
  then show "\<exists>c. h[i := (h ! i)\<lparr>downstreamPending := b\<rparr>] ! j = (h ! j)\<lparr>downstreamPending := c\<rparr>"
    by (intro exI [of _ "if j = i then b else downstreamPending (h ! j)"]) simp
qed simp

lemma filter_update_drop:
  "i < length xs \<Longrightarrow> P (xs ! i) \<Longrightarrow> \<not> P y \<Longrightarrow> length (filter P xs) = Suc (length (filter P (xs[i := y])))"
  by (induction xs arbitrary: i) (auto split: nat.splits simp: less_Suc_eq_0_disj)

lemma pending_count_clear:
  "i < length h \<Longrightarrow> downstreamPending (h ! i) \<Longrightarrow>
   pending_count h = Suc (pending_count (h[i := (h ! i)\<lparr>downstreamPending := False\<rparr>]))"
  unfolding pending_count_def by (rule filter_update_drop) auto

lemma clear_frame:
  "clearDownstreamPending n h i = Inr h' \<Longrightarrow> pending_eq h h' \<and> pending_count h' < pending_count h"
  "tl_clearDownstreamPending n h ts = Inr h' \<Longrightarrow> pending_eq h h' \<and> pending_count h' \<le> pending_count h"
proof (induction n h i and n h ts arbitrary: h' and h'
    rule: clearDownstreamPending_tl_clearDownstreamPending.induct)
  case (2 n h i)
  then have i: "i < length h" "downstreamPending (h ! i)"
    by (auto simp: vec_get_eq_Inr split: if_splits)
  then have "pending_eq (h[i := (h ! i)\<lparr>downstreamPending := False\<rparr>]) h' \<and>
      pending_count h' \<le> pending_count (h[i := (h ! i)\<lparr>downstreamPending := False\<rparr>])"
    using 2 by simp
  then show ?case using pending_count_clear [OF i] by (auto intro: pending_eq_trans [OF pending_eq_update])
next
  case (4 n h t ts)
  then obtain g where g: "(if markedPending t then
       (case sender_mshr (tgt_pkt t) of None \<Rightarrow> Inr h | Some i \<Rightarrow> clearDownstreamPending n h i) else Inr h) = Inr g"
    "tl_clearDownstreamPending n g ts = Inr h'" by auto
  then have "pending_eq h g \<and> pending_count g \<le> pending_count h"
    using 4(1) by (fastforce split: if_splits option.splits)
  then show ?case using 4(2) [OF g(2)] by (meson pending_eq_trans le_trans)
qed simp_all

lemma clear_fuel:
  "pending_count h < n \<Longrightarrow> clearDownstreamPending n h i \<noteq> Inl Out_Of_Fuel"
  "pending_count h < n \<Longrightarrow> tl_clearDownstreamPending n h ts \<noteq> Inl Out_Of_Fuel"
proof (induction n h i and n h ts rule: clearDownstreamPending_tl_clearDownstreamPending.induct)
  case (2 n h i)
  show ?case
  proof (cases "i < length h \<and> downstreamPending (h ! i)")
    case True
    then have "pending_count (h[i := (h ! i)\<lparr>downstreamPending := False\<rparr>]) < n"
      using 2(2) pending_count_clear [of i h] by linarith
    then show ?thesis using 2(1) True by simp
  qed (auto simp: vec_get_def)
next
  case (4 n h t ts)
  let ?s = "if markedPending t then
       (case sender_mshr (tgt_pkt t) of None \<Rightarrow> Inr h | Some i \<Rightarrow> clearDownstreamPending n h i) else Inr h"
  show ?case
  proof (cases ?s)
    case (Inl e)
    then show ?thesis using 4 by (auto split: if_splits option.splits)
  next
    case (Inr g)
    then have "pending_count g \<le> pending_count h"
      using clear_frame(1) by (fastforce split: if_splits option.splits)
    then have "tl_clearDownstreamPending n g ts \<noteq> Inl Out_Of_Fuel" using 4(2,3) by simp
    then show ?thesis using Inr by simp
  qed
qed simp_all

section \<open>The register invariant\<close>

definition from_cpu_side :: "target \<Rightarrow> bool" where
  "from_cpu_side t \<longleftrightarrow> tgt_source t \<noteq> FromSnoop"

definition upgrade_cmd :: "command \<Rightarrow> bool" where
  "upgrade_cmd c \<longleftrightarrow> c = UpgradeReq \<or> c = SCUpgradeReq \<or> c = StoreCondReq"

definition inval_snoop :: "target \<Rightarrow> bool" where
  "inval_snoop t \<longleftrightarrow> tgt_source t = FromSnoop \<and> needsExclusive (pkt_cmd (tgt_pkt t))"

definition excl_covered :: "target_list \<Rightarrow> bool" where
  "excl_covered tgts \<longleftrightarrow> tl_needsExclusive tgts \<or>
     (\<forall>t \<in> set (tl_targets tgts). from_cpu_side t \<longrightarrow> \<not> needsExclusive (pkt_cmd (tgt_pkt t)))"

definition upgrade_covered :: "target_list \<Rightarrow> bool" where
  "upgrade_covered tgts \<longleftrightarrow> tl_hasUpgrade tgts \<or>
     (\<forall>t \<in> set (tl_targets tgts). from_cpu_side t \<longrightarrow> \<not> upgrade_cmd (pkt_cmd (tgt_pkt t)))"

definition mshr_ok :: "mshr \<Rightarrow> bool" where
  "mshr_ok m \<longleftrightarrow>
     excl_covered (targets m) \<and> excl_covered (deferredTargets m) \<and>
     upgrade_covered (deferredTargets m) \<and> (\<not> inService m \<longrightarrow> upgrade_covered (targets m)) \<and>
     (\<forall>t \<in> set (tl_targets (deferredTargets m)). from_cpu_side t) \<and>
     (tl_targets (deferredTargets m) = [] \<longrightarrow> tl_isReset (deferredTargets m)) \<and>
     (tl_targets (deferredTargets m) \<noteq> [] \<longrightarrow> inService m) \<and>
     (\<not> inService m \<longrightarrow> (\<forall>t \<in> set (tl_targets (targets m)). from_cpu_side t)) \<and>
     ((\<exists>t \<in> set (tl_targets (targets m)). inval_snoop t) \<longrightarrow> postInvalidate m) \<and>
     (\<forall>t \<in> set (butlast (tl_targets (targets m))). \<not> inval_snoop t)"

definition heap_ok :: "heap \<Rightarrow> bool" where
  "heap_ok h \<longleftrightarrow> (\<forall>m \<in> set h. mshr_ok m)"

definition added :: "tick \<Rightarrow> target_list \<Rightarrow> sender packet \<Rightarrow> tick \<Rightarrow> 64 word \<Rightarrow> tgt_source \<Rightarrow> bool \<Rightarrow> target_list" where
  "added now tgts pkt rt ord src mark = tgts\<lparr>
     tl_targets := tl_targets tgts @ [\<lparr>recvTime = now, tgt_readyTime = rt, tgt_order = ord, tgt_pkt = pkt,
       tgt_source = src, markedPending = mark\<rparr>],
     tl_needsExclusive := tl_needsExclusive tgts \<or> (src \<noteq> FromSnoop \<and> needsExclusive (pkt_cmd pkt)),
     tl_hasUpgrade := tl_hasUpgrade tgts \<or> (src \<noteq> FromSnoop \<and> (isUpgrade (pkt_cmd pkt) \<or> pkt_cmd pkt = StoreCondReq))\<rparr>"

lemma tl_add_frame:
  assumes "tl_add now h tgts pkt rt ord src mark = Inr (h', tgts')"
  shows "pending_eq h h'" and "tgts' = added now tgts pkt rt ord src mark"
  using assms
  by (auto simp: tl_add_def Let_def added_def vec_get_eq_Inr split: if_splits option.splits)

lemma mshr_ok_pending [simp]: "mshr_ok (m\<lparr>downstreamPending := b\<rparr>) = mshr_ok m"
  by (simp add: mshr_ok_def)

lemma heap_ok_nth: "heap_ok h \<Longrightarrow> i < length h \<Longrightarrow> mshr_ok (h ! i)"
  by (simp add: heap_ok_def)

lemma heap_ok_update: "heap_ok h \<Longrightarrow> mshr_ok m \<Longrightarrow> heap_ok (h[i := m])"
  unfolding heap_ok_def using set_update_subset_insert by fastforce

lemma heap_ok_pending: "pending_eq h h' \<Longrightarrow> heap_ok h' = heap_ok h"
  unfolding heap_ok_def all_set_conv_all_nth pending_eq_def by (metis mshr_ok_pending)

lemma heap_ok_put:
  "heap_ok h \<Longrightarrow> i < length h \<Longrightarrow> mshr_ok (f (h ! i)) \<Longrightarrow> heap_ok (put_mshr h i f)"
  unfolding put_mshr_def by (rule heap_ok_update)

lemma upgrade_cmd_flagged: "upgrade_cmd c \<Longrightarrow> isUpgrade c \<or> c = StoreCondReq"
  by (cases c) (simp_all add: upgrade_cmd_def cmd_attrib_defs)

lemma pkt_cmd_replaceUpgrade:
  "pkt_cmd (replaceUpgrade p) = (case pkt_cmd p of UpgradeReq \<Rightarrow> ReadExReq | SCUpgradeReq \<Rightarrow> SCUpgradeFailReq
     | StoreCondReq \<Rightarrow> StoreCondFailReq | c \<Rightarrow> c)"
  by (cases "pkt_cmd p") (simp_all add: replaceUpgrade_def)

lemma replaceUpgrade_cmd [simp]:
  "needsExclusive (pkt_cmd (replaceUpgrade p)) = needsExclusive (pkt_cmd p)"
  "\<not> upgrade_cmd (pkt_cmd (replaceUpgrade p))"
proof -
  have "needsExclusive (case c of UpgradeReq \<Rightarrow> ReadExReq | SCUpgradeReq \<Rightarrow> SCUpgradeFailReq
     | StoreCondReq \<Rightarrow> StoreCondFailReq | c \<Rightarrow> c) = needsExclusive c" for c
    by (cases c) (simp_all add: cmd_attrib_defs)
  then show "needsExclusive (pkt_cmd (replaceUpgrade p)) = needsExclusive (pkt_cmd p)"
    by (simp add: pkt_cmd_replaceUpgrade)
  have "\<not> upgrade_cmd (case c of UpgradeReq \<Rightarrow> ReadExReq | SCUpgradeReq \<Rightarrow> SCUpgradeFailReq
     | StoreCondReq \<Rightarrow> StoreCondFailReq | c \<Rightarrow> c)" for c
    by (cases c) (simp_all add: cmd_attrib_defs upgrade_cmd_def)
  then show "\<not> upgrade_cmd (pkt_cmd (replaceUpgrade p))" by (simp add: pkt_cmd_replaceUpgrade)
qed

lemma excl_covered_added: "excl_covered tgts \<Longrightarrow> excl_covered (added now tgts pkt rt ord src mark)"
  by (auto simp: excl_covered_def added_def from_cpu_side_def)

lemma upgrade_covered_added: "upgrade_covered tgts \<Longrightarrow> upgrade_covered (added now tgts pkt rt ord src mark)"
  by (auto simp: upgrade_covered_def added_def from_cpu_side_def dest: upgrade_cmd_flagged)

lemma added_simps [simp]:
  "tl_targets (added now tgts pkt rt ord src mark) = tl_targets tgts @ [\<lparr>recvTime = now, tgt_readyTime = rt,
     tgt_order = ord, tgt_pkt = pkt, tgt_source = src, markedPending = mark\<rparr>]"
  by (simp add: added_def)

lemma replaceUpgrades_ok:
  "excl_covered tgts \<Longrightarrow> excl_covered (replaceUpgrades tgts)"
  "upgrade_covered tgts \<Longrightarrow> upgrade_covered (replaceUpgrades tgts)"
  "tl_targets (replaceUpgrades tgts) = [] \<longleftrightarrow> tl_targets tgts = []"
  "tl_isReset tgts \<Longrightarrow> tl_isReset (replaceUpgrades tgts)"
  "(\<forall>t \<in> set (tl_targets (replaceUpgrades tgts)). from_cpu_side t) = (\<forall>t \<in> set (tl_targets tgts). from_cpu_side t)"
  "(\<exists>t \<in> set (tl_targets (replaceUpgrades tgts)). inval_snoop t) = (\<exists>t \<in> set (tl_targets tgts). inval_snoop t)"
  "(\<forall>t \<in> set (butlast (tl_targets (replaceUpgrades tgts))). \<not> inval_snoop t) =
   (\<forall>t \<in> set (butlast (tl_targets tgts)). \<not> inval_snoop t)"
  by (auto simp: replaceUpgrades_def excl_covered_def upgrade_covered_def tl_isReset_def from_cpu_side_def
      inval_snoop_def map_butlast [symmetric])

lemma mshr_ok_replace:
  "mshr_ok m \<Longrightarrow> mshr_ok (m\<lparr>deferredTargets := replaceUpgrades (deferredTargets m)\<rparr>)"
  "mshr_ok m \<Longrightarrow> mshr_ok (m\<lparr>targets := replaceUpgrades (targets m)\<rparr>)"
  unfolding mshr_ok_def by (simp_all add: replaceUpgrades_ok)

lemma mshr_ok_add_target:
  assumes "mshr_ok m" "\<not> (inService m \<and> postInvalidate m)" "src \<noteq> FromSnoop"
  shows "mshr_ok (m\<lparr>targets := added now (targets m) pkt rt ord src mark\<rparr>)"
proof -
  have "\<not> inval_snoop t" if "t \<in> set (tl_targets (targets m))" for t
    using assms that by (auto simp: mshr_ok_def from_cpu_side_def inval_snoop_def)
  with assms show ?thesis
    by (auto simp: mshr_ok_def excl_covered_added upgrade_covered_added from_cpu_side_def inval_snoop_def)
qed

lemma mshr_ok_add_snoop:
  assumes "mshr_ok m" "inService m" "\<not> postInvalidate m"
  shows "mshr_ok (m\<lparr>targets := added now (targets m) pkt rt ord FromSnoop mark,
    postInvalidate := needsExclusive (pkt_cmd pkt)\<rparr>)"
  using assms by (auto simp: mshr_ok_def excl_covered_added inval_snoop_def)

lemma mshr_ok_add_deferred:
  assumes "mshr_ok m" "inService m" "src \<noteq> FromSnoop"
  shows "mshr_ok (m\<lparr>deferredTargets := added now (deferredTargets m) pkt rt ord src mark\<rparr>)"
  using assms by (auto simp: mshr_ok_def excl_covered_added upgrade_covered_added from_cpu_side_def)

lemma must_defer_not: "\<not> must_defer m pkt \<Longrightarrow> \<not> (inService m \<and> postInvalidate m)"
  by (simp add: must_defer_def)

lemma heap_update_commute:
  "pending_eq h h' \<Longrightarrow> heap_ok h \<Longrightarrow> i < length h \<Longrightarrow>
   (\<And>b. mshr_ok (f ((h ! i)\<lparr>downstreamPending := b\<rparr>))) \<Longrightarrow> heap_ok (put_mshr h' i f)"
  using heap_ok_put [of h' i f] heap_ok_pending [of h h'] pending_eq_length [of h h'] pending_eq_nth [of h h' i]
  by metis

lemma allocateTarget_ok:
  assumes "heap_ok h" "allocateTarget now h i pkt rt ord = Inr h'"
  shows "heap_ok h'"
proof -
  let ?m = "h ! i"
  have i: "i < length h" using assms(2) by (auto simp: allocateTarget_def vec_get_eq_Inr split: if_splits)
  then have m: "mshr_ok ((h ! i)\<lparr>downstreamPending := b\<rparr>)" for b using assms(1) by (simp add: heap_ok_nth)
  show ?thesis
  proof (cases "must_defer ?m pkt")
    case True
    let ?p = "if postInvalidate ?m then replaceUpgrade pkt else pkt"
    obtain g ts where g: "tl_add now h (deferredTargets ?m) ?p rt ord FromCPU True = Inr (g, ts)"
      "h' = put_mshr g i (\<lambda>m. m\<lparr>deferredTargets := ts\<rparr>)"
      using assms(2) i True by (auto simp: allocateTarget_def Let_def split: if_splits)
    have "inService ?m" using True by (simp add: must_defer_def)
    then show ?thesis
      unfolding g(2) tl_add_frame(2) [OF g(1)]
      using mshr_ok_add_deferred [OF m, of _ FromCPU now ?p rt ord True]
      by (intro heap_update_commute [OF tl_add_frame(1) [OF g(1)] assms(1) i]) simp
  next
    case False
    obtain g ts where g: "tl_add now h (targets ?m) pkt rt ord FromCPU (\<not> inService ?m) = Inr (g, ts)"
      "h' = put_mshr g i (\<lambda>m. m\<lparr>targets := ts\<rparr>)"
      using assms(2) i False by (auto simp: allocateTarget_def Let_def split: if_splits)
    show ?thesis
      unfolding g(2) tl_add_frame(2) [OF g(1)]
      using mshr_ok_add_target [OF m, of _ FromCPU now pkt rt ord "\<not> inService ?m"] must_defer_not [OF False]
      by (intro heap_update_commute [OF tl_add_frame(1) [OF g(1)] assms(1) i]) simp
  qed
qed

lemma mshr_allocate_ok:
  assumes "heap_ok h" "mshr_allocate now h i a n pkt rt ord = Inr h'" "tl_targets (targets (h ! i)) = []"
    "\<not> inService (h ! i)"
  shows "heap_ok h'"
proof -
  obtain sec where i: "i < length h" "isSecure pkt = Inr sec"
    using assms(2) by (auto simp: mshr_allocate_def vec_get_eq_Inr split: if_splits)
  define m where "m = (h ! i)\<lparr>mshr_blkAddr := a, mshr_blkSize := n, mshr_isSecure := sec,
                readyTime := rt, mshr_order := ord, isForward := False,
                mshr_isUncacheable := req_isUncacheable (pkt_req pkt), inService := False,
                downstreamPending := False, threadNum := 0\<rparr>"
  let ?src = "if pkt_cmd pkt = HardPFReq then FromPrefetcher else FromCPU"
  obtain g ts where g: "tl_add now (h[i := m]) (targets m) pkt rt ord ?src True = Inr (g, ts)"
    "h' = put_mshr g i (\<lambda>m. m\<lparr>targets := ts\<rparr>)"
    using assms(2) i by (auto simp: mshr_allocate_def Let_def m_def split: if_splits)
  have m: "mshr_ok m" using heap_ok_nth [OF assms(1) i(1)] assms(4) by (simp add: m_def mshr_ok_def)
  then have ok: "heap_ok (h[i := m])" using assms(1) by (rule heap_ok_update [rotated])
  have "\<not> inService m" by (simp add: m_def)
  then have "mshr_ok (m\<lparr>downstreamPending := b, targets := added now (targets m) pkt rt ord ?src True\<rparr>)" for b
    using mshr_ok_add_target [of "m\<lparr>downstreamPending := b\<rparr>" ?src now pkt rt ord True] m by simp
  then show ?thesis
    unfolding g(2) tl_add_frame(2) [OF g(1)]
    by (intro heap_update_commute [OF tl_add_frame(1) [OF g(1)] ok]) (simp_all add: i)
qed

lemma copy_Packet_cmd: "copy_Packet garbage p c a = Inr q \<Longrightarrow> pkt_cmd q = pkt_cmd p"
  by (auto simp: copy_Packet_def allocate_def Let_def split: if_splits)

lemma assertMemInhibit_cmd: "assertMemInhibit p = Inr q \<Longrightarrow> pkt_cmd q = pkt_cmd p"
  by (auto simp: assertMemInhibit_def split: if_splits)

lemma pkt_cmd_flags [simp]:
  "pkt_cmd (setSupplyExclusive p) = pkt_cmd p" "pkt_cmd (assertShared p) = pkt_cmd p"
  "pkt_cmd (new_Packet r c) = c"
  by (simp_all add: setSupplyExclusive_def assertShared_def new_Packet_def Let_def)

lemma covered_subset:
  "excl_covered tgts \<Longrightarrow> set ts \<subseteq> set (tl_targets tgts) \<Longrightarrow> excl_covered (tgts\<lparr>tl_targets := ts\<rparr>)"
  "upgrade_covered tgts \<Longrightarrow> set ts \<subseteq> set (tl_targets tgts) \<Longrightarrow> upgrade_covered (tgts\<lparr>tl_targets := ts\<rparr>)"
  by (auto simp: excl_covered_def upgrade_covered_def)

lemma mshr_okI:
  assumes "excl_covered (targets m)" "excl_covered (deferredTargets m)" "upgrade_covered (deferredTargets m)"
    "\<not> inService m \<Longrightarrow> upgrade_covered (targets m)"
    "\<And>t. t \<in> set (tl_targets (deferredTargets m)) \<Longrightarrow> from_cpu_side t"
    "tl_targets (deferredTargets m) = [] \<Longrightarrow> tl_isReset (deferredTargets m)"
    "tl_targets (deferredTargets m) \<noteq> [] \<Longrightarrow> inService m"
    "\<And>t. \<not> inService m \<Longrightarrow> t \<in> set (tl_targets (targets m)) \<Longrightarrow> from_cpu_side t"
    "\<And>t. t \<in> set (tl_targets (targets m)) \<Longrightarrow> inval_snoop t \<Longrightarrow> postInvalidate m"
    "\<And>t. t \<in> set (butlast (tl_targets (targets m))) \<Longrightarrow> \<not> inval_snoop t"
  shows "mshr_ok m"
  using assms unfolding mshr_ok_def by blast

lemma mshr_okD:
  assumes "mshr_ok m"
  shows "excl_covered (targets m)" "excl_covered (deferredTargets m)" "upgrade_covered (deferredTargets m)"
    "\<not> inService m \<Longrightarrow> upgrade_covered (targets m)"
    "\<And>t. t \<in> set (tl_targets (deferredTargets m)) \<Longrightarrow> from_cpu_side t"
    "tl_targets (deferredTargets m) = [] \<Longrightarrow> tl_isReset (deferredTargets m)"
    "tl_targets (deferredTargets m) \<noteq> [] \<Longrightarrow> inService m"
    "\<And>t. \<not> inService m \<Longrightarrow> t \<in> set (tl_targets (targets m)) \<Longrightarrow> from_cpu_side t"
    "\<And>t. t \<in> set (tl_targets (targets m)) \<Longrightarrow> inval_snoop t \<Longrightarrow> postInvalidate m"
    "\<And>t. t \<in> set (butlast (tl_targets (targets m))) \<Longrightarrow> \<not> inval_snoop t"
  using assms unfolding mshr_ok_def by blast+

lemma popTarget_ok:
  assumes "mshr_ok m" "popTarget m = Inr m'"
  shows "mshr_ok m'"
proof -
  obtain t ts where ts: "tl_targets (targets m) = t # ts" "m' = m\<lparr>targets := (targets m)\<lparr>tl_targets := ts\<rparr>\<rparr>"
    using assms(2) by (auto simp: popTarget_def split: list.splits)
  have sub: "set ts \<subseteq> set (tl_targets (targets m))" using ts(1) by auto
  have bl: "set (butlast ts) \<subseteq> set (butlast (tl_targets (targets m)))" using ts(1) by auto
  note D = mshr_okD [OF assms(1)]
  show ?thesis unfolding ts(2)
    by (rule mshr_okI; simp) (use D covered_subset [OF _ sub] sub bl in blast)+
qed

lemma mshr_deallocate_ok: "mshr_ok m \<Longrightarrow> mshr_deallocate m = Inr m' \<Longrightarrow> tl_targets (deferredTargets m) = [] \<Longrightarrow> mshr_ok m'"
  by (auto simp: mshr_deallocate_def Let_def tl_resetFlags_def mshr_ok_def excl_covered_def upgrade_covered_def
      split: if_splits)

lemma empty_tl_ok:
  assumes "tl_targets tgts = []"
  shows "excl_covered (tl_resetFlags tgts)" "upgrade_covered (tl_resetFlags tgts)" "tl_isReset (tl_resetFlags tgts)"
    "tl_targets (tl_resetFlags tgts) = []"
  using assms by (simp_all add: excl_covered_def upgrade_covered_def tl_resetFlags_def tl_isReset_def)

lemma promote_ok:
  assumes "mshr_ok m" "promoteDeferredTargets now m = Inr (b, m')"
  shows "mshr_ok m'" "tl_targets (deferredTargets m') = []" "b \<Longrightarrow> mshr_ok (m'\<lparr>inService := False\<rparr>)"
    "b \<Longrightarrow> hasTargets m' \<and> inService m' = inService m"
proof -
  note D = mshr_okD [OF assms(1)]
  have none: "tl_targets (targets m) = []"
    using assms(2) by (auto simp: promoteDeferredTargets_def split: if_splits)
  have cpu: "\<not> inval_snoop t" if "t \<in> set (tl_targets (deferredTargets m))" for t
    using D(5) [OF that] by (simp add: inval_snoop_def from_cpu_side_def)
  have ok: "mshr_ok (m\<lparr>targets := deferredTargets m, deferredTargets := tl_resetFlags (targets m), mshr_order := ord,
      readyTime := rt, inService := s\<rparr>)" for ord rt s
    by (rule mshr_okI; simp add: empty_tl_ok [OF none]) (use D cpu in \<open>auto dest: in_set_butlastD\<close>)
  show "mshr_ok m'" "tl_targets (deferredTargets m') = []" "b \<Longrightarrow> mshr_ok (m'\<lparr>inService := False\<rparr>)"
    "b \<Longrightarrow> hasTargets m' \<and> inService m' = inService m"
    using assms ok [where s = "inService m"] ok [where s = False] none
    by (auto simp: promoteDeferredTargets_def hasTargets_def empty_tl_ok split: list.splits)
qed

lemma mshr_markInService_ok:
  assumes "heap_ok h" "mshr_markInService fuel h i pd = Inr (b, h')"
  shows "heap_ok h'"
proof -
  have i: "i < length h" "\<not> inService (h ! i)"
    using assms(2) by (auto simp: mshr_markInService_def vec_get_eq_Inr split: if_splits)
  have m: "mshr_ok (h ! i)" using assms(1) i(1) by (rule heap_ok_nth)
  obtain f where f: "isForwardNoResponse (h ! i) = Inr f"
    using assms(2) i by (auto simp: mshr_markInService_def split: if_splits)
  show ?thesis
  proof (cases f)
    case True
    then show ?thesis using assms i f m
      by (auto simp: mshr_markInService_def split: if_splits intro!: heap_ok_update elim: popTarget_ok)
  next
    case False
    define m' where "m' = (h ! i)\<lparr>inService := True, pendingDirty := tl_needsExclusive (targets (h ! i)) \<or> pd,
      postInvalidate := False, postDowngrade := False\<rparr>"
    have "mshr_ok m'" using m i(2) by (auto simp: m'_def mshr_ok_def inval_snoop_def from_cpu_side_def)
    then have "heap_ok (h[i := m'])" using assms(1) by (rule heap_ok_update [rotated])
    moreover have "pending_eq (h[i := m']) h'"
      using assms(2) i f False clear_frame(2)
      by (auto simp: mshr_markInService_def Let_def m'_def split: if_splits)
    ultimately show ?thesis by (simp add: heap_ok_pending)
  qed
qed

lemma mshr_handleFill_ok:
  assumes "heap_ok h" "mshr_handleFill fuel h i pkt = Inr h'"
  shows "heap_ok h'"
proof (cases "h' = h")
  case False
  define f where "f = (\<lambda>m :: mshr. m\<lparr>
         targets := (targets m)\<lparr>tl_needsExclusive := True,
           tl_targets := tl_targets (targets m) @ tl_targets (deferredTargets m)\<rparr>,
         deferredTargets := tl_resetFlags ((deferredTargets m)\<lparr>tl_targets := []\<rparr>)\<rparr>)"
  obtain g where g: "i < length h" "inService (h ! i)" "\<not> postInvalidate (h ! i)"
    "tl_clearDownstreamPending fuel h (tl_targets (deferredTargets (h ! i))) = Inr g" "h' = put_mshr g i f"
    using assms(2) False
    by (auto simp: mshr_handleFill_def vec_get_eq_Inr hasPostInvalidate_def hasPostDowngrade_def f_def split: if_splits)
  have "mshr_ok (h ! i)" using assms(1) g(1) by (rule heap_ok_nth)
  then have "mshr_ok (f ((h ! i)\<lparr>downstreamPending := b\<rparr>))" for b
    using g(2,3) by (auto simp: f_def mshr_ok_def excl_covered_def upgrade_covered_def tl_resetFlags_def tl_isReset_def
      inval_snoop_def from_cpu_side_def butlast_append dest: in_set_butlastD split: if_splits)
  then show ?thesis unfolding g(5)
    using clear_frame(2) [OF g(4)] by (intro heap_update_commute [OF _ assms(1) g(1)]) auto
qed (use assms in simp)

lemma saved_copy_cmd:
  "(if pd then bindE (copy_Packet garbage pkt True True) (\<lambda>cp_pkt.
              bindE (assertMemInhibit pkt) (\<lambda>pkt. Inr (cp_pkt, setSupplyExclusive pkt)))
    else Inr (new_Packet (pkt_req pkt) (pkt_cmd pkt), pkt)) = Inr (cp, pkt') \<Longrightarrow>
   pkt_cmd cp = pkt_cmd pkt \<and> pkt_cmd pkt' = pkt_cmd pkt"
  by (auto split: if_splits simp: copy_Packet_cmd assertMemInhibit_cmd)

lemma save_snoop_ok:
  assumes "save_snoop garbage now h i pkt ord = Inr (pkt', h')" "heap_ok h" "i < length h"
    "inService (h ! i)" "\<not> postInvalidate (h ! i)"
  shows "heap_ok h' \<and> pkt_cmd pkt' = pkt_cmd pkt \<and> length h' = length h"
proof -
  obtain cp p g ts where sp: "(if pendingDirty (h ! i) then
              bindE (copy_Packet garbage pkt True True) (\<lambda>cp_pkt.
              bindE (assertMemInhibit pkt) (\<lambda>pkt. Inr (cp_pkt, setSupplyExclusive pkt)))
            else Inr (new_Packet (pkt_req pkt) (pkt_cmd pkt), pkt)) = Inr (cp, p)"
    and ta: "tl_add now h (targets (h ! i)) cp now ord FromSnoop
              (downstreamPending (h ! i) \<and> tl_needsExclusive (targets (h ! i))) = Inr (g, ts)"
    and res: "pkt' = p" "h' = (let h = put_mshr g i (\<lambda>m. m\<lparr>targets := ts\<rparr>) in
           if needsExclusive (pkt_cmd p) then put_mshr h i (\<lambda>m. m\<lparr>postInvalidate := True\<rparr>) else h)"
    using assms(1) unfolding save_snoop_def bindE_eq_Inr by (force simp: Let_def)
  note cmds = saved_copy_cmd [OF sp]
  let ?f = "\<lambda>m. m\<lparr>targets := ts, postInvalidate := postInvalidate m \<or> needsExclusive (pkt_cmd pkt)\<rparr>"
  have len: "length g = length h" using tl_add_frame(1) [OF ta] by (rule pending_eq_length)
  have "h' = put_mshr g i ?f"
    using assms(3) len cmds by (simp add: res Let_def put_mshr_def)
  moreover have "mshr_ok (?f ((h ! i)\<lparr>downstreamPending := b\<rparr>))" for b
    using mshr_ok_add_snoop [of "(h ! i)\<lparr>downstreamPending := b\<rparr>" cp] assms(2-5) cmds
    by (simp add: heap_ok_nth tl_add_frame(2) [OF ta])
  ultimately have "heap_ok h'"
    using heap_update_commute [OF tl_add_frame(1) [OF ta] assms(2,3), of ?f] by simp
  then show ?thesis using res cmds len by (simp add: put_mshr_def Let_def)
qed

lemma mshr_ok_downgrade [simp]: "mshr_ok (m\<lparr>postDowngrade := b\<rparr>) = mshr_ok m"
  by (simp add: mshr_ok_def)

text \<open>The three ways through \<open>handleSnoop\<close>: the snoop precedes the request, an earlier snoop has already invalidated the
  pending copy, or the snoop follows the request and may have to be saved.\<close>

lemma mshr_handleSnoopE:
  assumes "mshr_handleSnoop garbage now h i pkt ord = Inr (b, pkt', h')"
  obtains (before) "i < length h" "\<not> inService (h ! i) \<or> isExpressSnoop pkt \<and> downstreamPending (h ! i)" "\<not> b" "pkt' = pkt"
      "h' = h[i := if needsExclusive (pkt_cmd pkt) then (h ! i)\<lparr>targets := replaceUpgrades (targets (h ! i)),
        deferredTargets := replaceUpgrades (deferredTargets (h ! i))\<rparr> else h ! i]"
  | (gone) k where "i < length h" "inService (h ! i)" "b" "pkt' = pkt" "h' = h[i := k]" "postInvalidate k"
      "k = (if needsExclusive (pkt_cmd pkt)
        then (h ! i)\<lparr>deferredTargets := replaceUpgrades (deferredTargets (h ! i))\<rparr> else h ! i)"
  | (saved) k p c where "i < length h" "inService (h ! i)" "b" "\<not> postInvalidate k"
      "k = (if needsExclusive (pkt_cmd pkt)
        then (h ! i)\<lparr>deferredTargets := replaceUpgrades (deferredTargets (h ! i))\<rparr> else h ! i)"
      "(if pendingDirty k \<or> isInvalidate (pkt_cmd pkt) then save_snoop garbage now (h[i := k]) i pkt ord
        else Inr (pkt, h[i := k])) = Inr (p, c)"
      "(pkt', h') = (if \<not> needsExclusive (pkt_cmd p) \<and> \<not> req_isUncacheable (pkt_req p)
        then (assertShared p, put_mshr c i (\<lambda>m. m\<lparr>postDowngrade := True\<rparr>)) else (p, c))"
proof -
  have i: "i < length h" using assms by (auto simp: mshr_handleSnoop_def vec_get_eq_Inr)
  let ?d = "(h ! i)\<lparr>deferredTargets := replaceUpgrades (deferredTargets (h ! i))\<rparr>"
  show thesis
  proof (cases "inService (h ! i) \<and> \<not> (isExpressSnoop pkt \<and> downstreamPending (h ! i))")
    case False
    have "Inr (b, pkt', h') = (Inr (False, pkt, h[i := if needsExclusive (pkt_cmd pkt)
        then (h ! i)\<lparr>targets := replaceUpgrades (targets (h ! i)),
          deferredTargets := replaceUpgrades (deferredTargets (h ! i))\<rparr> else h ! i]) :: (bool \<times> sender packet \<times> heap) res)"
      unfolding assms [symmetric] using i False by (simp add: mshr_handleSnoop_def)
    then show thesis using i False by (intro before) simp_all
  next
    case True
    define k where "k = (if needsExclusive (pkt_cmd pkt) then ?d else h ! i)"
    have k: "inService k" using True by (auto simp: k_def)
    have r: "(if postInvalidate k then Inr (True, pkt, h[i := k])
      else bindE (if pendingDirty k \<or> isInvalidate (pkt_cmd pkt) then save_snoop garbage now (h[i := k]) i pkt ord
                 else Inr (pkt, h[i := k])) (\<lambda>(pkt, h).
       if \<not> needsExclusive (pkt_cmd pkt) \<and> \<not> req_isUncacheable (pkt_req pkt)
       then Inr (True, assertShared pkt, put_mshr h i (\<lambda>m. m\<lparr>postDowngrade := True\<rparr>))
       else Inr (True, pkt, h))) = Inr (b, pkt', h')"
      using assms i True k
      by (simp add: mshr_handleSnoop_def hasPostInvalidate_def isPendingDirty_def Let_def k_def [symmetric]
          del: bindE_eq_Inr cong: if_cong)
    show thesis
    proof (cases "postInvalidate k")
      case True
      with r have "b" "pkt' = pkt" "h' = h[i := k]" by simp_all
      then show thesis using True k i by (intro gone [of k]) (simp_all add: k_def split: if_splits)
    next
      case False
      then obtain p c where "(if pendingDirty k \<or> isInvalidate (pkt_cmd pkt)
          then save_snoop garbage now (h[i := k]) i pkt ord else Inr (pkt, h[i := k])) = Inr (p, c)"
        "(if \<not> needsExclusive (pkt_cmd p) \<and> \<not> req_isUncacheable (pkt_req p)
          then Inr (True, assertShared p, put_mshr c i (\<lambda>m. m\<lparr>postDowngrade := True\<rparr>))
          else Inr (True, p, c)) = (Inr (b, pkt', h') :: (bool \<times> sender packet \<times> heap) res)"
        using r by auto
      then show thesis using k i False by (intro saved [of k p c]) (auto simp: k_def split: if_splits)
    qed
  qed
qed

lemma mshr_handleSnoop_ok:
  assumes "heap_ok h" "mshr_handleSnoop garbage now h i pkt ord = Inr (b, pkt', h')"
  shows "heap_ok h'"
  using assms(2)
proof (cases rule: mshr_handleSnoopE)
  case before
  then show ?thesis
    using assms(1) mshr_ok_replace(1) [OF mshr_ok_replace(2)] heap_ok_nth [of h i]
    by (auto intro!: heap_ok_update)
next
  case (gone k)
  then show ?thesis using assms(1) mshr_ok_replace(1) heap_ok_nth [of h i] by (auto intro!: heap_ok_update)
next
  case (saved k p c)
  have "mshr_ok (h ! i)" using assms(1) saved(1) by (rule heap_ok_nth)
  then have g: "mshr_ok k" "inService k" using saved(2,5) mshr_ok_replace(1) by auto
  then have "heap_ok (h[i := k])" using assms(1) heap_ok_update by blast
  then have "heap_ok c" "length c = length h"
    using save_snoop_ok [of garbage now "h[i := k]" i pkt ord p c] g saved(1,4,6) by (auto split: if_splits)
  then show ?thesis using saved(1,7) by (auto intro!: heap_ok_put simp: heap_ok_nth split: if_splits)
qed

section \<open>What a register promises\<close>

text \<open>The packets a register still has to answer, in the order of their service.\<close>

definition waiting :: "mshr \<Rightarrow> sender packet list" where
  "waiting m = map tgt_pkt (tl_targets (targets m) @ tl_targets (deferredTargets m))"

lemma waiting_pending [simp]: "waiting (m\<lparr>downstreamPending := b\<rparr>) = waiting m"
  by (simp add: waiting_def)

lemma put_after_pending:
  assumes "pending_eq h g" "i < length h"
  obtains b where "put_mshr g i f ! i = f ((h ! i)\<lparr>downstreamPending := b\<rparr>)"
  using assms by (metis nth_list_update_eq pending_eq_length pending_eq_nth put_mshr_def)

lemma allocateTarget_waiting:
  assumes ok: "mshr_ok (h ! i)" and r: "allocateTarget now h i pkt rt ord = Inr h'"
  shows "waiting (h' ! i) = waiting (h ! i) @
    [if must_defer (h ! i) pkt \<and> postInvalidate (h ! i) then replaceUpgrade pkt else pkt]"
proof -
  let ?m = "h ! i"
  have i: "i < length h" using r by (auto simp: allocateTarget_def vec_get_eq_Inr split: if_splits)
  show ?thesis
  proof (cases "must_defer ?m pkt")
    case True
    obtain g ts where g: "tl_add now h (deferredTargets ?m) (if postInvalidate ?m then replaceUpgrade pkt else pkt)
        rt ord FromCPU True = Inr (g, ts)" "h' = put_mshr g i (\<lambda>m. m\<lparr>deferredTargets := ts\<rparr>)"
      using r i True by (auto simp: allocateTarget_def Let_def split: if_splits)
    obtain b where "h' ! i = (?m\<lparr>downstreamPending := b\<rparr>)\<lparr>deferredTargets := ts\<rparr>"
      unfolding g(2) using tl_add_frame(1) [OF g(1)] i by (rule put_after_pending)
    then show ?thesis using True tl_add_frame(2) [OF g(1)] by (simp add: waiting_def)
  next
    case False
    then have none: "tl_targets (deferredTargets ?m) = []"
      using mshr_okD(7) [OF ok] by (auto simp: must_defer_def)
    obtain g ts where g: "tl_add now h (targets ?m) pkt rt ord FromCPU (\<not> inService ?m) = Inr (g, ts)"
      "h' = put_mshr g i (\<lambda>m. m\<lparr>targets := ts\<rparr>)"
      using r i False by (auto simp: allocateTarget_def Let_def split: if_splits)
    obtain b where "h' ! i = (?m\<lparr>downstreamPending := b\<rparr>)\<lparr>targets := ts\<rparr>"
      unfolding g(2) using tl_add_frame(1) [OF g(1)] i by (rule put_after_pending)
    then show ?thesis using False none tl_add_frame(2) [OF g(1)] by (simp add: waiting_def)
  qed
qed

lemma mshr_handleFill_waiting:
  assumes "mshr_handleFill fuel h i pkt = Inr h'"
  shows "waiting (h' ! i) = waiting (h ! i)"
proof (cases "h' = h")
  case False
  define f where "f = (\<lambda>m :: mshr. m\<lparr>
         targets := (targets m)\<lparr>tl_needsExclusive := True,
           tl_targets := tl_targets (targets m) @ tl_targets (deferredTargets m)\<rparr>,
         deferredTargets := tl_resetFlags ((deferredTargets m)\<lparr>tl_targets := []\<rparr>)\<rparr>)"
  obtain g where g: "i < length h" "pending_eq h g" "h' = put_mshr g i f"
    using assms False
    by (auto simp: mshr_handleFill_def vec_get_eq_Inr f_def split: if_splits dest: clear_frame(2))
  then obtain b where "h' ! i = f ((h ! i)\<lparr>downstreamPending := b\<rparr>)" using put_after_pending by metis
  then show ?thesis by (simp add: f_def waiting_def tl_resetFlags_def)
qed simp

lemma promote_waiting: "promoteDeferredTargets now m = Inr (b, m') \<Longrightarrow> waiting m' = waiting m"
  by (auto simp: promoteDeferredTargets_def waiting_def tl_resetFlags_def split: list.splits if_splits)

lemma popTarget_waiting: "popTarget m = Inr m' \<Longrightarrow> \<exists>t. getTarget m = Inr t \<and> waiting m = tgt_pkt t # waiting m'"
  by (auto simp: popTarget_def getTarget_def hasTargets_def vec_get_def waiting_def split: list.splits)

lemma replaceUpgrades_targets:
  assumes "upgrade_covered tgts" "\<forall>t \<in> set (tl_targets tgts). from_cpu_side t"
  shows "\<forall>t \<in> set (tl_targets (replaceUpgrades tgts)). \<not> upgrade_cmd (pkt_cmd (tgt_pkt t))"
  using assms by (auto simp: replaceUpgrades_def upgrade_covered_def)

lemma replaceUpgrades_demand:
  "map (\<lambda>t. needsExclusive (pkt_cmd (tgt_pkt t))) (tl_targets (replaceUpgrades tgts)) =
   map (\<lambda>t. needsExclusive (pkt_cmd (tgt_pkt t))) (tl_targets tgts)"
  by (simp add: replaceUpgrades_def)

text \<open>
  C10: a register answers its packets first come, first served: a new target is appended behind everything that waits (as an
  invalidated upgrade if the copy it relies on is about to go), serving a target removes the oldest, and neither the
  promotion of deferred targets nor an exclusive fill that merges them loses, duplicates or reorders a packet.
\<close>

theorem mshr_service_order:
  assumes "heap_ok h" "i < length h"
  shows "(allocateTarget now h i pkt rt ord = Inr h' \<longrightarrow> waiting (h' ! i) = waiting (h ! i) @
      [if must_defer (h ! i) pkt \<and> postInvalidate (h ! i) then replaceUpgrade pkt else pkt]) \<and>
    (popTarget (h ! i) = Inr m \<longrightarrow> (\<exists>t. getTarget (h ! i) = Inr t \<and> waiting (h ! i) = tgt_pkt t # waiting m)) \<and>
    (promoteDeferredTargets now (h ! i) = Inr (b, m) \<longrightarrow> waiting m = waiting (h ! i)) \<and>
    (mshr_handleFill fuel h i pkt = Inr h' \<longrightarrow> waiting (h' ! i) = waiting (h ! i))"
  using allocateTarget_waiting [OF heap_ok_nth [OF assms]] popTarget_waiting [of "h ! i" m]
    promote_waiting [of now "h ! i" b m] mshr_handleFill_waiting [of fuel h i pkt h'] by blast

text \<open>
  C12: an invalidating snoop that meets a register whose request has not been issued leaves the snoop to the cache and
  rewrites the register's requests: no target is an upgrade or a plain store conditional any more, since the copy to
  upgrade is gone, while each target still asks for an exclusive block exactly if it did before.
\<close>

theorem snoop_rewrites_upgrades:
  assumes "i < length h" "mshr_ok (h ! i)" "\<not> inService (h ! i)" "needsExclusive (pkt_cmd pkt)"
  shows "\<exists>h'. mshr_handleSnoop garbage now h i pkt ord = Inr (False, pkt, h') \<and>
    (\<forall>t \<in> set (tl_targets (targets (h' ! i))). \<not> upgrade_cmd (pkt_cmd (tgt_pkt t))) \<and>
    map (\<lambda>p. needsExclusive (pkt_cmd p)) (waiting (h' ! i)) = map (\<lambda>p. needsExclusive (pkt_cmd p)) (waiting (h ! i))"
proof -
  note D = mshr_okD [OF assms(2)]
  let ?m = "(h ! i)\<lparr>targets := replaceUpgrades (targets (h ! i)), deferredTargets := replaceUpgrades (deferredTargets (h ! i))\<rparr>"
  have "mshr_handleSnoop garbage now h i pkt ord = Inr (False, pkt, h[i := ?m])"
    using assms by (simp add: mshr_handleSnoop_def)
  moreover have "\<forall>t \<in> set (tl_targets (targets ?m)). \<not> upgrade_cmd (pkt_cmd (tgt_pkt t))"
    using replaceUpgrades_targets [OF D(4)] D(8) assms(3) by simp
  ultimately show ?thesis using assms(1) replaceUpgrades_demand
    by (simp add: waiting_def comp_def)
qed

text \<open>
  C15: clearing the pending flags of the caches above always ends: one more unit of fuel than there are pending registers
  suffices whatever cycles the sender states form, and a call that succeeds clears at least one flag and touches nothing else.
\<close>

theorem clearDownstreamPending_terminates:
  assumes "pending_count h < fuel"
  shows "clearDownstreamPending fuel h i \<noteq> Inl Out_Of_Fuel \<and>
    (clearDownstreamPending fuel h i = Inr h' \<longrightarrow> pending_eq h h' \<and> pending_count h' < pending_count h)"
  using clear_fuel(1) [OF assms] clear_frame(1) by blast

abbreviation demo_mpkt :: "command \<Rightarrow> sender list \<Rightarrow> sender packet" where
  "demo_mpkt c ss \<equiv>
     \<lparr>pkt_flags = 0x2300, pkt_cmd = c, pkt_req = new_Request, pkt_data = None, pkt_addr = 64,
      pkt_isSecure = False, pkt_size = 4, pkt_origCmd = InvalidCmd, bytesValid = [],
      headerDelay = 0, payloadDelay = 0, senderState = ss\<rparr>"

abbreviation demo_mshr :: "command \<Rightarrow> sender list \<Rightarrow> bool \<Rightarrow> mshr" where
  "demo_mshr c ss p \<equiv> new_MSHR\<lparr>downstreamPending := p, targets := \<lparr>tl_targets =
     [\<lparr>recvTime = 0, tgt_readyTime = 0, tgt_order = 0, tgt_pkt = demo_mpkt c ss, tgt_source = FromCPU,
       markedPending = True\<rparr>], tl_needsExclusive = True, tl_hasUpgrade = True\<rparr>\<rparr>"

lemma demo_mshr_ok: "mshr_ok (demo_mshr c ss p)"
  by (simp add: mshr_ok_def new_MSHR_def new_TargetList_def excl_covered_def upgrade_covered_def tl_isReset_def
      from_cpu_side_def inval_snoop_def)

theorem mshr_service_order_witness:
  "waiting (demo_mshr UpgradeReq [] False) = [demo_mpkt UpgradeReq []] \<and>
   (\<exists>h'. allocateTarget 5 [demo_mshr UpgradeReq [] False] 0 (demo_mpkt ReadReq []) 7 1 = Inr h' \<and>
     waiting (h' ! 0) = [demo_mpkt UpgradeReq [], demo_mpkt ReadReq []])"
proof -
  let ?h = "[demo_mshr UpgradeReq [] False]"
  obtain h' where h': "allocateTarget 5 ?h 0 (demo_mpkt ReadReq []) 7 1 = Inr h'"
    by (simp add: allocateTarget_def tl_add_def sender_mshr_def findNextSenderState_def must_defer_def new_MSHR_def Let_def)
  have "heap_ok ?h" by (simp add: heap_ok_def demo_mshr_ok)
  moreover have "waiting (?h ! 0) = [demo_mpkt UpgradeReq []]" "\<not> postInvalidate (?h ! 0)"
    by (simp_all add: waiting_def new_MSHR_def new_TargetList_def)
  ultimately show ?thesis
    using mshr_service_order [of ?h 0 5 "demo_mpkt ReadReq []" 7 1 h'] h' by simp
qed

theorem snoop_rewrites_upgrades_witness:
  "\<exists>h'. mshr_handleSnoop (\<lambda>_. 0) 5 [demo_mshr UpgradeReq [] False] 0 (demo_mpkt ReadExReq []) 9 =
      Inr (False, demo_mpkt ReadExReq [], h') \<and>
    (\<forall>t \<in> set (tl_targets (targets (h' ! 0))). \<not> upgrade_cmd (pkt_cmd (tgt_pkt t)))"
proof -
  have "\<not> inService (demo_mshr UpgradeReq [] False)" by (simp add: new_MSHR_def)
  moreover have "needsExclusive ReadExReq" by (simp add: cmd_attrib_defs)
  ultimately show ?thesis
    using snoop_rewrites_upgrades [of 0 "[demo_mshr UpgradeReq [] False]" "demo_mpkt ReadExReq []" "\<lambda>_. 0" 5 9]
      demo_mshr_ok [of UpgradeReq "[]" False] by auto
qed

theorem clearDownstreamPending_terminates_witness:
  "clearDownstreamPending 3 [demo_mshr ReadReq [MSHR_State 1] True, demo_mshr ReadReq [MSHR_State 0] True] 0 \<noteq>
     Inl Out_Of_Fuel"
  using clearDownstreamPending_terminates
    [of "[demo_mshr ReadReq [MSHR_State 1] True, demo_mshr ReadReq [MSHR_State 0] True]" 3 0]
  by (simp add: pending_count_def)

end
