(* ===== verification/Sim_Event.thy ===== *)
theory Sim_Event
  imports Prelude
begin

text \<open>
  What the memory system uses of the simulation core: the handle of an event (\<open>src/gem5_src/sim/eventq_impl.hh\<close>), which is
  the tick it is scheduled for, and the draining states of \<open>sim/drain.hh\<close>. An event is taken off its handle before it is
  processed.
\<close>

datatype drain_state = Running | Draining | Drained

type_synonym event = "tick option"

definition ev_schedule :: "tick \<Rightarrow> event \<Rightarrow> tick \<Rightarrow> event res" where
  "ev_schedule now ev when =
     bindE (assertE (now \<le> when)) (\<lambda>_. bindE (assertE (ev = None)) (\<lambda>_. Inr (Some when)))"

definition ev_deschedule :: "event \<Rightarrow> event res" where
  "ev_deschedule ev = bindE (assertE (ev \<noteq> None)) (\<lambda>_. Inr None)"

definition ev_reschedule :: "tick \<Rightarrow> event \<Rightarrow> tick \<Rightarrow> bool \<Rightarrow> event res" where
  "ev_reschedule now ev when always =
     bindE (assertE (now \<le> when)) (\<lambda>_. bindE (assertE (always \<or> ev \<noteq> None)) (\<lambda>_. Inr (Some when)))"

end
