(* ===== verification/MSHR_Queue.thy ===== *)
theory MSHR_Queue
  imports MSHR Sim_Event
begin

text \<open>
  The queue of miss status holding registers, \<open>src/gem5_src/mem/cache/mshr_queue.hh\<close> and \<open>mshr_queue.cc\<close>. A queue owns
  a block of registers of the heap and three lists of them (allocated, ready to issue, free); a register's list
  iterators are its position in these lists. Labels, which only the printing packets read, are kept but not pushed.
\<close>

section \<open>State\<close>

record mshr_queue =
  q_label :: string
  numEntries :: int
  numReserve :: int
  demandReserve :: int
  registers :: "nat list"
  allocatedList :: "nat list"
  readyList :: "nat list"
  freeList :: "nat list"
  drainManager :: bool
  drainState :: drain_state
  drainSignals :: nat
  allocated :: int
  inServiceEntries :: int
  q_index :: int

definition new_MSHRQueue :: "heap \<Rightarrow> string \<Rightarrow> int \<Rightarrow> int \<Rightarrow> int \<Rightarrow> int \<Rightarrow> (heap \<times> mshr_queue) res" where
  "new_MSHRQueue h lbl num_entries reserve demand_reserve idx =
     (let n = num_entries + reserve - 1 in
      if n < 0 then Inl Length_Error
      else (let regs = [length h ..< length h + nat n] in
        Inr (h @ replicate (nat n) new_MSHR,
          \<lparr>q_label = lbl, numEntries = n, numReserve = reserve, demandReserve = demand_reserve, registers = regs,
           allocatedList = [], readyList = [], freeList = regs, drainManager = False, drainState = Running,
           drainSignals = 0, allocated = 0, inServiceEntries = 0, q_index = idx\<rparr>)))"

section \<open>Queries\<close>

definition havePending :: "mshr_queue \<Rightarrow> bool" where
  "havePending q \<longleftrightarrow> readyList q \<noteq> []"

definition isFull :: "mshr_queue \<Rightarrow> bool" where
  "isFull q \<longleftrightarrow> allocated q > numEntries q - numReserve q"

definition canPrefetch :: "mshr_queue \<Rightarrow> bool" where
  "canPrefetch q \<longleftrightarrow> allocated q < numEntries q - (numReserve q + demandReserve q)"

definition getNextMSHR :: "tick \<Rightarrow> heap \<Rightarrow> mshr_queue \<Rightarrow> nat option" where
  "getNextMSHR now h q = (case readyList q of [] \<Rightarrow> None | i # _ \<Rightarrow> if readyTime (h ! i) > now then None else Some i)"

definition nextMSHRReadyTime :: "heap \<Rightarrow> mshr_queue \<Rightarrow> tick" where
  "nextMSHRReadyTime h q = (case readyList q of [] \<Rightarrow> - 1 | i # _ \<Rightarrow> readyTime (h ! i))"

definition mshr_matches :: "heap \<Rightarrow> addr \<Rightarrow> bool \<Rightarrow> nat \<Rightarrow> bool" where
  "mshr_matches h blk_addr is_secure i \<longleftrightarrow>
     \<not> mshr_isUncacheable (h ! i) \<and> mshr_blkAddr (h ! i) = blk_addr \<and> mshr_isSecure (h ! i) = is_secure"

definition findMatch :: "heap \<Rightarrow> mshr_queue \<Rightarrow> addr \<Rightarrow> bool \<Rightarrow> nat option" where
  "findMatch h q blk_addr is_secure = find (mshr_matches h blk_addr is_secure) (allocatedList q)"

definition findMatches :: "heap \<Rightarrow> mshr_queue \<Rightarrow> addr \<Rightarrow> bool \<Rightarrow> bool \<times> nat list" where
  "findMatches h q blk_addr is_secure =
     (let matches = filter (mshr_matches h blk_addr is_secure) (allocatedList q) in (matches \<noteq> [], matches))"

definition findPending :: "heap \<Rightarrow> mshr_queue \<Rightarrow> addr \<Rightarrow> bool \<Rightarrow> nat option" where
  "findPending h q blk_addr is_secure =
     find (\<lambda>i. mshr_blkAddr (h ! i) = blk_addr \<and> mshr_isSecure (h ! i) = is_secure) (readyList q)"

fun q_checkFunctional_loop :: "heap \<Rightarrow> sender packet \<Rightarrow> addr \<Rightarrow> nat list \<Rightarrow> (bool \<times> sender packet \<times> heap) res" where
  "q_checkFunctional_loop h pkt blk_addr [] = Inr (False, pkt, h)"
| "q_checkFunctional_loop h pkt blk_addr (i # is) =
     (if mshr_blkAddr (h ! i) = blk_addr then
        bindE (mshr_checkFunctional (h ! i) pkt) (\<lambda>(ok, pkt, m).
        if ok then Inr (True, pkt, h[i := m]) else q_checkFunctional_loop (h[i := m]) pkt blk_addr is)
      else q_checkFunctional_loop h pkt blk_addr is)"

definition q_checkFunctional :: "heap \<Rightarrow> mshr_queue \<Rightarrow> sender packet \<Rightarrow> addr \<Rightarrow> (bool \<times> sender packet \<times> heap) res" where
  "q_checkFunctional h q pkt blk_addr = q_checkFunctional_loop h pkt blk_addr (allocatedList q)"

section \<open>Updates\<close>

text \<open>The insertion point is the first register with a later ready time; the loop that finds it falls through to a failing
  assertion if there is none.\<close>

fun insert_before_later :: "heap \<Rightarrow> nat \<Rightarrow> nat list \<Rightarrow> nat list res" where
  "insert_before_later h i [] = Inl Assert_Failed"
| "insert_before_later h i (j # js) =
     (if readyTime (h ! j) > readyTime (h ! i) then Inr (i # j # js)
      else bindE (insert_before_later h i js) (\<lambda>js. Inr (j # js)))"

definition addToReadyList :: "heap \<Rightarrow> nat \<Rightarrow> nat list \<Rightarrow> nat list res" where
  "addToReadyList h i ready =
     (if ready = [] \<or> readyTime (h ! last ready) \<le> readyTime (h ! i) then Inr (ready @ [i])
      else insert_before_later h i ready)"

definition q_allocate ::
    "tick \<Rightarrow> heap \<Rightarrow> mshr_queue \<Rightarrow> addr \<Rightarrow> 32 word \<Rightarrow> sender packet \<Rightarrow> tick \<Rightarrow> 64 word \<Rightarrow> (nat \<times> heap \<times> mshr_queue) res" where
  "q_allocate now h q blk_addr blk_size pkt when_ready ord =
     (case freeList q of
        [] \<Rightarrow> Inl Assert_Failed
      | i # free \<Rightarrow>
          bindE (assertE (getNumTargets (h ! i) = 0)) (\<lambda>_.
          bindE (mshr_allocate now h i blk_addr blk_size pkt when_ready ord) (\<lambda>h.
          bindE (addToReadyList h i (readyList q)) (\<lambda>ready.
          Inr (i, h, q\<lparr>freeList := free, allocatedList := allocatedList q @ [i], readyList := ready,
                       allocated := allocated q + 1\<rparr>)))))"

definition deallocateOne :: "heap \<Rightarrow> mshr_queue \<Rightarrow> nat \<Rightarrow> (heap \<times> mshr_queue) res" where
  "deallocateOne h q i =
     (let q = q\<lparr>allocatedList := remove1 i (allocatedList q), freeList := i # freeList q,
                allocated := allocated q - 1\<rparr>;
          q = (if inService (h ! i) then q\<lparr>inServiceEntries := inServiceEntries q - 1\<rparr>
               else q\<lparr>readyList := remove1 i (readyList q)\<rparr>) in
      bindE (mshr_deallocate (h ! i)) (\<lambda>m.
      Inr (h[i := m],
           if drainManager q \<and> allocated q = 0
           then q\<lparr>drainSignals := Suc (drainSignals q), drainManager := False, drainState := Drained\<rparr> else q)))"

definition q_deallocate :: "heap \<Rightarrow> mshr_queue \<Rightarrow> nat \<Rightarrow> (heap \<times> mshr_queue) res" where
  "q_deallocate h q i = deallocateOne h q i"

definition moveToFront :: "heap \<Rightarrow> mshr_queue \<Rightarrow> nat \<Rightarrow> mshr_queue" where
  "moveToFront h q i = (if inService (h ! i) then q else q\<lparr>readyList := i # remove1 i (readyList q)\<rparr>)"

definition q_markInService :: "nat \<Rightarrow> heap \<Rightarrow> mshr_queue \<Rightarrow> nat \<Rightarrow> bool \<Rightarrow> (heap \<times> mshr_queue) res" where
  "q_markInService fuel h q i pending_dirty_resp =
     bindE (mshr_markInService fuel h i pending_dirty_resp) (\<lambda>(done, h).
     if done then q_deallocate h q i
     else Inr (h, q\<lparr>readyList := remove1 i (readyList q), inServiceEntries := inServiceEntries q + 1\<rparr>))"

definition q_markPending :: "heap \<Rightarrow> mshr_queue \<Rightarrow> nat \<Rightarrow> (heap \<times> mshr_queue) res" where
  "q_markPending h q i =
     bindE (assertE (inService (h ! i))) (\<lambda>_.
     (let h = h[i := (h ! i)\<lparr>inService := False\<rparr>] in
      bindE (addToReadyList h i (readyList q)) (\<lambda>ready.
      Inr (h, q\<lparr>inServiceEntries := inServiceEntries q - 1, readyList := ready\<rparr>))))"

definition forceDeallocateTarget :: "tick \<Rightarrow> heap \<Rightarrow> mshr_queue \<Rightarrow> nat \<Rightarrow> (bool \<times> heap \<times> mshr_queue) res" where
  "forceDeallocateTarget now h q i =
     (let was_full = isFull q in
      bindE (assertE (hasTargets (h ! i))) (\<lambda>_.
      bindE (popTarget (h ! i)) (\<lambda>m.
      bindE (if hasTargets m then Inr (h[i := m], q)
             else bindE (promoteDeferredTargets now m) (\<lambda>(promoted, m).
               if promoted then Inr (h[i := m], q) else deallocateOne (h[i := m]) q i)) (\<lambda>(h, q).
      Inr (was_full \<and> \<not> isFull q, h, q)))))"

definition squash_one :: "int \<Rightarrow> heap \<Rightarrow> mshr_queue \<Rightarrow> nat \<Rightarrow> (heap \<times> mshr_queue) res" where
  "squash_one thread h q i =
     (if sint (threadNum (h ! i)) = thread then
        bindE (assertE (tl_targets (targets (h ! i)) = [] \<or> thread = 0)) (\<lambda>_.
        (let m = (h ! i)\<lparr>targets := (targets (h ! i))\<lparr>tl_targets := []\<rparr>\<rparr>; h = h[i := m] in
         bindE (assertE (getNumTargets m = 0)) (\<lambda>_.
         if \<not> inService m then deallocateOne h q i else Inr (h, q))))
      else Inr (h, q))"

fun squash_loop :: "int \<Rightarrow> heap \<Rightarrow> mshr_queue \<Rightarrow> nat list \<Rightarrow> (heap \<times> mshr_queue) res" where
  "squash_loop thread h q [] = Inr (h, q)"
| "squash_loop thread h q (i # is) = bindE (squash_one thread h q i) (\<lambda>(h, q). squash_loop thread h q is)"

definition squash :: "heap \<Rightarrow> mshr_queue \<Rightarrow> int \<Rightarrow> (heap \<times> mshr_queue) res" where
  "squash h q thread = squash_loop thread h q (allocatedList q)"

definition drain :: "mshr_queue \<Rightarrow> nat \<times> mshr_queue" where
  "drain q = (if allocated q = 0 then (0, q\<lparr>drainState := Drained\<rparr>)
              else (1, q\<lparr>drainManager := True, drainState := Draining\<rparr>))"

section \<open>Changes to one register\<close>

text \<open>The part of a register its queue looks at.\<close>

definition timing :: "mshr \<Rightarrow> bool \<times> tick" where
  "timing m = (inService m, readyTime m)"

definition agree_off :: "nat \<Rightarrow> heap \<Rightarrow> heap \<Rightarrow> bool" where
  "agree_off i h h' \<longleftrightarrow> length h' = length h \<and>
     (\<forall>j < length h. j \<noteq> i \<longrightarrow> (\<exists>b. h' ! j = (h ! j)\<lparr>downstreamPending := b\<rparr>))"

definition keeps_timing :: "nat \<Rightarrow> heap \<Rightarrow> heap \<Rightarrow> bool" where
  "keeps_timing i h h' \<longleftrightarrow> agree_off i h h' \<and> timing (h' ! i) = timing (h ! i)"

lemma timing_simps [simp]:
  "timing (m\<lparr>downstreamPending := b\<rparr>) = timing m" "timing (m\<lparr>targets := ts\<rparr>) = timing m"
  "timing (m\<lparr>deferredTargets := ts\<rparr>) = timing m" "timing (m\<lparr>postInvalidate := b\<rparr>) = timing m"
  "timing (m\<lparr>postDowngrade := b\<rparr>) = timing m"
  by (simp_all add: timing_def)

lemma agree_off_pending: "pending_eq h h' \<Longrightarrow> agree_off i h h'"
  by (simp add: pending_eq_def agree_off_def)

lemma agree_off_trans: "agree_off i a b \<Longrightarrow> agree_off i b c \<Longrightarrow> agree_off i a c"
  unfolding agree_off_def by fastforce

lemma agree_off_update: "agree_off i h (h[i := m])"
  unfolding agree_off_def
proof (intro conjI allI impI)
  fix j assume "j \<noteq> i"
  then show "\<exists>b. h[i := m] ! j = (h ! j)\<lparr>downstreamPending := b\<rparr>"
    by (intro exI [of _ "downstreamPending (h ! j)"]) simp
qed simp

lemma keeps_timing_pending: "pending_eq h h' \<Longrightarrow> i < length h \<Longrightarrow> keeps_timing i h h'"
  unfolding keeps_timing_def by (metis agree_off_pending pending_eq_nth timing_simps(1))

lemma keeps_timing_refl [simp]: "i < length h \<Longrightarrow> keeps_timing i h h"
  by (rule keeps_timing_pending) simp_all

lemma keeps_timing_trans: "keeps_timing i a b \<Longrightarrow> keeps_timing i b c \<Longrightarrow> keeps_timing i a c"
  unfolding keeps_timing_def using agree_off_trans by metis

lemma keeps_timing_length: "keeps_timing i h h' \<Longrightarrow> length h' = length h"
  by (simp add: keeps_timing_def agree_off_def)

lemma keeps_timing_update:
  "i < length h \<Longrightarrow> timing m = timing (h ! i) \<Longrightarrow> keeps_timing i h (h[i := m])"
  by (simp add: keeps_timing_def agree_off_update)

lemma keeps_timing_put:
  "pending_eq h g \<Longrightarrow> i < length h \<Longrightarrow> (\<And>m. timing (f m) = timing m) \<Longrightarrow> keeps_timing i h (put_mshr g i f)"
  unfolding put_mshr_def
  by (rule keeps_timing_trans [OF keeps_timing_pending keeps_timing_update]) (auto simp: pending_eq_length)

lemma allocateTarget_keeps: "allocateTarget now h i pkt rt ord = Inr h' \<Longrightarrow> keeps_timing i h h'"
  by (auto simp: allocateTarget_def Let_def vec_get_eq_Inr split: if_splits
      dest!: tl_add_frame(1) intro!: keeps_timing_put)

lemma popTarget_timing: "popTarget m = Inr m' \<Longrightarrow> timing m' = timing m"
  by (auto simp: popTarget_def split: list.splits)

lemma put_mshr_twice [simp]: "put_mshr (put_mshr h i f) i g = put_mshr h i (\<lambda>m. g (f m))"
  by (cases "i < length h") (simp_all add: put_mshr_def list_update_beyond)

lemma mshr_handleFill_keeps: "mshr_handleFill fuel h i pkt = Inr h' \<Longrightarrow> keeps_timing i h h'"
  by (auto simp: mshr_handleFill_def vec_get_eq_Inr split: if_splits
      dest!: clear_frame(2) intro!: keeps_timing_put keeps_timing_pending [OF pending_eq_refl])

lemma save_snoop_keeps:
  "save_snoop garbage now h i pkt ord = Inr (pkt', h') \<Longrightarrow> i < length h \<Longrightarrow> keeps_timing i h h'"
  by (auto simp: save_snoop_def Let_def split: if_splits dest!: tl_add_frame(1) intro!: keeps_timing_put)

lemma mshr_handleSnoop_keeps:
  assumes "mshr_handleSnoop garbage now h i pkt ord = Inr (b, pkt', h')"
  shows "keeps_timing i h h'"
  using assms
proof (cases rule: mshr_handleSnoopE)
  case (saved k p c)
  have "keeps_timing i h (h[i := k])" using saved(1,5) by (intro keeps_timing_update) auto
  moreover have "keeps_timing i (h[i := k]) c"
    using saved(1,6) save_snoop_keeps [of garbage now "h[i := k]" i pkt ord p c]
      keeps_timing_pending [OF pending_eq_refl, of i "h[i := k]"] by (auto split: if_splits)
  ultimately have c: "keeps_timing i h c" by (rule keeps_timing_trans)
  have "keeps_timing i c (put_mshr c i (\<lambda>m. m\<lparr>postDowngrade := True\<rparr>))"
    using keeps_timing_length [OF c] saved(1) by (intro keeps_timing_put) auto
  then show ?thesis using c saved(7) keeps_timing_trans [OF c] by (auto split: if_splits)
qed (auto intro!: keeps_timing_update)

section \<open>The queue invariant\<close>

definition free_reg :: "mshr \<Rightarrow> bool" where
  "free_reg m \<longleftrightarrow> getNumTargets m = 0 \<and> \<not> inService m \<and> tl_isReset (targets m)"

definition mshrq_lists :: "heap \<Rightarrow> mshr_queue \<Rightarrow> bool" where
  "mshrq_lists h q \<longleftrightarrow>
     distinct (allocatedList q @ freeList q) \<and> set (allocatedList q @ freeList q) = set (registers q) \<and>
     distinct (registers q) \<and> int (length (registers q)) = numEntries q \<and> (\<forall>i \<in> set (registers q). i < length h)"

definition mshrq_ready :: "heap \<Rightarrow> mshr_queue \<Rightarrow> bool" where
  "mshrq_ready h q \<longleftrightarrow>
     distinct (readyList q) \<and> set (readyList q) = {i \<in> set (allocatedList q). \<not> inService (h ! i)}"

definition mshrq_counts :: "heap \<Rightarrow> mshr_queue \<Rightarrow> bool" where
  "mshrq_counts h q \<longleftrightarrow> allocated q = int (length (allocatedList q)) \<and>
     inServiceEntries q = int (length (filter (\<lambda>i. inService (h ! i)) (allocatedList q)))"

definition mshrq_inv :: "heap \<Rightarrow> mshr_queue \<Rightarrow> bool" where
  "mshrq_inv h q \<longleftrightarrow> heap_ok h \<and> mshrq_lists h q \<and> mshrq_ready h q \<and> mshrq_counts h q \<and>
     (\<forall>i \<in> set (freeList q). free_reg (h ! i))"

lemma free_reg_pending [simp]: "free_reg (m\<lparr>downstreamPending := b\<rparr>) = free_reg m"
  by (simp add: free_reg_def getNumTargets_def)

lemma agree_off_inService: "agree_off i h h' \<Longrightarrow> j < length h \<Longrightarrow> j \<noteq> i \<Longrightarrow> inService (h' ! j) = inService (h ! j)"
  unfolding agree_off_def by fastforce

lemma agree_off_free: "agree_off i h h' \<Longrightarrow> j < length h \<Longrightarrow> j \<noteq> i \<Longrightarrow> free_reg (h' ! j) = free_reg (h ! j)"
  unfolding agree_off_def by (metis free_reg_pending)

lemma mshrq_inv_agree:
  assumes inv: "mshrq_inv h q" and ok: "heap_ok h'" and a: "agree_off i h h'"
    and s: "i < length h \<Longrightarrow> inService (h' ! i) = inService (h ! i)" and i: "i \<notin> set (freeList q)"
  shows "mshrq_inv h' q"
proof -
  have reg: "j < length h" if "j \<in> set (allocatedList q) \<union> set (freeList q)" for j
    using inv that by (auto simp: mshrq_inv_def mshrq_lists_def)
  have same: "inService (h' ! j) = inService (h ! j)" if "j < length h" for j
    using agree_off_inService [OF a that] s that by (cases "j = i") simp_all
  have free: "free_reg (h' ! j)" if "j \<in> set (freeList q)" for j
  proof -
    have "j \<noteq> i" "j < length h" "free_reg (h ! j)" using that i reg inv by (auto simp: mshrq_inv_def)
    then show ?thesis using agree_off_free [OF a] by simp
  qed
  have "filter (\<lambda>j. inService (h' ! j)) (allocatedList q) = filter (\<lambda>j. inService (h ! j)) (allocatedList q)"
    by (rule filter_cong) (simp_all add: same reg)
  moreover have "{j \<in> set (allocatedList q). \<not> inService (h' ! j)} = {j \<in> set (allocatedList q). \<not> inService (h ! j)}"
    using same reg by blast
  ultimately show ?thesis
    using inv ok free a
    by (simp add: mshrq_inv_def mshrq_lists_def mshrq_ready_def mshrq_counts_def agree_off_def)
qed

lemma mshrq_inv_keeps:
  "mshrq_inv h q \<Longrightarrow> heap_ok h' \<Longrightarrow> keeps_timing i h h' \<Longrightarrow> i \<notin> set (freeList q) \<Longrightarrow> mshrq_inv h' q"
  by (rule mshrq_inv_agree) (simp_all add: keeps_timing_def timing_def)

lemma insert_before_later_props:
  assumes "insert_before_later h i ready = Inr ready'"
  shows "set ready' = insert i (set ready)" "distinct ready \<Longrightarrow> i \<notin> set ready \<Longrightarrow> distinct ready'"
    "sorted (map (\<lambda>j. readyTime (h ! j)) ready) \<Longrightarrow> sorted (map (\<lambda>j. readyTime (h ! j)) ready')"
  using assms by (induction ready arbitrary: ready') (auto split: if_splits, (meson less_le_trans less_imp_le)+)

lemma insert_before_later_total:
  "j \<in> set ready \<Longrightarrow> readyTime (h ! j) > readyTime (h ! i) \<Longrightarrow> \<exists>ready'. insert_before_later h i ready = Inr ready'"
  by (induction ready) auto

lemma addToReadyList_total: "\<exists>ready'. addToReadyList h i ready = Inr ready'"
proof (cases "ready = [] \<or> readyTime (h ! last ready) \<le> readyTime (h ! i)")
  case False
  then show ?thesis using insert_before_later_total [of "last ready" ready h i]
    by (auto simp: addToReadyList_def)
qed (simp add: addToReadyList_def)

lemma sorted_le_last: "sorted xs \<Longrightarrow> y \<in> set xs \<Longrightarrow> y \<le> last xs"
  by (induction xs) (auto split: if_splits)

lemma sorted_append_last:
  "sorted (map f xs) \<Longrightarrow> xs = [] \<or> f (last xs) \<le> f x \<Longrightarrow> sorted (map f (xs @ [x]))"
  using sorted_le_last [of "map f xs"] by (cases "xs = []") (auto simp: sorted_append last_map, meson imageI order_trans)

lemma addToReadyList_props:
  assumes "addToReadyList h i ready = Inr ready'"
  shows "set ready' = insert i (set ready)" "distinct ready \<Longrightarrow> i \<notin> set ready \<Longrightarrow> distinct ready'"
    "sorted (map (\<lambda>j. readyTime (h ! j)) ready) \<Longrightarrow> sorted (map (\<lambda>j. readyTime (h ! j)) ready')"
  using assms insert_before_later_props [of h i ready ready'] sorted_append_last [of "\<lambda>j. readyTime (h ! j)" ready i]
  by (auto simp: addToReadyList_def split: if_splits)

lemma filter_toggle:
  "distinct xs \<Longrightarrow> i \<in> set xs \<Longrightarrow> \<not> P i \<Longrightarrow> Q i \<Longrightarrow> (\<And>j. j \<in> set xs \<Longrightarrow> j \<noteq> i \<Longrightarrow> Q j = P j) \<Longrightarrow>
   length (filter Q xs) = Suc (length (filter P xs))"
proof (induction xs)
  case (Cons x xs)
  show ?case
  proof (cases "x = i")
    case True
    then have "filter Q xs = filter P xs" using Cons.prems by (intro filter_cong) auto
    then show ?thesis using True Cons.prems by simp
  next
    case False
    then show ?thesis using Cons by auto
  qed
qed simp

lemma length_filter_remove1:
  "distinct xs \<Longrightarrow> i \<in> set xs \<Longrightarrow> int (length (filter P (remove1 i xs))) = int (length (filter P xs)) - (if P i then 1 else 0)"
  by (induction xs) auto

lemma mshrq_listsD:
  assumes "mshrq_inv h q"
  shows "distinct (allocatedList q)" "distinct (freeList q)" "set (allocatedList q) \<inter> set (freeList q) = {}"
    "i \<in> set (allocatedList q) \<Longrightarrow> i < length h" "i \<in> set (freeList q) \<Longrightarrow> i < length h"
    "set (readyList q) = {i \<in> set (allocatedList q). \<not> inService (h ! i)}" "distinct (readyList q)"
  using assms by (auto simp: mshrq_inv_def mshrq_lists_def mshrq_ready_def)

lemma mshrq_inv_issue:
  assumes inv: "mshrq_inv h q" and ok: "heap_ok h'" and a: "agree_off i h h'" and i: "i \<in> set (allocatedList q)"
    and s: "\<not> inService (h ! i)" "inService (h' ! i)"
  shows "mshrq_inv h' (q\<lparr>readyList := remove1 i (readyList q), inServiceEntries := inServiceEntries q + 1\<rparr>)"
proof -
  note L = mshrq_listsD [OF inv]
  have oth: "inService (h' ! j) = inService (h ! j)" if "j \<in> set (allocatedList q)" "j \<noteq> i" for j
    using agree_off_inService [OF a L(4) [OF that(1)] that(2)] .
  have "length (filter (\<lambda>j. inService (h' ! j)) (allocatedList q)) =
      Suc (length (filter (\<lambda>j. inService (h ! j)) (allocatedList q)))"
    using L(1) i s oth by (intro filter_toggle) auto
  moreover have "set (remove1 i (readyList q)) = {j \<in> set (allocatedList q). \<not> inService (h' ! j)}"
    using L(6,7) s oth i by auto
  moreover have "free_reg (h' ! j)" if "j \<in> set (freeList q)" for j
    using agree_off_free [OF a L(5) [OF that]] that i L(3) inv by (auto simp: mshrq_inv_def)
  ultimately show ?thesis using inv ok a
    by (simp add: mshrq_inv_def mshrq_lists_def mshrq_ready_def mshrq_counts_def agree_off_def)
qed

lemma mshrq_inv_pend:
  assumes inv: "mshrq_inv h q" and ok: "heap_ok h'" and a: "agree_off i h h'" and i: "i \<in> set (allocatedList q)"
    and s: "inService (h ! i)" "\<not> inService (h' ! i)" and r: "addToReadyList h' i (readyList q) = Inr ready"
  shows "mshrq_inv h' (q\<lparr>inServiceEntries := inServiceEntries q - 1, readyList := ready\<rparr>)"
proof -
  note L = mshrq_listsD [OF inv]
  have oth: "inService (h' ! j) = inService (h ! j)" if "j \<in> set (allocatedList q)" "j \<noteq> i" for j
    using agree_off_inService [OF a L(4) [OF that(1)] that(2)] .
  have "length (filter (\<lambda>j. inService (h ! j)) (allocatedList q)) =
      Suc (length (filter (\<lambda>j. inService (h' ! j)) (allocatedList q)))"
    using L(1) i s oth by (intro filter_toggle) auto
  moreover have "set ready = {j \<in> set (allocatedList q). \<not> inService (h' ! j)}" "distinct ready"
    using addToReadyList_props(1,2) [OF r] L(6,7) s oth i by auto
  moreover have "free_reg (h' ! j)" if "j \<in> set (freeList q)" for j
    using agree_off_free [OF a L(5) [OF that]] that i L(3) inv by (auto simp: mshrq_inv_def)
  ultimately show ?thesis using inv ok a
    by (simp add: mshrq_inv_def mshrq_lists_def mshrq_ready_def mshrq_counts_def agree_off_def)
qed

section \<open>Every operation keeps the invariant\<close>

lemma mshr_deallocate_props:
  "mshr_deallocate m = Inr m' \<Longrightarrow>
   tl_targets (targets m) = [] \<and> tl_targets (targets m') = [] \<and> \<not> inService m' \<and> tl_isReset (targets m') \<and>
   deferredTargets m' = deferredTargets m"
  by (auto simp: mshr_deallocate_def Let_def tl_resetFlags_def tl_isReset_def split: if_splits)

lemma deallocateOne_inv:
  assumes inv: "mshrq_inv h q" and i: "i \<in> set (allocatedList q)" and d: "tl_targets (deferredTargets (h ! i)) = []"
    and r: "deallocateOne h q i = Inr (h', q')"
  shows "mshrq_inv h' q'"
proof -
  note L = mshrq_listsD [OF inv]
  obtain m where m: "mshr_deallocate (h ! i) = Inr m" "h' = h[i := m]"
    using r by (auto simp: deallocateOne_def Let_def)
  have ilen: "i < length h" using L(4) i .
  then have "mshr_ok m" using inv mshr_deallocate_ok [OF _ m(1) d] by (simp add: mshrq_inv_def heap_ok_nth)
  then have ok: "heap_ok h'" using inv by (simp add: m(2) mshrq_inv_def heap_ok_update)
  have free: "free_reg m" using mshr_deallocate_props [OF m(1)] d by (simp add: free_reg_def getNumTargets_def)
  have oth: "h' ! j = h ! j" if "j \<noteq> i" for j using that by (simp add: m(2))
  have al: "set (remove1 i (allocatedList q)) = set (allocatedList q) - {i}" using L(1) by simp
  have "filter (\<lambda>j. inService (h' ! j)) (remove1 i (allocatedList q)) =
      filter (\<lambda>j. inService (h ! j)) (remove1 i (allocatedList q))"
    by (rule filter_cong) (use al oth in auto)
  then have cnt: "int (length (filter (\<lambda>j. inService (h' ! j)) (remove1 i (allocatedList q)))) =
      int (length (filter (\<lambda>j. inService (h ! j)) (allocatedList q))) - (if inService (h ! i) then 1 else 0)"
    using length_filter_remove1 [OF L(1) i, of "\<lambda>j. inService (h ! j)"] by simp
  have rdy: "set (if inService (h ! i) then readyList q else remove1 i (readyList q)) =
      {j \<in> set (allocatedList q) - {i}. \<not> inService (h' ! j)}"
  proof -
    have "{j \<in> set (allocatedList q) - {i}. \<not> inService (h' ! j)} = {j \<in> set (allocatedList q). \<not> inService (h ! j)} - {i}"
      using oth by force
    then show ?thesis using L(6,7) by auto
  qed
  have q': "registers q' = registers q" "numEntries q' = numEntries q"
    "allocatedList q' = remove1 i (allocatedList q)" "freeList q' = i # freeList q" "allocated q' = allocated q - 1"
    "readyList q' = (if inService (h ! i) then readyList q else remove1 i (readyList q))"
    "inServiceEntries q' = inServiceEntries q - (if inService (h ! i) then 1 else 0)"
    using r m by (auto simp: deallocateOne_def Let_def split: if_splits)
  have len: "length (allocatedList q) = Suc (length (remove1 i (allocatedList q)))"
    using length_pos_if_in_set [OF i] i by (simp add: length_remove1)
  have lists: "mshrq_lists h' q'"
    using inv L(1,2,3) i al unfolding mshrq_inv_def mshrq_lists_def q' by (simp add: m(2), blast)
  have "mshrq_ready h' q'" using L(7) rdy al unfolding mshrq_ready_def q' by simp
  moreover have "mshrq_counts h' q'" using inv cnt len unfolding mshrq_inv_def mshrq_counts_def q' by simp
  moreover have "free_reg (h' ! j)" if "j \<in> set (freeList q')" for j
    using that free inv ilen oth unfolding q' mshrq_inv_def by (cases "j = i") (auto simp: m(2))
  ultimately show ?thesis using ok lists by (simp add: mshrq_inv_def)
qed

lemma mshr_allocate_frame:
  assumes "mshr_allocate now h i a n pkt rt ord = Inr h'"
  shows "i < length h \<and> agree_off i h h' \<and> \<not> inService (h' ! i) \<and> hasTargets (h' ! i) \<and> readyTime (h' ! i) = rt \<and>
    mshr_blkAddr (h' ! i) = a \<and> isSecure pkt = Inr (mshr_isSecure (h' ! i)) \<and>
    mshr_isUncacheable (h' ! i) = req_isUncacheable (pkt_req pkt)"
proof -
  obtain sec where i: "i < length h" "isSecure pkt = Inr sec"
    using assms by (auto simp: mshr_allocate_def vec_get_eq_Inr split: if_splits)
  define m where "m = (h ! i)\<lparr>mshr_blkAddr := a, mshr_blkSize := n, mshr_isSecure := sec,
                readyTime := rt, mshr_order := ord, isForward := False,
                mshr_isUncacheable := req_isUncacheable (pkt_req pkt), inService := False,
                downstreamPending := False, threadNum := 0\<rparr>"
  obtain g ts where g: "tl_add now (h[i := m]) (targets m) pkt rt ord
      (if pkt_cmd pkt = HardPFReq then FromPrefetcher else FromCPU) True = Inr (g, ts)"
    "h' = put_mshr g i (\<lambda>m. m\<lparr>targets := ts\<rparr>)"
    using assms i by (auto simp: mshr_allocate_def Let_def m_def split: if_splits)
  have p: "pending_eq (h[i := m]) g" using tl_add_frame(1) [OF g(1)] .
  then obtain b where b: "g ! i = m\<lparr>downstreamPending := b\<rparr>" using i by (auto elim: pending_eq_nth [of _ _ i])
  have len: "length g = length h" using pending_eq_length [OF p] by simp
  have "agree_off i h h'" unfolding g(2) put_mshr_def
    by (rule agree_off_trans [OF agree_off_trans [OF agree_off_update agree_off_pending [OF p]] agree_off_update])
  then show ?thesis using i b len tl_add_frame(2) [OF g(1)]
    by (simp add: g(2) put_mshr_def m_def hasTargets_def)
qed

lemma q_allocate_inv:
  assumes inv: "mshrq_inv h q" and r: "q_allocate now h q a n pkt rt ord = Inr (i, h', q')"
  shows "mshrq_inv h' q'"
proof -
  note L = mshrq_listsD [OF inv]
  obtain free ready where f: "freeList q = i # free" "mshr_allocate now h i a n pkt rt ord = Inr h'"
    "addToReadyList h' i (readyList q) = Inr ready"
    "q' = q\<lparr>freeList := free, allocatedList := allocatedList q @ [i], readyList := ready, allocated := allocated q + 1\<rparr>"
    using r by (auto simp: q_allocate_def split: list.splits if_splits)
  have fr: "free_reg (h ! i)" using inv f(1) by (simp add: mshrq_inv_def)
  note fm = mshr_allocate_frame [OF f(2)]
  have ok: "heap_ok h'"
    using mshr_allocate_ok [OF _ f(2)] inv fr by (simp add: mshrq_inv_def free_reg_def getNumTargets_def)
  have oth: "inService (h' ! j) = inService (h ! j)" if "j \<in> set (allocatedList q)" for j
  proof -
    have "j \<noteq> i" using L(3) that f(1) by auto
    then show ?thesis using fm L(4) [OF that] by (simp add: agree_off_inService [of i h])
  qed
  have "filter (\<lambda>j. inService (h' ! j)) (allocatedList q) = filter (\<lambda>j. inService (h ! j)) (allocatedList q)"
    by (rule filter_cong) (use oth in auto)
  moreover have "set ready = {j \<in> set (allocatedList q @ [i]). \<not> inService (h' ! j)}" "distinct ready"
    using addToReadyList_props(1,2) [OF f(3)] L(3,6,7) oth fm f(1) by auto
  moreover have "free_reg (h' ! j)" if "j \<in> set free" for j
    using agree_off_free [of i h h' j] fm L(2) L(5) [of j] that f(1) inv by (auto simp: mshrq_inv_def)
  moreover have "length h' = length h" using fm by (simp add: agree_off_def)
  ultimately show ?thesis using inv ok fm f(1)
    unfolding f(4) by (auto simp: mshrq_inv_def mshrq_lists_def mshrq_ready_def mshrq_counts_def)
qed

lemma q_markPending_inv:
  assumes inv: "mshrq_inv h q" and i: "i \<in> set (allocatedList q)" and ok: "mshr_ok ((h ! i)\<lparr>inService := False\<rparr>)"
    and r: "q_markPending h q i = Inr (h', q')"
  shows "mshrq_inv h' q'"
proof -
  obtain ready where q: "inService (h ! i)" "h' = h[i := (h ! i)\<lparr>inService := False\<rparr>]"
    "addToReadyList h' i (readyList q) = Inr ready"
    "q' = q\<lparr>inServiceEntries := inServiceEntries q - 1, readyList := ready\<rparr>"
    using r by (auto simp: q_markPending_def Let_def split: if_splits)
  have "heap_ok h'" using inv ok by (simp add: q(2) mshrq_inv_def heap_ok_update)
  then show ?thesis using mshrq_listsD(4) [OF inv i] q
    unfolding q(4) by (intro mshrq_inv_pend [OF inv _ _ i q(1)]) (auto simp: agree_off_update)
qed

lemma getNumTargets_one:
  "getNumTargets m = 1 \<Longrightarrow> popTarget m = Inr m' \<Longrightarrow> tl_targets (deferredTargets m') = []"
  by (auto simp: getNumTargets_def popTarget_def split: list.splits)

lemma mshr_markInService_frame:
  assumes "mshr_markInService fuel h i pd = Inr (b, h')"
  shows "i < length h \<and> agree_off i h h' \<and> \<not> inService (h ! i) \<and> inService (h' ! i) = (\<not> b) \<and>
    (b \<longrightarrow> keeps_timing i h h' \<and> tl_targets (deferredTargets (h' ! i)) = [])"
proof -
  have i: "i < length h" "\<not> inService (h ! i)"
    using assms by (auto simp: mshr_markInService_def vec_get_eq_Inr split: if_splits)
  obtain f where f: "isForwardNoResponse (h ! i) = Inr f"
    using assms i by (auto simp: mshr_markInService_def split: if_splits)
  show ?thesis
  proof (cases f)
    case True
    then obtain m where m: "getNumTargets (h ! i) = 1" "popTarget (h ! i) = Inr m" "h' = h[i := m]" "b"
      using assms i f by (auto simp: mshr_markInService_def split: if_splits)
    then show ?thesis
      using i popTarget_timing [OF m(2)] getNumTargets_one [OF m(1,2)]
      by (simp add: agree_off_update keeps_timing_update, simp add: timing_def)
  next
    case False
    define m where "m = (h ! i)\<lparr>inService := True, pendingDirty := tl_needsExclusive (targets (h ! i)) \<or> pd,
      postInvalidate := False, postDowngrade := False\<rparr>"
    have p: "pending_eq (h[i := m]) h'" "\<not> b"
      using assms i f False clear_frame(2) by (auto simp: mshr_markInService_def Let_def m_def split: if_splits)
    then obtain c where "h' ! i = m\<lparr>downstreamPending := c\<rparr>" using i by (auto elim: pending_eq_nth [of _ _ i])
    then show ?thesis
      using i p agree_off_trans [OF agree_off_update agree_off_pending [OF p(1)]] by (simp add: m_def)
  qed
qed

lemma q_markInService_inv:
  assumes inv: "mshrq_inv h q" and i: "i \<in> set (allocatedList q)"
    and r: "q_markInService fuel h q i pd = Inr (h', q')"
  shows "mshrq_inv h' q'"
proof -
  obtain b g where g: "mshr_markInService fuel h i pd = Inr (b, g)"
    "(if b then q_deallocate g q i
     else Inr (g, q\<lparr>readyList := remove1 i (readyList q), inServiceEntries := inServiceEntries q + 1\<rparr>)) = Inr (h', q')"
    using r unfolding q_markInService_def by (rule bindE_pairE)
  note fm = mshr_markInService_frame [OF g(1)]
  have ok: "heap_ok g" using inv mshr_markInService_ok [OF _ g(1)] by (simp add: mshrq_inv_def)
  show ?thesis
  proof (cases b)
    case True
    have "i \<notin> set (freeList q)" using mshrq_listsD(3) [OF inv] i by auto
    then have "mshrq_inv g q" using True fm mshrq_inv_keeps [OF inv ok, of i] by simp
    then show ?thesis using True g(2) fm i deallocateOne_inv [of g q i h' q'] by (simp add: q_deallocate_def)
  next
    case False
    then show ?thesis using g(2) fm mshrq_inv_issue [OF inv ok _ i] by auto
  qed
qed

lemma moveToFront_inv:
  "mshrq_inv h q \<Longrightarrow> i \<in> set (allocatedList q) \<Longrightarrow> mshrq_inv h (moveToFront h q i)"
  by (auto simp: mshrq_inv_def mshrq_lists_def mshrq_ready_def mshrq_counts_def moveToFront_def)

lemma drain_inv: "mshrq_inv h q \<Longrightarrow> mshrq_inv h (snd (drain q))"
  by (auto simp: mshrq_inv_def mshrq_lists_def mshrq_ready_def mshrq_counts_def drain_def)

lemma mshrq_update_inv:
  assumes inv: "mshrq_inv h q" and i: "i \<in> set (allocatedList q)" and ok: "mshr_ok m"
    and s: "inService m = inService (h ! i)"
  shows "mshrq_inv (h[i := m]) q"
proof -
  have "heap_ok (h[i := m])" using inv ok by (simp add: mshrq_inv_def heap_ok_update)
  then show ?thesis
    using mshrq_inv_agree [OF inv _ agree_off_update] mshrq_listsD(3,4) [OF inv] i s by force
qed

lemma mshrq_mshr_ok: "mshrq_inv h q \<Longrightarrow> i \<in> set (allocatedList q) \<Longrightarrow> mshr_ok (h ! i)"
  using mshrq_listsD(4) [of h q i] heap_ok_nth [of h i] unfolding mshrq_inv_def by blast

lemma forceDeallocateTarget_inv:
  assumes inv: "mshrq_inv h q" and i: "i \<in> set (allocatedList q)"
    and r: "forceDeallocateTarget now h q i = Inr (b, h', q')"
  shows "mshrq_inv h' q'"
proof -
  obtain m where m: "popTarget (h ! i) = Inr m"
    "(if hasTargets m then Inr (h[i := m], q)
      else bindE (promoteDeferredTargets now m) (\<lambda>(promoted, m).
        if promoted then Inr (h[i := m], q) else deallocateOne (h[i := m]) q i)) = Inr (h', q')"
    using r unfolding forceDeallocateTarget_def Let_def bindE_eq_Inr by (elim exE conjE) auto
  have s: "inService m = inService (h ! i)" using popTarget_timing [OF m(1)] by (simp add: timing_def)
  have ok: "mshr_ok m" using mshrq_mshr_ok [OF inv i] m(1) by (rule popTarget_ok)
  note keep = mshrq_update_inv [OF inv i]
  show ?thesis
  proof (cases "hasTargets m")
    case True
    then show ?thesis using m(2) keep [OF ok s] by simp
  next
    case False
    then have "bindE (promoteDeferredTargets now m) (\<lambda>(promoted, m).
        if promoted then Inr (h[i := m], q) else deallocateOne (h[i := m]) q i) = Inr (h', q')"
      using m(2) by simp
    then obtain p n where n: "promoteDeferredTargets now m = Inr (p, n)"
      "(if p then Inr (h[i := n], q) else deallocateOne (h[i := n]) q i) = Inr (h', q')"
      by (rule bindE_pairE)
    note pok = promote_ok [OF ok n(1)]
    have "inService n = inService (h ! i)"
      using n(1) s by (auto simp: promoteDeferredTargets_def split: list.splits if_splits)
    note inv' = keep [OF pok(1) this]
    show ?thesis
    proof (cases p)
      case True
      then show ?thesis using n(2) inv' by simp
    next
      case False
      then show ?thesis using n(2) deallocateOne_inv [OF inv' i] pok(2) mshrq_listsD(4) [OF inv i] by simp
    qed
  qed
qed

lemma deallocateOne_lists:
  "deallocateOne h q i = Inr (h', q') \<Longrightarrow> allocatedList q' = remove1 i (allocatedList q)"
  by (auto simp: deallocateOne_def Let_def split: if_splits)

lemma squash_one_inv:
  assumes inv: "mshrq_inv h q" and i: "i \<in> set (allocatedList q)" and r: "squash_one t h q i = Inr (h', q')"
  shows "mshrq_inv h' q' \<and> set (allocatedList q) \<subseteq> insert i (set (allocatedList q'))"
proof (cases "sint (threadNum (h ! i)) = t")
  case True
  let ?m = "(h ! i)\<lparr>targets := (targets (h ! i))\<lparr>tl_targets := []\<rparr>\<rparr>"
  have q: "getNumTargets ?m = 0"
    "(if \<not> inService (h ! i) then deallocateOne (h[i := ?m]) q i else Inr (h[i := ?m], q)) = Inr (h', q')"
    using r True by (auto simp: squash_one_def Let_def split: if_splits)
  note D = mshr_okD [OF mshrq_mshr_ok [OF inv i]]
  have "mshr_ok ?m"
    by (rule mshr_okI; simp) (use D covered_subset [of "targets (h ! i)" "[]"] in auto)
  then have inv': "mshrq_inv (h[i := ?m]) q" using mshrq_update_inv [OF inv i] by simp
  show ?thesis
  proof (cases "inService (h ! i)")
    case False
    then have d: "deallocateOne (h[i := ?m]) q i = Inr (h', q')" using q(2) by simp
    moreover have "tl_targets (deferredTargets ?m) = []" using q(1) by (simp add: getNumTargets_def)
    ultimately show ?thesis
      using deallocateOne_inv [OF inv' i _ d] deallocateOne_lists [OF d] mshrq_listsD(1,4) [OF inv] i by auto
  qed (use q(2) inv' in auto)
qed (use r inv in \<open>auto simp: squash_one_def\<close>)

lemma squash_loop_inv:
  "mshrq_inv h q \<Longrightarrow> set is \<subseteq> set (allocatedList q) \<Longrightarrow> distinct is \<Longrightarrow> squash_loop t h q is = Inr (h', q') \<Longrightarrow> mshrq_inv h' q'"
proof (induction "is" arbitrary: h q)
  case (Cons i js)
  obtain g p where g: "squash_one t h q i = Inr (g, p)" "squash_loop t g p js = Inr (h', q')"
    using Cons.prems(4) unfolding squash_loop.simps by (rule bindE_pairE)
  have "mshrq_inv g p \<and> set (allocatedList q) \<subseteq> insert i (set (allocatedList p))"
    using squash_one_inv [OF Cons.prems(1) _ g(1)] Cons.prems(2) by simp
  then show ?case using Cons.IH [OF _ _ _ g(2)] Cons.prems by auto
qed simp

lemma squash_inv: "mshrq_inv h q \<Longrightarrow> squash h q t = Inr (h', q') \<Longrightarrow> mshrq_inv h' q'"
  unfolding squash_def using squash_loop_inv mshrq_listsD(1) by blast

section \<open>The queue at work\<close>

text \<open>The steps a cache takes with its queue: a new miss, a further target, a snoop, issuing the request, the response and
  the service of its targets, a second round for the deferred targets or the end of the register, reordering, removal of
  prefetches, squashing and draining, and changes of the pending flags by the queues of other caches.\<close>

inductive mshr_step :: "heap \<times> mshr_queue \<Rightarrow> heap \<times> mshr_queue \<Rightarrow> bool" where
  miss: "q_allocate now h q a n pkt rt ord = Inr (i, h', q') \<Longrightarrow> mshr_step (h, q) (h', q')"
| target: "i \<in> set (allocatedList q) \<Longrightarrow> allocateTarget now h i pkt rt ord = Inr h' \<Longrightarrow> mshr_step (h, q) (h', q)"
| snoop: "i \<in> set (allocatedList q) \<Longrightarrow> mshr_handleSnoop garbage now h i pkt ord = Inr (b, pkt', h') \<Longrightarrow>
    mshr_step (h, q) (h', q)"
| issue: "i \<in> set (allocatedList q) \<Longrightarrow> q_markInService fuel h q i pd = Inr (h', q') \<Longrightarrow> mshr_step (h, q) (h', q')"
| fill: "i \<in> set (allocatedList q) \<Longrightarrow> mshr_handleFill fuel h i pkt = Inr h' \<Longrightarrow> mshr_step (h, q) (h', q)"
| serve: "i \<in> set (allocatedList q) \<Longrightarrow> popTarget (h ! i) = Inr m \<Longrightarrow> mshr_step (h, q) (h[i := m], q)"
| again: "i \<in> set (allocatedList q) \<Longrightarrow> promoteDeferredTargets now (h ! i) = Inr (True, m) \<Longrightarrow>
    q_markPending (h[i := m]) q i = Inr (h', q') \<Longrightarrow> mshr_step (h, q) (h', q')"
| finish: "i \<in> set (allocatedList q) \<Longrightarrow> promoteDeferredTargets now (h ! i) = Inr (False, m) \<Longrightarrow>
    q_deallocate (h[i := m]) q i = Inr (h', q') \<Longrightarrow> mshr_step (h, q) (h', q')"
| front: "i \<in> set (allocatedList q) \<Longrightarrow> mshr_step (h, q) (h, moveToFront h q i)"
| forced: "i \<in> set (allocatedList q) \<Longrightarrow> forceDeallocateTarget now h q i = Inr (b, h', q') \<Longrightarrow> mshr_step (h, q) (h', q')"
| squashed: "squash h q thread = Inr (h', q') \<Longrightarrow> mshr_step (h, q) (h', q')"
| drained: "mshr_step (h, q) (h, snd (drain q))"
| elsewhere: "pending_eq h h' \<Longrightarrow> mshr_step (h, q) (h', q)"

inductive mshr_reach :: "heap \<times> mshr_queue \<Rightarrow> bool" where
  start: "heap_ok h \<Longrightarrow> new_MSHRQueue h lbl num reserve demand idx = Inr (h', q) \<Longrightarrow> mshr_reach (h', q)"
| more: "mshr_reach s \<Longrightarrow> mshr_step s s' \<Longrightarrow> mshr_reach s'"

lemma new_MSHR_ok: "mshr_ok new_MSHR" "free_reg new_MSHR"
  by (simp_all add: new_MSHR_def new_TargetList_def mshr_ok_def excl_covered_def upgrade_covered_def tl_isReset_def
      free_reg_def getNumTargets_def)

lemma new_MSHRQueue_inv:
  assumes "heap_ok h" "new_MSHRQueue h lbl num reserve demand idx = Inr (h', q)"
  shows "mshrq_inv h' q"
proof -
  have ok: "heap_ok (h @ replicate (nat (num + reserve - 1)) new_MSHR)"
    using assms(1) new_MSHR_ok by (auto simp: heap_ok_def)
  have "free_reg ((h @ replicate n new_MSHR) ! i)" if "i \<in> set [length h ..< length h + n]" for i n
    using that new_MSHR_ok by (auto simp: nth_append)
  then show ?thesis using assms(2) ok
    by (auto simp: new_MSHRQueue_def Let_def mshrq_inv_def mshrq_lists_def mshrq_ready_def mshrq_counts_def
        split: if_splits)
qed

lemma not_free: "mshrq_inv h q \<Longrightarrow> i \<in> set (allocatedList q) \<Longrightarrow> i \<notin> set (freeList q)"
  using mshrq_listsD(3) [of h q] by auto

lemma mshrq_keep:
  "mshrq_inv h q \<Longrightarrow> i \<in> set (allocatedList q) \<Longrightarrow> heap_ok h' \<Longrightarrow> keeps_timing i h h' \<Longrightarrow> mshrq_inv h' q"
  using mshrq_inv_keeps not_free by blast

lemma mshrq_inv_pending:
  assumes "mshrq_inv h q" "pending_eq h h'"
  shows "mshrq_inv h' q"
proof -
  have "heap_ok h'" using assms by (simp add: mshrq_inv_def heap_ok_pending)
  moreover have "length h \<notin> set (freeList q)" using mshrq_listsD(5) [OF assms(1), of "length h"] by blast
  ultimately show ?thesis
    using mshrq_inv_agree [OF assms(1) _ agree_off_pending [OF assms(2)], of "length h"] pending_eq_length [OF assms(2)] by simp
qed

lemma mshr_step_inv:
  assumes "mshr_step (h, q) (h', q')" "mshrq_inv h q"
  shows "mshrq_inv h' q'"
proof -
  have ok: "heap_ok h" using assms(2) by (simp add: mshrq_inv_def)
  from assms(1) show ?thesis
  proof cases
    case (miss now a n pkt rt ord i)
    show ?thesis by (rule q_allocate_inv [OF assms(2) miss(1)])
  next
    case (target i now pkt rt ord)
    then show ?thesis
      using mshrq_keep [OF assms(2) target(2)] allocateTarget_ok [OF ok target(3)] allocateTarget_keeps [OF target(3)] by simp
  next
    case (snoop i garbage now pkt ord b pkt')
    then show ?thesis
      using mshrq_keep [OF assms(2) snoop(2)] mshr_handleSnoop_ok [OF ok snoop(3)] mshr_handleSnoop_keeps [OF snoop(3)] by simp
  next
    case (issue i fuel pd)
    show ?thesis by (rule q_markInService_inv [OF assms(2) issue(1,2)])
  next
    case (fill i fuel pkt)
    then show ?thesis
      using mshrq_keep [OF assms(2) fill(2)] mshr_handleFill_ok [OF ok fill(3)] mshr_handleFill_keeps [OF fill(3)] by simp
  next
    case (serve i m)
    show ?thesis
      using serve(1,2) mshrq_update_inv [OF assms(2) serve(3)] popTarget_timing [OF serve(4)]
        popTarget_ok [OF mshrq_mshr_ok [OF assms(2) serve(3)] serve(4)] by (simp add: timing_def)
  next
    case (again i now m)
    note p = promote_ok [OF mshrq_mshr_ok [OF assms(2) again(1)] again(2)]
    have i: "i < length h" using mshrq_listsD(4) [OF assms(2) again(1)] .
    have "mshrq_inv (h[i := m]) q" using mshrq_update_inv [OF assms(2) again(1) p(1)] p(4) by simp
    then show ?thesis using q_markPending_inv [OF _ again(1) _ again(3)] p(3) i by simp
  next
    case (finish i now m)
    note p = promote_ok [OF mshrq_mshr_ok [OF assms(2) finish(1)] finish(2)]
    have "m = h ! i" using finish(2) by (auto simp: promoteDeferredTargets_def split: list.splits if_splits)
    then show ?thesis using deallocateOne_inv [OF assms(2) finish(1)] finish(3) p(2) by (simp add: q_deallocate_def)
  next
    case (front i)
    then show ?thesis using moveToFront_inv [OF assms(2)] by simp
  next
    case (forced i now b)
    show ?thesis by (rule forceDeallocateTarget_inv [OF assms(2) forced])
  next
    case (squashed thread)
    show ?thesis by (rule squash_inv [OF assms(2) squashed])
  next
    case drained
    then show ?thesis using drain_inv [OF assms(2)] by simp
  next
    case elsewhere
    then show ?thesis using mshrq_inv_pending [OF assms(2)] by simp
  qed
qed

section \<open>What the queue promises\<close>

lemma mshr_reach_inv: "mshr_reach s \<Longrightarrow> mshrq_inv (fst s) (snd s)"
proof (induction rule: mshr_reach.induct)
  case (start h lbl num reserve demand idx h' q)
  then show ?case by (simp add: new_MSHRQueue_inv)
next
  case (more s s')
  then show ?case using mshr_step_inv [of "fst s" "snd s" "fst s'" "snd s'"] by simp
qed

lemma butlast_split: "xs @ t # ys = zs \<Longrightarrow> \<forall>z \<in> set (butlast zs). \<not> P z \<Longrightarrow> P t \<Longrightarrow> ys = []"
  by (cases ys rule: rev_cases) (auto simp: butlast_append)

lemma find_cong: "(\<And>x. x \<in> set xs \<Longrightarrow> P x = Q x) \<Longrightarrow> find P xs = find Q xs"
  by (induction xs) auto

lemma find_snoc: "find P xs = None \<Longrightarrow> P x \<Longrightarrow> find P (xs @ [x]) = Some x"
  by (induction xs) (auto split: if_splits)

lemma insert_before_later_sorted:
  "sorted (map (\<lambda>j. readyTime (h ! j)) ready) \<Longrightarrow> \<exists>j \<in> set ready. readyTime (h ! i) < readyTime (h ! j) \<Longrightarrow>
   insert_before_later h i ready = Inr (takeWhile (\<lambda>j. readyTime (h ! j) \<le> readyTime (h ! i)) ready @ i #
     dropWhile (\<lambda>j. readyTime (h ! j) \<le> readyTime (h ! i)) ready)"
  by (induction ready) (auto simp: not_le)

lemma tl_add_total:
  assumes "\<And>j. mark \<Longrightarrow> sender_mshr pkt = Some j \<Longrightarrow> j < length h \<and> \<not> downstreamPending (h ! j)"
  shows "\<exists>h' tgts'. tl_add now h tgts pkt rt ord src mark = Inr (h', tgts')"
  using assms by (auto simp: tl_add_def Let_def split: option.splits)

lemma mshr_allocate_total:
  assumes i: "i < length h" and reset: "tl_isReset (targets (h ! i))" "tl_isReset (deferredTargets (h ! i))"
    and sec: "isSecure pkt = Inr sec" and up: "\<And>j. sender_mshr pkt = Some j \<Longrightarrow> j < length h \<and> \<not> downstreamPending (h ! j)"
  shows "\<exists>h'. mshr_allocate now h i a n pkt rt ord = Inr h'"
proof -
  define m where "m = (h ! i)\<lparr>mshr_blkAddr := a, mshr_blkSize := n, mshr_isSecure := sec,
                readyTime := rt, mshr_order := ord, isForward := False,
                mshr_isUncacheable := req_isUncacheable (pkt_req pkt), inService := False,
                downstreamPending := False, threadNum := 0\<rparr>"
  have "j < length (h[i := m]) \<and> \<not> downstreamPending (h[i := m] ! j)" if "sender_mshr pkt = Some j" for j
    using up [OF that] by (cases "j = i") (simp_all add: m_def)
  then obtain g ts where g: "tl_add now (h[i := m]) (targets m) pkt rt ord
      (if pkt_cmd pkt = HardPFReq then FromPrefetcher else FromCPU) True = Inr (g, ts)"
    using tl_add_total by blast
  have "pending_eq (h[i := m]) g" using tl_add_frame(1) [OF g] .
  then obtain b where "g ! i = m\<lparr>downstreamPending := b\<rparr>" using i by (auto elim: pending_eq_nth [of _ _ i])
  then have "tl_isReset (deferredTargets (g ! i))" using reset(2) by (simp add: m_def)
  then show ?thesis using g i sec reset(1) by (simp add: mshr_allocate_def Let_def m_def)
qed

text \<open>
  C2: whatever a cache does with its queue of miss registers, allocated and free registers partition the queue, the ready
  list holds each allocated register that is not in service exactly once, both counters are exact, every free register is
  clean, and every register of the heap keeps its own invariant.
\<close>

theorem mshr_queue_invariant:
  assumes "mshr_reach (h, q)"
  shows "mshrq_inv h q"
  using mshr_reach_inv [OF assms] by simp

text \<open>
  C3: in every reachable state no target of a register waits behind a saved invalidating snoop: the snoop is the last
  target, the pending invalidation is recorded, and whatever came later is deferred to a second request.
\<close>

theorem no_target_behind_invalidation:
  assumes "mshr_reach (h, q)" "i \<in> set (allocatedList q)"
    and "tl_targets (targets (h ! i)) = before @ t # after" "inval_snoop t"
  shows "after = [] \<and> postInvalidate (h ! i)"
proof -
  have "mshr_ok (h ! i)" using mshrq_mshr_ok [OF _ assms(2)] mshr_reach_inv [OF assms(1)] by simp
  note D = mshr_okD(9,10) [OF this]
  have "\<forall>z \<in> set (butlast (tl_targets (targets (h ! i)))). \<not> inval_snoop z" using D(2) by blast
  then have "after = []" using butlast_split [OF assms(3) [symmetric]] assms(4) by blast
  moreover have "postInvalidate (h ! i)" using D(1) [of t] assms(3,4) by simp
  ultimately show ?thesis by simp
qed

text \<open>
  C14: a miss always finds a register as long as the queue does not report itself full and reserves at least one: none of
  the assertions of the allocation fails, one more register is allocated, and a lookup that found no register for the
  block before finds the new one afterwards.
\<close>

theorem q_allocate_succeeds:
  assumes inv: "mshrq_inv h q" and "\<not> isFull q" "1 \<le> numReserve q" and sec: "isSecure pkt = Inr sec"
    and up: "\<And>j. sender_mshr pkt = Some j \<Longrightarrow> j < length h \<and> \<not> downstreamPending (h ! j)"
    and cached: "\<not> req_isUncacheable (pkt_req pkt)" and none: "findMatch h q a sec = None"
  shows "\<exists>i h' q'. q_allocate now h q a n pkt rt ord = Inr (i, h', q') \<and> i \<in> set (freeList q) \<and>
    allocated q' = allocated q + 1 \<and> findMatch h' q' a sec = Some i"
proof -
  have "length (freeList q) > 0"
  proof -
    have "card (set (allocatedList q @ freeList q)) = card (set (registers q))"
      using inv unfolding mshrq_inv_def mshrq_lists_def by simp
    then have "int (length (allocatedList q)) + int (length (freeList q)) = numEntries q"
      using inv unfolding mshrq_inv_def mshrq_lists_def
      by (metis distinct_card length_append of_nat_add)
    moreover have "allocated q = int (length (allocatedList q))" using inv by (simp add: mshrq_inv_def mshrq_counts_def)
    ultimately have "0 < int (length (freeList q))" using assms(2,3) unfolding isFull_def by linarith
    then show ?thesis by linarith
  qed
  then obtain i free where f: "freeList q = i # free" by (cases "freeList q") auto
  then have fr: "free_reg (h ! i)" "i < length h" "mshr_ok (h ! i)"
    using inv mshrq_listsD(5) [OF inv, of i] heap_ok_nth [of h i] by (auto simp: mshrq_inv_def)
  have "tl_isReset (deferredTargets (h ! i))" "getNumTargets (h ! i) = 0" "tl_isReset (targets (h ! i))"
    using fr(1) mshr_okD(6) [OF fr(3)] by (auto simp: free_reg_def getNumTargets_def)
  then obtain h' where h': "mshr_allocate now h i a n pkt rt ord = Inr h'"
    using mshr_allocate_total [OF fr(2) _ _ sec up] by blast
  note fm = mshr_allocate_frame [OF h']
  obtain ready where r: "addToReadyList h' i (readyList q) = Inr ready" using addToReadyList_total by blast
  let ?q = "q\<lparr>freeList := free, allocatedList := allocatedList q @ [i], readyList := ready, allocated := allocated q + 1\<rparr>"
  have al: "q_allocate now h q a n pkt rt ord = Inr (i, h', ?q)"
    using f h' r fr(1) by (simp add: q_allocate_def free_reg_def)
  have "mshr_matches h' a sec j = mshr_matches h a sec j" if "j \<in> set (allocatedList q)" for j
  proof -
    have "j < length h" "j \<noteq> i" using mshrq_listsD(3,4) [OF inv] that f by auto
    then obtain b where "h' ! j = (h ! j)\<lparr>downstreamPending := b\<rparr>" using fm by (auto simp: agree_off_def)
    then show ?thesis by (simp add: mshr_matches_def)
  qed
  then have "find (mshr_matches h' a sec) (allocatedList q) = None"
    using none by (simp add: findMatch_def cong: find_cong)
  moreover have "mshr_matches h' a sec i" using fm sec cached by (simp add: mshr_matches_def)
  ultimately show ?thesis using al f by (auto simp: findMatch_def intro: find_snoc)
qed

text \<open>
  C25: the ready list is a priority queue: inserting a register into a list in order of ready times puts it behind exactly
  the registers that are ready no later, so the list stays in order, registers that become ready together are served in the
  order of their arrival, and the assertion at the end of the search is never reached.
\<close>

theorem addToReadyList_priority:
  assumes "sorted (map (\<lambda>j. readyTime (h ! j)) ready)"
  shows "addToReadyList h i ready = Inr (takeWhile (\<lambda>j. readyTime (h ! j) \<le> readyTime (h ! i)) ready @ i #
     dropWhile (\<lambda>j. readyTime (h ! j) \<le> readyTime (h ! i)) ready)"
proof (cases "ready = [] \<or> readyTime (h ! last ready) \<le> readyTime (h ! i)")
  case True
  then have "readyTime (h ! j) \<le> readyTime (h ! i)" if "j \<in> set ready" for j
  proof -
    have "ready \<noteq> []" using that by auto
    then show ?thesis
      using sorted_le_last [OF assms, of "readyTime (h ! j)"] that True by (auto simp: last_map intro: order_trans)
  qed
  then have "takeWhile (\<lambda>j. readyTime (h ! j) \<le> readyTime (h ! i)) ready = ready"
    "dropWhile (\<lambda>j. readyTime (h ! j) \<le> readyTime (h ! i)) ready = []"
    by simp_all
  then show ?thesis using True unfolding addToReadyList_def by metis
next
  case False
  then have "last ready \<in> set ready" "readyTime (h ! i) < readyTime (h ! last ready)" by (simp_all add: not_le)
  then have "insert_before_later h i ready = Inr (takeWhile (\<lambda>j. readyTime (h ! j) \<le> readyTime (h ! i)) ready @ i #
     dropWhile (\<lambda>j. readyTime (h ! j) \<le> readyTime (h ! i)) ready)"
    by (intro insert_before_later_sorted [OF assms]) blast
  then show ?thesis using False unfolding addToReadyList_def by metis
qed

definition demo_queue :: "heap \<times> mshr_queue" where
  "demo_queue = (replicate 2 new_MSHR,
     \<lparr>q_label = ''MSHRs'', numEntries = 2, numReserve = 1, demandReserve = 0, registers = [0, 1], allocatedList = [],
      readyList = [], freeList = [0, 1], drainManager = False, drainState = Running, drainSignals = 0, allocated = 0,
      inServiceEntries = 0, q_index = 0\<rparr>)"

lemma demo_queue_new: "new_MSHRQueue [] ''MSHRs'' 2 1 0 0 = Inr demo_queue"
  by (simp add: new_MSHRQueue_def demo_queue_def Let_def upt_rec numeral_2_eq_2)

lemma demo_queue_reach: "mshr_reach demo_queue"
  using mshr_reach.start [of "[]" "''MSHRs''" 2 1 0 0 "fst demo_queue" "snd demo_queue"]
  by (simp add: heap_ok_def demo_queue_new)

theorem mshr_queue_invariant_witness: "mshrq_inv (fst demo_queue) (snd demo_queue)"
  using mshr_queue_invariant [of "fst demo_queue" "snd demo_queue"] demo_queue_reach by simp

text \<open>A run that saves an invalidating snoop: a read-exclusive miss, its issue, and a snooped read-exclusive request.\<close>

definition demo_snooped :: "(heap \<times> mshr_queue) res" where
  "demo_snooped = bindE (q_allocate 0 (fst demo_queue) (snd demo_queue) 64 64 (demo_mpkt ReadExReq []) 0 0) (\<lambda>(i, h, q).
     bindE (q_markInService 1 h q i False) (\<lambda>(h, q).
     bindE (mshr_handleSnoop (\<lambda>_. 0) 0 h i (demo_mpkt ReadExReq []) 1) (\<lambda>(b, pkt, h). Inr (h, q))))"

lemma demo_snooped_val: "case demo_snooped of Inr (h, q) \<Rightarrow> allocatedList q = [0] \<and>
   map inval_snoop (tl_targets (targets (h ! 0))) = [False, True] | Inl _ \<Rightarrow> False"
  by code_simp

lemma demo_snooped_reach:
  assumes "demo_snooped = Inr (h, q)"
  shows "mshr_reach (h, q)"
proof -
  obtain i h1 q1 where a: "q_allocate 0 (fst demo_queue) (snd demo_queue) 64 64 (demo_mpkt ReadExReq []) 0 0 = Inr (i, h1, q1)"
    and r1: "bindE (q_markInService 1 h1 q1 i False) (\<lambda>(h, q).
      bindE (mshr_handleSnoop (\<lambda>_. 0) 0 h i (demo_mpkt ReadExReq []) 1) (\<lambda>(b, pkt, h). Inr (h, q))) = Inr (h, q)"
    using assms unfolding demo_snooped_def by auto
  obtain h2 where b: "q_markInService 1 h1 q1 i False = Inr (h2, q)"
    and c: "bindE (mshr_handleSnoop (\<lambda>_. 0) 0 h2 i (demo_mpkt ReadExReq []) 1) (\<lambda>(b, pkt, h). Inr (h, q)) = Inr (h, q)"
    using r1 by (rule bindE_pairE) auto
  obtain d p where s: "mshr_handleSnoop (\<lambda>_. 0) 0 h2 i (demo_mpkt ReadExReq []) 1 = Inr (d, p, h)"
    using c by auto
  have i: "i = 0" "i \<in> set (allocatedList q1)"
    using a by (auto simp: q_allocate_def demo_queue_def split: if_splits)
  have "allocatedList q = [0]" using demo_snooped_val unfolding assms by simp
  then have "mshr_step (h1, q1) (h2, q)" "mshr_step (h2, q) (h, q)"
    using mshr_step.issue [OF i(2) b] mshr_step.snoop [OF _ s, of q] i(1) by simp_all
  moreover have "mshr_step demo_queue (h1, q1)" using mshr_step.miss [OF a] by simp
  ultimately show ?thesis using demo_queue_reach mshr_reach.more by blast
qed

theorem no_target_behind_invalidation_witness:
  "\<exists>h q t u. demo_snooped = Inr (h, q) \<and> tl_targets (targets (h ! 0)) = [t, u] \<and> inval_snoop u \<and> postInvalidate (h ! 0)"
proof -
  obtain h q where d: "demo_snooped = Inr (h, q)" using demo_snooped_val by (auto split: sum.splits)
  have "allocatedList q = [0]" and m: "map inval_snoop (tl_targets (targets (h ! 0))) = [False, True]"
    using demo_snooped_val unfolding d by simp_all
  moreover from m obtain t u where "tl_targets (targets (h ! 0)) = [t, u]" "inval_snoop u"
    by (auto simp: map_eq_Cons_conv)
  ultimately show ?thesis
    using no_target_behind_invalidation [OF demo_snooped_reach [OF d], of 0 "[t]" u "[]"] d by auto
qed

theorem addToReadyList_priority_witness:
  "addToReadyList [new_MSHR\<lparr>readyTime := 1\<rparr>, new_MSHR\<lparr>readyTime := 5\<rparr>, new_MSHR\<lparr>readyTime := 1\<rparr>] 2 [0, 1] = Inr [0, 2, 1]"
  using addToReadyList_priority [of "[new_MSHR\<lparr>readyTime := 1\<rparr>, new_MSHR\<lparr>readyTime := 5\<rparr>, new_MSHR\<lparr>readyTime := 1\<rparr>]" "[0, 1]" 2]
  by (simp add: word_le_nat_alt)

theorem q_allocate_succeeds_witness:
  "\<exists>i h' q'. q_allocate 0 (fst demo_queue) (snd demo_queue) 64 64 (demo_mpkt ReadReq []) 0 0 = Inr (i, h', q') \<and>
     allocated q' = 1 \<and> findMatch h' q' 64 False = Some i"
proof -
  have "mshrq_inv (fst demo_queue) (snd demo_queue)" using mshr_reach_inv [OF demo_queue_reach] .
  moreover have "\<not> req_isUncacheable new_Request" by code_simp
  ultimately show ?thesis
    using q_allocate_succeeds [of "fst demo_queue" "snd demo_queue" "demo_mpkt ReadReq []" False 64 0 64 0 0]
    by (simp add: demo_queue_def isFull_def isSecure_def sender_mshr_def findNextSenderState_def findMatch_def) blast
qed

end
