(* ===== verification/Queued_Prefetcher.thy ===== *)
theory Queued_Prefetcher
  imports Packet Int_Math
begin

text \<open>
  The prefetcher base class and the queue of prefetches, \<open>src/gem5_src/mem/cache/prefetch/base.hh\<close>, \<open>base.cc\<close>,
  \<open>queued.hh\<close> and \<open>queued.cc\<close>. A class is a record that extends the record of its base class; the virtual method
  \<open>calculatePrefetch\<close> is an argument of \<open>notify\<close>, as are the two questions the prefetcher asks its cache, the current
  tick, the clock period and what fresh memory holds. Statistics are counters.
\<close>

section \<open>The base class\<close>

record base_prefetcher =
  pf_hasCache :: bool
  pf_blkSize :: "32 word"
  onMiss :: bool
  onRead :: bool
  onWrite :: bool
  onData :: bool
  onInst :: bool
  pf_masterId :: "16 word"
  pageBytes :: addr
  pfIssued :: nat

record base_params =
  on_miss :: bool
  on_read :: bool
  on_write :: bool
  on_data :: bool
  on_inst :: bool

definition new_BasePrefetcher :: "base_params \<Rightarrow> 16 word \<Rightarrow> addr \<Rightarrow> base_prefetcher" where
  "new_BasePrefetcher p mid page =
     \<lparr>pf_hasCache = False, pf_blkSize = 0, onMiss = on_miss p, onRead = on_read p, onWrite = on_write p,
      onData = on_data p, onInst = on_inst p, pf_masterId = mid, pageBytes = page, pfIssued = 0\<rparr>"

definition setCache :: "'a base_prefetcher_scheme \<Rightarrow> 32 word \<Rightarrow> 'a base_prefetcher_scheme res" where
  "setCache pf cache_blkSize =
     bindE (assertE (\<not> pf_hasCache pf)) (\<lambda>_. Inr (pf\<lparr>pf_hasCache := True, pf_blkSize := cache_blkSize\<rparr>))"

definition samePage :: "'a base_prefetcher_scheme \<Rightarrow> addr \<Rightarrow> addr \<Rightarrow> bool" where
  "samePage pf a b \<longleftrightarrow> roundDown a (pageBytes pf) = roundDown b (pageBytes pf)"

type_synonym cache_query = "addr \<Rightarrow> bool \<Rightarrow> bool"

definition observeAccess ::
    "cache_query \<Rightarrow> cache_query \<Rightarrow> 'a base_prefetcher_scheme \<Rightarrow> 's packet \<Rightarrow> bool res" where
  "observeAccess inCache inMissQueue pf pkt =
     bindE (getAddr pkt) (\<lambda>a.
     bindE (isSecure pkt) (\<lambda>is_secure.
     (let fetch = req_isInstFetch (pkt_req pkt); read = isRead (pkt_cmd pkt); inv = isInvalidate (pkt_cmd pkt) in
      if req_isUncacheable (pkt_req pkt) then Inr False
      else if fetch \<and> \<not> onInst pf then Inr False
      else if \<not> fetch \<and> \<not> onData pf then Inr False
      else if \<not> fetch \<and> read \<and> \<not> onRead pf then Inr False
      else if \<not> fetch \<and> \<not> read \<and> \<not> onWrite pf then Inr False
      else if \<not> fetch \<and> \<not> read \<and> inv then Inr False
      else if onMiss pf then Inr (\<not> inCache a is_secure \<and> \<not> inMissQueue a is_secure)
      else Inr True)))"

section \<open>The queue\<close>

record 's deferred_packet =
  dp_tick :: tick
  dp_pkt :: "'s packet"

record 's queued_prefetcher = base_prefetcher +
  pfq :: "'s deferred_packet list"
  queueSize :: "32 word"
  pf_latency :: "64 word"
  queueSquash :: bool
  queueFilter :: bool
  cacheSnoop :: bool
  tagPrefetch :: bool
  pfIdentified :: nat
  pfBufferHit :: nat
  pfInCache :: nat
  pfRemovedFull :: nat
  pfSpanPage :: nat

record queued_params = base_params +
  queue_size :: "32 word"
  param_latency :: "64 word"
  queue_squash :: bool
  queue_filter :: bool
  cache_snoop :: bool
  tag_prefetch :: bool

definition new_QueuedPrefetcher :: "'a queued_params_scheme \<Rightarrow> 16 word \<Rightarrow> addr \<Rightarrow> 's queued_prefetcher" where
  "new_QueuedPrefetcher p mid page = base_prefetcher.extend (new_BasePrefetcher (base_params.truncate p) mid page)
     \<lparr>pfq = [], queueSize = queue_size p, pf_latency = param_latency p, queueSquash = queue_squash p,
      queueFilter = queue_filter p, cacheSnoop = cache_snoop p, tagPrefetch = tag_prefetch p,
      pfIdentified = 0, pfBufferHit = 0, pfInCache = 0, pfRemovedFull = 0, pfSpanPage = 0\<rparr>"

definition dp_matches :: "addr \<Rightarrow> bool \<Rightarrow> 's deferred_packet \<Rightarrow> bool res" where
  "dp_matches a is_secure dp =
     bindE (getAddr (dp_pkt dp)) (\<lambda>b.
     if b = a then bindE (isSecure (dp_pkt dp)) (\<lambda>s. Inr (s = is_secure)) else Inr False)"

fun inPrefetch :: "'s deferred_packet list \<Rightarrow> addr \<Rightarrow> bool \<Rightarrow> bool res" where
  "inPrefetch [] a is_secure = Inr False"
| "inPrefetch (dp # q) a is_secure =
     bindE (dp_matches a is_secure dp) (\<lambda>m. if m then Inr True else inPrefetch q a is_secure)"

fun squash_queue :: "'s deferred_packet list \<Rightarrow> addr \<Rightarrow> bool \<Rightarrow> 's deferred_packet list res" where
  "squash_queue [] a is_secure = Inr []"
| "squash_queue (dp # q) a is_secure =
     bindE (dp_matches a is_secure dp) (\<lambda>m.
     bindE (squash_queue q a is_secure) (\<lambda>q. Inr (if m then q else dp # q)))"

definition block_align :: "'a base_prefetcher_scheme \<Rightarrow> addr \<Rightarrow> addr" where
  "block_align pf a = a AND NOT (ucast (pf_blkSize pf - 1))"

definition prefetch_packet ::
    "(nat \<Rightarrow> 8 word) \<Rightarrow> tick \<Rightarrow> ('s, 'a) queued_prefetcher_scheme \<Rightarrow> 's packet \<Rightarrow> bool \<Rightarrow> addr \<Rightarrow> 's packet res" where
  "prefetch_packet garbage now pf pkt is_secure pf_addr =
     (let pf_req = new_Request_phys pf_addr (pf_blkSize pf) 0 (pf_masterId pf) now in
      bindE (if is_secure then setFlags pf_req SECURE else Inr pf_req) (\<lambda>pf_req.
      bindE (allocate garbage (new_Packet (set_taskId pf_req task_Prefetcher) HardPFReq)) (\<lambda>pf_pkt.
      bindE (if hasContextId (pkt_req pkt) then
               bindE (contextId (pkt_req pkt)) (\<lambda>c. bindE (threadId (pkt_req pkt)) (\<lambda>t.
               Inr (pf_pkt\<lparr>pkt_req := setThreadContext (pkt_req pf_pkt) c t\<rparr>)))
             else Inr pf_pkt) (\<lambda>pf_pkt.
      if tagPrefetch pf \<and> hasPC (pkt_req pkt)
      then bindE (getPC (pkt_req pkt)) (\<lambda>pc. Inr (pf_pkt\<lparr>pkt_req := setPC (pkt_req pf_pkt) pc\<rparr>))
      else Inr pf_pkt))))"

definition make_room :: "('s, 'a) queued_prefetcher_scheme \<Rightarrow> ('s, 'a) queued_prefetcher_scheme res" where
  "make_room pf =
     (if length (pfq pf) = unat (queueSize pf) then
        (case pfq pf of [] \<Rightarrow> Inl Out_Of_Bounds
         | _ # q \<Rightarrow> Inr (pf\<lparr>pfRemovedFull := pfRemovedFull pf + 1, pfq := q\<rparr>))
      else Inr pf)"

definition queue_candidate ::
    "cache_query \<Rightarrow> cache_query \<Rightarrow> (nat \<Rightarrow> 8 word) \<Rightarrow> tick \<Rightarrow> tick \<Rightarrow> 's packet \<Rightarrow> bool \<Rightarrow> addr \<Rightarrow>
     ('s, 'a) queued_prefetcher_scheme \<Rightarrow> ('s, 'a) queued_prefetcher_scheme res" where
  "queue_candidate inCache inMissQueue garbage now period pkt is_secure pf_addr pf =
     bindE (if queueFilter pf then inPrefetch (pfq pf) pf_addr is_secure else Inr False) (\<lambda>queued.
     if queued then Inr (pf\<lparr>pfBufferHit := pfBufferHit pf + 1\<rparr>)
     else if cacheSnoop pf \<and> (inCache pf_addr is_secure \<or> inMissQueue pf_addr is_secure)
     then Inr (pf\<lparr>pfInCache := pfInCache pf + 1\<rparr>)
     else
       bindE (prefetch_packet garbage now pf pkt is_secure pf_addr) (\<lambda>pf_pkt.
       bindE (make_room pf) (\<lambda>pf.
       Inr (pf\<lparr>pfq := pfq pf @ [\<lparr>dp_tick = now + period * pf_latency pf, dp_pkt = pf_pkt\<rparr>]\<rparr>))))"

definition queue_prefetch ::
    "cache_query \<Rightarrow> cache_query \<Rightarrow> (nat \<Rightarrow> 8 word) \<Rightarrow> tick \<Rightarrow> tick \<Rightarrow> 's packet \<Rightarrow> bool \<Rightarrow> addr \<Rightarrow>
     ('s, 'a) queued_prefetcher_scheme \<Rightarrow> ('s, 'a) queued_prefetcher_scheme res" where
  "queue_prefetch inCache inMissQueue garbage now period pkt is_secure pf_addr pf =
     queue_candidate inCache inMissQueue garbage now period pkt is_secure (block_align pf pf_addr)
       (pf\<lparr>pfIdentified := pfIdentified pf + 1\<rparr>)"

fun queue_prefetches ::
    "cache_query \<Rightarrow> cache_query \<Rightarrow> (nat \<Rightarrow> 8 word) \<Rightarrow> tick \<Rightarrow> tick \<Rightarrow> 's packet \<Rightarrow> bool \<Rightarrow> addr list \<Rightarrow>
     ('s, 'a) queued_prefetcher_scheme \<Rightarrow> ('s, 'a) queued_prefetcher_scheme res" where
  "queue_prefetches inCache inMissQueue garbage now period pkt is_secure [] pf = Inr pf"
| "queue_prefetches inCache inMissQueue garbage now period pkt is_secure (a # as) pf =
     bindE (queue_prefetch inCache inMissQueue garbage now period pkt is_secure a pf) (\<lambda>pf.
     queue_prefetches inCache inMissQueue garbage now period pkt is_secure as pf)"

definition nextPrefetchReadyTime :: "('s, 'a) queued_prefetcher_scheme \<Rightarrow> tick" where
  "nextPrefetchReadyTime pf = (case pfq pf of [] \<Rightarrow> - 1 | dp # _ \<Rightarrow> dp_tick dp)"

type_synonym ('s, 'a) generator =
  "('s, 'a) queued_prefetcher_scheme \<Rightarrow> 's packet \<Rightarrow> (addr list \<times> ('s, 'a) queued_prefetcher_scheme) res"

definition notify ::
    "cache_query \<Rightarrow> cache_query \<Rightarrow> (nat \<Rightarrow> 8 word) \<Rightarrow> tick \<Rightarrow> tick \<Rightarrow> ('s, 'a) generator \<Rightarrow>
     ('s, 'a) queued_prefetcher_scheme \<Rightarrow> 's packet \<Rightarrow> (tick \<times> ('s, 'a) queued_prefetcher_scheme) res" where
  "notify inCache inMissQueue garbage now period calculatePrefetch pf pkt =
     bindE (observeAccess inCache inMissQueue pf pkt) (\<lambda>observed.
     bindE (if observed then
              bindE (getAddr pkt) (\<lambda>a. bindE (isSecure pkt) (\<lambda>is_secure.
              bindE (if queueSquash pf
                     then bindE (squash_queue (pfq pf) (block_align pf a) is_secure) (\<lambda>q. Inr (pf\<lparr>pfq := q\<rparr>))
                     else Inr pf) (\<lambda>pf.
              bindE (calculatePrefetch pf pkt) (\<lambda>(addresses, pf).
              queue_prefetches inCache inMissQueue garbage now period pkt is_secure addresses pf))))
            else Inr pf) (\<lambda>pf.
     Inr (nextPrefetchReadyTime pf, pf)))"

definition getPacket :: "('s, 'a) queued_prefetcher_scheme \<Rightarrow> 's packet option \<times> ('s, 'a) queued_prefetcher_scheme" where
  "getPacket pf = (case pfq pf of
     [] \<Rightarrow> (None, pf)
   | dp # q \<Rightarrow> (Some (dp_pkt dp), pf\<lparr>pfq := q, pfIssued := pfIssued pf + 1\<rparr>))"

section \<open>What a queued prefetch looks like\<close>

definition prefetch_for :: "32 word \<Rightarrow> bool \<Rightarrow> addr \<Rightarrow> 's packet \<Rightarrow> bool" where
  "prefetch_for blk is_secure a p \<longleftrightarrow> pkt_cmd p = HardPFReq \<and> getAddr p = Inr a \<and> isSecure p = Inr is_secure \<and>
     getSize p = Inr blk"

lemma new_prefetch_packet:
  assumes "isSet (privateFlags r) R_VALID_PADDR" "isSet (privateFlags r) R_VALID_SIZE"
    "allocate garbage (new_Packet r HardPFReq) = Inr p"
  shows "prefetch_for (req_size r) (req_isSecure r) (req_paddr r) p"
  using assms
  by (auto simp: prefetch_for_def allocate_def new_Packet_def Let_def hasPaddr_def hasSize_def getAddr_def isSecure_def
      getSize_def split: if_splits)

lemma prefetch_for_req [simp]: "prefetch_for blk s a (p\<lparr>pkt_req := r\<rparr>) = prefetch_for blk s a p"
  by (simp add: prefetch_for_def getAddr_def isSecure_def getSize_def)

lemma prefetch_request:
  assumes "(if s then setFlags (new_Request_phys a blk 0 mid now) SECURE else Inr (new_Request_phys a blk 0 mid now)) = Inr r"
  shows "req_paddr r = a \<and> req_size r = blk \<and> req_isSecure r = s \<and> isSet (privateFlags r) R_VALID_PADDR \<and>
    isSet (privateFlags r) R_VALID_SIZE"
  using assms
  by (auto simp: setFlags_def new_Request_phys_def setPhys_def new_Request_def req_isSecure_def split: if_splits)

lemma prefetch_packet_for:
  assumes "prefetch_packet garbage now pf pkt s a = Inr (p :: 's packet)"
  shows "prefetch_for (pf_blkSize pf) s a p"
proof -
  obtain r and p0 :: "'s packet" where r: "(if s then setFlags (new_Request_phys a (pf_blkSize pf) 0 (pf_masterId pf) now) SECURE
      else Inr (new_Request_phys a (pf_blkSize pf) 0 (pf_masterId pf) now)) = Inr r"
    and p0: "allocate garbage (new_Packet (set_taskId r task_Prefetcher) HardPFReq) = Inr p0"
    and p: "prefetch_for (pf_blkSize pf) s a p = prefetch_for (pf_blkSize pf) s a p0"
    using assms unfolding prefetch_packet_def Let_def bindE_eq_Inr
    by (elim exE conjE) (auto split: if_splits)
  have "prefetch_for (pf_blkSize pf) s a p0"
    using prefetch_request [OF r] new_prefetch_packet [OF _ _ p0] by (simp add: set_taskId_def req_isSecure_def)
  then show ?thesis using p by simp
qed

definition queued_as :: "'s deferred_packet \<Rightarrow> addr \<times> bool" where
  "queued_as dp = (pkt_addr (dp_pkt dp), pkt_isSecure (dp_pkt dp))"

definition all_prefetches :: "32 word \<Rightarrow> 's deferred_packet list \<Rightarrow> bool" where
  "all_prefetches blk q \<longleftrightarrow>
     list_all (\<lambda>dp. prefetch_for blk (snd (queued_as dp)) (fst (queued_as dp)) (dp_pkt dp)) q"

definition pfq_ok :: "('s, 'a) queued_prefetcher_scheme \<Rightarrow> bool" where
  "pfq_ok pf \<longleftrightarrow> length (pfq pf) \<le> unat (queueSize pf) \<and>
     all_prefetches (pf_blkSize pf) (pfq pf) \<and>
     list_all (\<lambda>dp. block_align pf (fst (queued_as dp)) = fst (queued_as dp)) (pfq pf) \<and>
     (queueFilter pf \<longrightarrow> distinct (map queued_as (pfq pf)))"

lemma block_align_idem [simp]: "block_align pf (block_align pf a) = block_align pf a"
  by (simp add: block_align_def ac_simps)

lemma prefetch_for_matches:
  assumes "prefetch_for blk (snd (queued_as dp)) (fst (queued_as dp)) (dp_pkt dp)"
  shows "dp_matches a s dp = Inr (queued_as dp = (a, s))"
proof -
  obtain b t where q: "queued_as dp = (b, t)" by (cases "queued_as dp")
  then have "getAddr (dp_pkt dp) = Inr b" "isSecure (dp_pkt dp) = Inr t" using assms by (simp_all add: prefetch_for_def)
  then show ?thesis using q unfolding dp_matches_def by simp
qed

lemma inPrefetch_eq: "all_prefetches blk q \<Longrightarrow> inPrefetch q a s = Inr ((a, s) \<in> queued_as ` set q)"
proof (induction q)
  case (Cons dp q)
  then have "dp_matches a s dp = Inr (queued_as dp = (a, s))" "inPrefetch q a s = Inr ((a, s) \<in> queued_as ` set q)"
    using prefetch_for_matches [of blk dp a s] by (simp_all add: all_prefetches_def)
  then show ?case by auto
qed simp

lemma squash_queue_eq: "all_prefetches blk q \<Longrightarrow> squash_queue q a s = Inr (filter (\<lambda>dp. queued_as dp \<noteq> (a, s)) q)"
proof (induction q)
  case (Cons dp q)
  then have "dp_matches a s dp = Inr (queued_as dp = (a, s))"
    "squash_queue q a s = Inr (filter (\<lambda>dp. queued_as dp \<noteq> (a, s)) q)"
    using prefetch_for_matches [of blk dp a s] by (simp_all add: all_prefetches_def)
  then show ?case by simp
qed simp


text \<open>The configuration of the base classes that the queue depends on.\<close>

definition same_config :: "('s, 'a) queued_prefetcher_scheme \<Rightarrow> ('s, 'a) queued_prefetcher_scheme \<Rightarrow> bool" where
  "same_config pf pf' \<longleftrightarrow> pf_blkSize pf' = pf_blkSize pf \<and> pageBytes pf' = pageBytes pf \<and>
     queueSize pf' = queueSize pf \<and> queueFilter pf' = queueFilter pf \<and> queueSquash pf' = queueSquash pf"

definition same_queue :: "('s, 'a) queued_prefetcher_scheme \<Rightarrow> ('s, 'a) queued_prefetcher_scheme \<Rightarrow> bool" where
  "same_queue pf pf' \<longleftrightarrow> same_config pf pf' \<and> pfq pf' = pfq pf"

lemma same_queue_ok: "same_queue pf pf' \<Longrightarrow> pfq_ok pf' = pfq_ok pf"
  by (simp add: same_queue_def same_config_def pfq_ok_def block_align_def)

lemma same_config_refl [simp]: "same_config pf pf"
  by (simp add: same_config_def)

lemma same_config_trans: "same_config a b \<Longrightarrow> same_config b c \<Longrightarrow> same_config a c"
  by (simp add: same_config_def)

lemma same_config_samePage: "same_config pf pf' \<Longrightarrow> samePage pf' = samePage pf"
  by (intro ext) (simp add: same_config_def samePage_def)

lemma same_config_block_align: "same_config pf pf' \<Longrightarrow> block_align pf' = block_align pf"
  by (intro ext) (simp add: same_config_def block_align_def)

lemma pfq_ok_update:
  assumes "pfq_ok pf" "set q \<subseteq> set (pfq pf)" "length q \<le> length (pfq pf)" "distinct (map queued_as (pfq pf)) \<Longrightarrow> distinct (map queued_as q)"
  shows "pfq_ok (pf\<lparr>pfq := q\<rparr>)"
  using assms by (auto simp: pfq_ok_def all_prefetches_def list_all_iff block_align_def)

lemma make_room_effect:
  assumes "pfq_ok pf" "make_room pf = Inr pf'"
  shows "pfq_ok pf' \<and> same_config pf pf' \<and> length (pfq pf') < unat (queueSize pf) \<and> set (pfq pf') \<subseteq> set (pfq pf)"
proof (cases "length (pfq pf) = unat (queueSize pf)")
  case True
  then obtain dp q where q: "pfq pf = dp # q" "pf' = pf\<lparr>pfRemovedFull := pfRemovedFull pf + 1, pfq := q\<rparr>"
    using assms(2) by (auto simp: make_room_def split: list.splits)
  have "pfq_ok (pf\<lparr>pfq := q\<rparr>)" using assms(1) q(1) by (intro pfq_ok_update) auto
  then have "pfq_ok pf'" by (simp add: q(2) pfq_ok_def block_align_def)
  then show ?thesis using True q by (auto simp: same_config_def)
next
  case False
  then have "pf' = pf" using assms(2) by (simp add: make_room_def)
  then show ?thesis using False assms(1) by (simp add: same_config_def pfq_ok_def)
qed

lemma pfq_ok_append:
  assumes "pfq_ok pf" "length (pfq pf) < unat (queueSize pf)" "prefetch_for (pf_blkSize pf) s a (dp_pkt dp)" "queued_as dp = (a, s)"
    "block_align pf a = a" "queueFilter pf \<Longrightarrow> (a, s) \<notin> queued_as ` set (pfq pf)"
  shows "pfq_ok (pf\<lparr>pfq := pfq pf @ [dp]\<rparr>)"
  using assms by (simp add: pfq_ok_def all_prefetches_def block_align_def)

lemma prefetch_for_queued_as: "prefetch_for blk s a p \<Longrightarrow> queued_as \<lparr>dp_tick = t, dp_pkt = p\<rparr> = (a, s)"
  by (auto simp: prefetch_for_def queued_as_def getAddr_def isSecure_def split: if_splits)

lemma queue_candidate_effect:
  assumes ok: "pfq_ok pf" and a: "block_align pf a = a"
    and r: "queue_candidate inCache inMissQueue garbage now period pkt s a pf = Inr pf'"
  shows "pfq_ok pf' \<and> same_config pf pf' \<and> (\<forall>dp \<in> set (pfq pf'). dp \<in> set (pfq pf) \<or> queued_as dp = (a, s))"
proof -
  obtain queued where qd: "(if queueFilter pf then inPrefetch (pfq pf) a s else Inr False) = Inr queued"
    "(if queued then Inr (pf\<lparr>pfBufferHit := pfBufferHit pf + 1\<rparr>)
      else if cacheSnoop pf \<and> (inCache a s \<or> inMissQueue a s) then Inr (pf\<lparr>pfInCache := pfInCache pf + 1\<rparr>)
      else bindE (prefetch_packet garbage now pf pkt s a) (\<lambda>pf_pkt. bindE (make_room pf) (\<lambda>pf.
       Inr (pf\<lparr>pfq := pfq pf @ [\<lparr>dp_tick = now + period * pf_latency pf, dp_pkt = pf_pkt\<rparr>]\<rparr>)))) = Inr pf'"
    using r unfolding queue_candidate_def bindE_eq_Inr [of _ _ pf'] by blast
  show ?thesis
  proof (cases "queued \<or> cacheSnoop pf \<and> (inCache a s \<or> inMissQueue a s)")
    case True
    then have "pf' = pf\<lparr>pfBufferHit := pfBufferHit pf + 1\<rparr> \<or> pf' = pf\<lparr>pfInCache := pfInCache pf + 1\<rparr>"
      using qd(2) by (auto split: if_splits)
    then show ?thesis using ok by (auto simp: same_config_def pfq_ok_def block_align_def)
  next
    case False
    then obtain p pf1 where p: "prefetch_packet garbage now pf pkt s a = Inr p" "make_room pf = Inr pf1"
      "pf' = pf1\<lparr>pfq := pfq pf1 @ [\<lparr>dp_tick = now + period * pf_latency pf1, dp_pkt = p\<rparr>]\<rparr>"
      using qd(2) by auto
    note room = make_room_effect [OF ok p(2)]
    have blk: "pf_blkSize pf1 = pf_blkSize pf" "queueFilter pf1 = queueFilter pf" "queueSize pf1 = queueSize pf"
      using room by (simp_all add: same_config_def)
    have new: "(a, s) \<notin> queued_as ` set (pfq pf)" if "queueFilter pf"
      using qd(1) that False inPrefetch_eq [of "pf_blkSize pf" "pfq pf" a s] ok by (simp add: pfq_ok_def)
    have pr: "prefetch_for (pf_blkSize pf1) s a p" using prefetch_packet_for [OF p(1)] blk by simp
    have "pfq_ok pf'" unfolding p(3)
      using room new pr prefetch_for_queued_as [OF pr] a blk
      by (intro pfq_ok_append [where s = s and a = a]) (auto simp: block_align_def)
    then show ?thesis using room prefetch_for_queued_as [OF pr] by (auto simp: p(3) same_config_def)
  qed
qed


lemma queue_prefetch_effect:
  assumes "pfq_ok pf" "queue_prefetch inCache inMissQueue garbage now period pkt s a pf = Inr pf'"
  shows "pfq_ok pf' \<and> same_config pf pf' \<and>
    (\<forall>dp \<in> set (pfq pf'). dp \<in> set (pfq pf) \<or> queued_as dp = (block_align pf a, s))"
proof -
  let ?pf = "pf\<lparr>pfIdentified := pfIdentified pf + 1\<rparr>"
  have c: "same_config pf ?pf" "pfq_ok ?pf" using assms(1) by (simp_all add: same_config_def pfq_ok_def block_align_def)
  then have "block_align ?pf (block_align pf a) = block_align pf a" by (simp add: same_config_block_align)
  then show ?thesis
    using queue_candidate_effect [OF c(2) _ assms(2) [unfolded queue_prefetch_def]] same_config_trans [OF c(1)] by simp
qed

lemma queue_prefetches_effect:
  assumes "pfq_ok pf" "queue_prefetches inCache inMissQueue garbage now period pkt s as pf = Inr pf'"
  shows "pfq_ok pf' \<and> same_config pf pf' \<and>
    (\<forall>dp \<in> set (pfq pf'). dp \<in> set (pfq pf) \<or> (\<exists>a \<in> set as. queued_as dp = (block_align pf a, s)))"
  using assms
proof (induction as arbitrary: pf)
  case (Cons a as)
  then obtain pf1 where p: "queue_prefetch inCache inMissQueue garbage now period pkt s a pf = Inr pf1"
    "queue_prefetches inCache inMissQueue garbage now period pkt s as pf1 = Inr pf'" by auto
  note e = queue_prefetch_effect [OF Cons.prems(1) p(1)]
  then have ba: "block_align pf1 = block_align pf" by (simp add: same_config_block_align)
  have "pfq_ok pf' \<and> same_config pf1 pf' \<and>
    (\<forall>dp \<in> set (pfq pf'). dp \<in> set (pfq pf1) \<or> (\<exists>a \<in> set as. queued_as dp = (block_align pf a, s)))"
    using Cons.IH [of pf1] e p(2) by (simp add: ba)
  then show ?case using e same_config_trans [of pf pf1 pf'] by auto
qed simp

section \<open>Pages\<close>

definition page_geometry :: "'a base_prefetcher_scheme \<Rightarrow> bool" where
  "page_geometry pf \<longleftrightarrow> (\<exists>b p. b < 32 \<and> b \<le> p \<and> p < 64 \<and> pf_blkSize pf = 2 ^ b \<and> pageBytes pf = 2 ^ p)"

lemma ucast_mask_blk: "b < 32 \<Longrightarrow> ucast ((2 :: 32 word) ^ b - 1) = (mask b :: addr)"
  by (rule bit_word_eqI) (auto simp: bit_simps mask_eq_exp_minus_1 [symmetric] dest: bit_imp_le_length)

lemma and_not_mask_mono: "b \<le> p \<Longrightarrow> (x AND NOT (mask b)) AND NOT (mask p) = (x :: addr) AND NOT (mask p)"
  by (rule bit_word_eqI) (auto simp: bit_simps)

lemma page_geometryE:
  assumes "page_geometry pf"
  obtains b p where "b < 32" "b \<le> p" "p < 64" "\<And>x. block_align pf x = x AND NOT (mask b)"
    "\<And>x. roundDown x (pageBytes pf) = x AND NOT (mask p)"
  using assms
  by (auto simp: page_geometry_def roundDown_def block_align_def Let_def ucast_mask_blk)
     (metis (no_types, lifting) mask_eq_exp_minus_1)

lemma block_align_page: "page_geometry pf \<Longrightarrow> samePage pf a (block_align pf x) = samePage pf a x"
  by (erule page_geometryE) (simp add: samePage_def and_not_mask_mono)

text \<open>The contract of \<open>calculatePrefetch\<close>, for the set of behaviours a random choice allows: the queue is left alone, and every
  candidate lies in the page of the access.\<close>

locale page_generators =
  fixes gens :: "('s, 'a) generator set"
  assumes frame: "gen \<in> gens \<Longrightarrow> gen pf pkt = Inr (as, pf') \<Longrightarrow> same_queue pf pf'"
    and in_page: "gen \<in> gens \<Longrightarrow> page_geometry pf \<Longrightarrow> getAddr pkt = Inr a \<Longrightarrow> gen pf pkt = Inr (as, pf') \<Longrightarrow>
      x \<in> set as \<Longrightarrow> samePage pf a x"
begin

lemma notify_effect:
  assumes gen: "gen \<in> gens" and geo: "page_geometry pf" and ok: "pfq_ok pf" and a: "getAddr pkt = Inr a"
    and r: "notify inCache inMissQueue garbage now period gen pf pkt = Inr (t, pf')"
  shows "pfq_ok pf' \<and> same_config pf pf' \<and>
    (\<forall>dp \<in> set (pfq pf'). dp \<in> set (pfq pf) \<or> samePage pf a (fst (queued_as dp)))"
proof -
  obtain obs where obs: "observeAccess inCache inMissQueue pf pkt = Inr obs"
    using r by (auto simp: notify_def)
  show ?thesis
  proof (cases obs)
    case False
    then show ?thesis using r obs ok by (simp add: notify_def)
  next
    case True
    then obtain s pf1 as pf2 where s: "isSecure pkt = Inr s"
      and pf1: "(if queueSquash pf then bindE (squash_queue (pfq pf) (block_align pf a) s) (\<lambda>q. Inr (pf\<lparr>pfq := q\<rparr>))
                 else Inr pf) = Inr pf1"
      and g: "gen pf1 pkt = Inr (as, pf2)"
      and q: "queue_prefetches inCache inMissQueue garbage now period pkt s as pf2 = Inr pf'"
      using r obs a by (auto simp: notify_def)
    have sq: "pfq_ok pf1 \<and> same_config pf pf1 \<and> set (pfq pf1) \<subseteq> set (pfq pf)"
    proof (cases "queueSquash pf")
      case True
      then have "pf1 = pf\<lparr>pfq := filter (\<lambda>dp. queued_as dp \<noteq> (block_align pf a, s)) (pfq pf)\<rparr>"
        using pf1 ok squash_queue_eq [of "pf_blkSize pf" "pfq pf"] by (simp add: pfq_ok_def)
      then show ?thesis using pfq_ok_update [OF ok] by (auto simp: same_config_def distinct_map_filter)
    qed (use pf1 ok in simp)
    have fr: "same_queue pf1 pf2" using frame [OF gen g] .
    have geo1: "page_geometry pf1" using geo sq by (simp add: page_geometry_def same_config_def)
    have ok2: "pfq_ok pf2" "same_config pf pf2" using sq fr same_queue_ok same_config_trans by (auto simp: same_queue_def)
    note e = queue_prefetches_effect [OF ok2(1) q]
    have "samePage pf a (block_align pf x)" if "x \<in> set as" for x
      using in_page [OF gen geo1 a g that] sq geo same_config_samePage [of pf pf1] by (simp add: block_align_page)
    then show ?thesis
      using e fr sq ok2 same_config_trans [OF ok2(2)] same_config_block_align [OF ok2(2)]
      by (auto simp: same_queue_def)
  qed
qed

end

section \<open>A prefetcher at work\<close>

inductive pf_reach ::
    "('s, 'a) generator set \<Rightarrow> ('s, 'a) queued_prefetcher_scheme \<Rightarrow> ('s, 'a) queued_prefetcher_scheme \<Rightarrow> bool"
  for gens pf0 where
  pf_start: "pf_reach gens pf0 pf0"
| pf_notify: "pf_reach gens pf0 pf \<Longrightarrow> gen \<in> gens \<Longrightarrow>
    notify inCache inMissQueue garbage now period gen pf pkt = Inr (t, pf') \<Longrightarrow> pf_reach gens pf0 pf'"
| pf_get: "pf_reach gens pf0 pf \<Longrightarrow> getPacket pf = (r, pf') \<Longrightarrow> pf_reach gens pf0 pf'"

lemma getPacket_effect:
  assumes "getPacket pf = (r, pf')" "pfq_ok pf"
  shows "pfq_ok pf' \<and> same_config pf pf'"
proof (cases "pfq pf")
  case Nil
  then show ?thesis using assms by (simp add: getPacket_def)
next
  case (Cons dp q)
  then have "pf' = pf\<lparr>pfq := q, pfIssued := pfIssued pf + 1\<rparr>" using assms(1) by (auto simp: getPacket_def)
  moreover have "pfq_ok (pf\<lparr>pfq := q\<rparr>)" using Cons assms(2) by (intro pfq_ok_update) auto
  ultimately show ?thesis by (simp add: pfq_ok_def same_config_def block_align_def)
qed

lemma notify_addr:
  "notify inCache inMissQueue garbage now period gen pf pkt = Inr r \<Longrightarrow> \<exists>a. getAddr pkt = Inr a"
  by (auto simp: notify_def observeAccess_def)

context page_generators
begin

lemma reach_ok:
  assumes "pf_reach gens pf0 pf" "page_geometry pf0" "pfq_ok pf0"
  shows "pfq_ok pf \<and> same_config pf0 pf"
  using assms
proof (induction rule: pf_reach.induct)
  case (pf_notify pf gen inCache inMissQueue garbage now period pkt t pf')
  then have ok: "pfq_ok pf" "same_config pf0 pf" by simp_all
  then have "page_geometry pf" using pf_notify.prems(1) by (simp add: page_geometry_def same_config_def)
  moreover obtain a where "getAddr pkt = Inr a" using notify_addr [OF pf_notify.hyps(3)] by blast
  ultimately have "pfq_ok pf' \<and> same_config pf pf'"
    using notify_effect [OF pf_notify.hyps(2) _ ok(1) _ pf_notify.hyps(3)] by simp
  then show ?case using same_config_trans [OF ok(2)] by simp
next
  case (pf_get pf r pf')
  then show ?case using getPacket_effect [OF pf_get.hyps(2)] same_config_trans [of pf0 pf pf'] by simp
qed simp

end

end
