(* ===== verification/Prefetch_Generators.thy ===== *)
theory Prefetch_Generators
  imports Queued_Prefetcher
begin

text \<open>
  The tagged and the stride prefetcher, \<open>src/gem5_src/mem/cache/prefetch/tagged.hh\<close>, \<open>tagged.cc\<close>, \<open>stride.hh\<close> and
  \<open>stride.cc\<close>: two implementations of \<open>calculatePrefetch\<close>. Strides are 32-bit integers, as in the source, so distances are
  truncated and products wrap; the way the stride table evicts is an argument. The magnitude of the smallest integer, which C
  leaves undefined, is taken to be itself.
\<close>

text \<open>Both generators walk through the distances \<open>1 \<le> d \<le> degree\<close> and stop at the first candidate outside the page, counting
  it and what would have followed.\<close>

fun candidate_walk :: "(addr \<Rightarrow> bool) \<Rightarrow> (int \<Rightarrow> addr) \<Rightarrow> int \<Rightarrow> int list \<Rightarrow> addr list \<times> nat" where
  "candidate_walk inside new_addr degree [] = ([], 0)"
| "candidate_walk inside new_addr degree (d # ds) =
     (if inside (new_addr d) then (let (as, n) = candidate_walk inside new_addr degree ds in (new_addr d # as, n))
      else ([], nat (degree - d + 1)))"

section \<open>The tagged prefetcher\<close>

record 's tagged_prefetcher = "'s queued_prefetcher" +
  tg_degree :: int

definition new_TaggedPrefetcher :: "'a queued_params_scheme \<Rightarrow> int \<Rightarrow> 16 word \<Rightarrow> addr \<Rightarrow> 's tagged_prefetcher" where
  "new_TaggedPrefetcher p degree mid page =
     queued_prefetcher.extend (new_QueuedPrefetcher p mid page) \<lparr>tg_degree = degree\<rparr>"

definition tagged_calculatePrefetch ::
    "('s, 'a) tagged_prefetcher_scheme \<Rightarrow> 's packet \<Rightarrow> (addr list \<times> ('s, 'a) tagged_prefetcher_scheme) res" where
  "tagged_calculatePrefetch pf pkt =
     bindE (getAddr pkt) (\<lambda>a.
     (let blkAddr = block_align pf a;
          (addresses, n) = candidate_walk (samePage pf blkAddr) (\<lambda>d. blkAddr + ucast (of_int d * pf_blkSize pf))
            (tg_degree pf) [1..tg_degree pf]
      in Inr (addresses, pf\<lparr>pfSpanPage := pfSpanPage pf + n\<rparr>)))"

section \<open>The stride prefetcher\<close>

record stride_entry =
  instAddr :: addr
  lastAddr :: addr
  se_isSecure :: bool
  se_stride :: "32 word"
  confidence :: int

definition new_StrideEntry :: stride_entry where
  "new_StrideEntry = \<lparr>instAddr = 0, lastAddr = 0, se_isSecure = False, se_stride = 0, confidence = 0\<rparr>"

record 's stride_prefetcher = "'s queued_prefetcher" +
  maxConf :: int
  threshConf :: int
  minConf :: int
  startConf :: int
  pcTableAssoc :: int
  pcTableSets :: "32 word"
  useMasterId :: bool
  st_degree :: int
  pcTable :: "16 word \<Rightarrow> stride_entry list list option"

record stride_params = queued_params +
  max_conf :: int
  thresh_conf :: int
  min_conf :: int
  start_conf :: int
  table_sets :: "32 word"
  table_assoc :: int
  use_master_id :: bool
  param_degree :: int

definition new_StridePrefetcher :: "stride_params \<Rightarrow> 16 word \<Rightarrow> addr \<Rightarrow> 's stride_prefetcher res" where
  "new_StridePrefetcher p mid page =
     (let pf = queued_prefetcher.extend (new_QueuedPrefetcher p mid page)
        \<lparr>maxConf = max_conf p, threshConf = thresh_conf p, minConf = min_conf p, startConf = start_conf p,
         pcTableAssoc = table_assoc p, pcTableSets = table_sets p, useMasterId = use_master_id p,
         st_degree = param_degree p, pcTable = Map.empty\<rparr>
      in bindE (assertE (isPowerOf2 (table_sets p))) (\<lambda>_. Inr (pf\<lparr>onInst := False\<rparr>)))"

definition allocateNewContext ::
    "('s, 'a) stride_prefetcher_scheme \<Rightarrow> 16 word \<Rightarrow> (stride_entry list list \<times> ('s, 'a) stride_prefetcher_scheme) res" where
  "allocateNewContext pf context =
     (if sint (pcTableSets pf) < 0 \<or> pcTableAssoc pf < 0 then Inl Length_Error
      else (let entry = replicate (nat (sint (pcTableSets pf))) (replicate (nat (pcTableAssoc pf)) new_StrideEntry)
            in Inr (entry, pf\<lparr>pcTable := (pcTable pf)(context \<mapsto> entry)\<rparr>)))"

definition pcTable_context ::
    "('s, 'a) stride_prefetcher_scheme \<Rightarrow> 16 word \<Rightarrow> (stride_entry list list \<times> ('s, 'a) stride_prefetcher_scheme) res" where
  "pcTable_context pf context = (case pcTable pf context of Some entry \<Rightarrow> Inr (entry, pf) | None \<Rightarrow> allocateNewContext pf context)"

definition pcHash :: "('s, 'a) stride_prefetcher_scheme \<Rightarrow> addr \<Rightarrow> addr res" where
  "pcHash pf pc =
     (let hash1 = drop_bit 1 pc in
      bindE (assertE (sint (pcTableSets pf) > 0)) (\<lambda>_.
      bindE (floorLog2 (pcTableSets pf)) (\<lambda>k.
      (let hash2 = drop_bit k hash1 in Inr ((hash1 XOR hash2) AND scast (pcTableSets pf - 1))))))"

definition pc_set :: "addr \<Rightarrow> nat" where
  "pc_set h = unat (ucast h :: 32 word)"

text \<open>A hit is the set and the way of the entry.\<close>

definition pcTableHit ::
    "('s, 'a) stride_prefetcher_scheme \<Rightarrow> addr \<Rightarrow> bool \<Rightarrow> 16 word \<Rightarrow>
     ((nat \<times> nat) option \<times> ('s, 'a) stride_prefetcher_scheme) res" where
  "pcTableHit pf pc is_secure master_id =
     bindE (pcHash pf pc) (\<lambda>h.
     bindE (pcTable_context pf master_id) (\<lambda>(table, pf).
     bindE (vec_get table (pc_set h)) (\<lambda>set_entries.
     Inr (map_option (\<lambda>way. (pc_set h, way))
            (find (\<lambda>way. instAddr (set_entries ! way) = pc \<and> se_isSecure (set_entries ! way) = is_secure)
               [0..<length set_entries]), pf))))"

definition pcTableVictim ::
    "nat \<Rightarrow> ('s, 'a) stride_prefetcher_scheme \<Rightarrow> addr \<Rightarrow> 16 word \<Rightarrow> ((nat \<times> nat) \<times> ('s, 'a) stride_prefetcher_scheme) res" where
  "pcTableVictim way pf pc master_id =
     bindE (pcHash pf pc) (\<lambda>h.
     bindE (pcTable_context pf master_id) (\<lambda>(table, pf).
     bindE (vec_get table (pc_set h)) (\<lambda>set_entries.
     bindE (vec_get set_entries way) (\<lambda>_. Inr ((pc_set h, way), pf)))))"

definition get_entry :: "('s, 'a) stride_prefetcher_scheme \<Rightarrow> 16 word \<Rightarrow> nat \<times> nat \<Rightarrow> stride_entry" where
  "get_entry pf m at = the (pcTable pf m) ! fst at ! snd at"

definition put_entry ::
    "('s, 'a) stride_prefetcher_scheme \<Rightarrow> 16 word \<Rightarrow> nat \<times> nat \<Rightarrow> stride_entry \<Rightarrow> ('s, 'a) stride_prefetcher_scheme" where
  "put_entry pf m at e =
     (let table = the (pcTable pf m)
      in pf\<lparr>pcTable := (pcTable pf)(m \<mapsto> table[fst at := (table ! fst at)[snd at := e]])\<rparr>)"

definition stride_train ::
    "('s, 'a) stride_prefetcher_scheme \<Rightarrow> addr \<Rightarrow> stride_entry \<Rightarrow> 32 word \<times> stride_entry" where
  "stride_train pf a e =
     (let new_stride = ucast (a - lastAddr e);
          e = (if new_stride = se_stride e \<and> new_stride \<noteq> 0
               then (if confidence e < maxConf pf then e\<lparr>confidence := confidence e + 1\<rparr> else e)
               else (let e = (if confidence e > minConf pf then e\<lparr>confidence := confidence e - 1\<rparr> else e)
                     in if confidence e < threshConf pf then e\<lparr>se_stride := new_stride\<rparr> else e))
      in (new_stride, e\<lparr>lastAddr := a\<rparr>))"

definition prefetch_stride :: "32 word \<Rightarrow> 32 word \<Rightarrow> 32 word" where
  "prefetch_stride blk new_stride =
     (if (if sint new_stride < 0 then - new_stride else new_stride) < blk
      then (if sint new_stride < 0 then - blk else blk) else new_stride)"

definition stride_calculatePrefetch ::
    "nat \<Rightarrow> ('s, 'a) stride_prefetcher_scheme \<Rightarrow> 's packet \<Rightarrow> (addr list \<times> ('s, 'a) stride_prefetcher_scheme) res" where
  "stride_calculatePrefetch way pf pkt =
     (if \<not> hasPC (pkt_req pkt) then Inr ([], pf)
      else
        bindE (getAddr pkt) (\<lambda>pkt_addr.
        bindE (getPC (pkt_req pkt)) (\<lambda>pc.
        bindE (isSecure pkt) (\<lambda>is_secure.
        (let master_id = (if useMasterId pf then req_masterId (pkt_req pkt) else 0) in
         bindE (pcTableHit pf pc is_secure master_id) (\<lambda>(hit, pf).
         case hit of
           Some at \<Rightarrow>
             (let (new_stride, e) = stride_train pf pkt_addr (get_entry pf master_id at);
                  pf = put_entry pf master_id at e in
              if confidence e < threshConf pf then Inr ([], pf)
              else (let (addresses, n) = candidate_walk (samePage pf pkt_addr)
                          (\<lambda>d. pkt_addr + scast (of_int d * prefetch_stride (pf_blkSize pf) new_stride))
                          (st_degree pf) [1..st_degree pf]
                    in Inr (addresses, pf\<lparr>pfSpanPage := pfSpanPage pf + n\<rparr>)))
         | None \<Rightarrow>
             bindE (pcTableVictim way pf pc master_id) (\<lambda>(at, pf).
             Inr ([], put_entry pf master_id at
               \<lparr>instAddr = pc, lastAddr = pkt_addr, se_isSecure = is_secure, se_stride = 0,
                confidence = startConf pf\<rparr>))))))))"

section \<open>Candidates stay in the page\<close>

lemma candidate_walk_takeWhile: "fst (candidate_walk inside f n ds) = takeWhile inside (map f ds)"
  by (induction ds) (auto split: prod.splits)

lemma samePage_refl [simp]: "samePage pf a a"
  by (simp add: samePage_def)

lemma samePage_trans: "samePage pf a b \<Longrightarrow> samePage pf b c \<Longrightarrow> samePage pf a c"
  by (simp add: samePage_def)

lemma tagged_result:
  assumes "tagged_calculatePrefetch pf pkt = Inr (as, pf')"
  obtains a n where "getAddr pkt = Inr a" "pf' = pf\<lparr>pfSpanPage := n\<rparr>"
    "as = takeWhile (samePage pf (block_align pf a))
       (map (\<lambda>d. block_align pf a + ucast (of_int d * pf_blkSize pf)) [1..tg_degree pf])"
proof -
  obtain a where a: "getAddr pkt = Inr a" using assms by (auto simp: tagged_calculatePrefetch_def)
  let ?w = "candidate_walk (samePage pf (block_align pf a)) (\<lambda>d. block_align pf a + ucast (of_int d * pf_blkSize pf))
    (tg_degree pf) [1..tg_degree pf]"
  have "as = fst ?w" "pf' = pf\<lparr>pfSpanPage := pfSpanPage pf + snd ?w\<rparr>"
    using assms a by (auto simp: tagged_calculatePrefetch_def Let_def case_prod_unfold)
  then show thesis using that [OF a] candidate_walk_takeWhile by metis
qed

interpretation tagged: page_generators "{tagged_calculatePrefetch}"
proof (unfold_locales, goal_cases)
  case (1 gen pf pkt as pf')
  then have "tagged_calculatePrefetch pf pkt = Inr (as, pf')" by simp
  then show ?case by (rule tagged_result) (simp add: same_queue_def same_config_def)
next
  case (2 gen pf pkt a as pf' x)
  then have "tagged_calculatePrefetch pf pkt = Inr (as, pf')" by simp
  then have "samePage pf (block_align pf a) x"
    by (rule tagged_result) (use 2 in \<open>auto dest: set_takeWhileD\<close>)
  moreover have "samePage pf a (block_align pf a)" using 2 by (simp add: block_align_page)
  ultimately show ?case using samePage_trans by blast
qed

section \<open>The stride table\<close>

definition conf_ok :: "('s, 'a) stride_prefetcher_scheme \<Rightarrow> stride_entry \<Rightarrow> bool" where
  "conf_ok pf e \<longleftrightarrow> min 0 (minConf pf) \<le> confidence e \<and> confidence e \<le> max 0 (maxConf pf)"

definition table_ok :: "('s, 'a) stride_prefetcher_scheme \<Rightarrow> stride_entry list list \<Rightarrow> bool" where
  "table_ok pf t \<longleftrightarrow> length t = unat (pcTableSets pf) \<and>
     list_all (\<lambda>es. length es = nat (pcTableAssoc pf) \<and> list_all (conf_ok pf) es) t"

definition stride_config :: "('s, 'a) stride_prefetcher_scheme \<Rightarrow> bool" where
  "stride_config pf \<longleftrightarrow> isPowerOf2 (pcTableSets pf) \<and> 0 < sint (pcTableSets pf) \<and> 0 < pcTableAssoc pf \<and>
     minConf pf \<le> startConf pf \<and> startConf pf \<le> maxConf pf"

definition stride_inv :: "('s, 'a) stride_prefetcher_scheme \<Rightarrow> bool" where
  "stride_inv pf \<longleftrightarrow> stride_config pf \<and> (\<forall>m t. pcTable pf m = Some t \<longrightarrow> table_ok pf t)"

lemma stride_sets:
  assumes "stride_config pf"
  obtains k where "k < 31" "pcTableSets pf = 2 ^ k"
proof -
  obtain k where k: "k < 32" "pcTableSets pf = 2 ^ k"
    using assms by (auto simp: stride_config_def isPowerOf2_iff)
  have "sint ((2 :: 32 word) ^ 31) < 0" by simp
  then have "k \<noteq> 31" using assms k(2) by (auto simp: stride_config_def)
  then have "k < 31" using k(1) by linarith
  then show thesis using k(2) by (rule that)
qed

lemma scast_mask_small: "k < 31 \<Longrightarrow> scast ((2 :: 32 word) ^ k - 1) = (mask k :: addr)"
  by (rule bit_word_eqI) (auto simp: bit_simps mask_eq_exp_minus_1 [symmetric])

lemma pcHash_ok:
  assumes "stride_config pf"
  shows "\<exists>h. pcHash pf pc = Inr h \<and> pc_set h < unat (pcTableSets pf)"
proof -
  obtain k where k: "k < 31" "pcTableSets pf = 2 ^ k" using assms by (rule stride_sets)
  then have fl: "floorLog2 (pcTableSets pf) = Inr k" using floorLog2_power2 [of k] by simp
  define h where "h = (drop_bit 1 pc XOR drop_bit k (drop_bit 1 pc)) AND mask k"
  have "unat h < 2 ^ k" unfolding h_def take_bit_eq_mask [symmetric] unat_take by simp
  also have "(2 :: nat) ^ k < 2 ^ 32" using k(1) power_strict_increasing [of k 32 "2 :: nat"] by simp
  finally have "unat (ucast h :: 32 word) = unat h" by (intro unat_ucast_small) simp
  then have "pc_set h < 2 ^ k" using \<open>unat h < 2 ^ k\<close> by (simp add: pc_set_def)
  moreover have "pcHash pf pc = Inr h"
    using assms fl k by (simp add: pcHash_def Let_def stride_config_def scast_mask_small h_def)
  ultimately show ?thesis using k by (simp add: unat_power2)
qed


lemma stride_parts [simp]:
  "conf_ok (pf\<lparr>pcTable := T\<rparr>) = conf_ok pf" "table_ok (pf\<lparr>pcTable := T\<rparr>) = table_ok pf"
  "stride_config (pf\<lparr>pcTable := T\<rparr>) = stride_config pf" "pcHash (pf\<lparr>pcTable := T\<rparr>) = pcHash pf"
proof -
  show c: "conf_ok (pf\<lparr>pcTable := T\<rparr>) = conf_ok pf" by (intro ext) (simp add: conf_ok_def)
  show "table_ok (pf\<lparr>pcTable := T\<rparr>) = table_ok pf" by (intro ext) (simp add: table_ok_def c)
qed (simp_all add: stride_config_def pcHash_def fun_eq_iff)

lemma fresh_table_ok:
  assumes "stride_config pf"
  shows "table_ok pf (replicate (nat (sint (pcTableSets pf))) (replicate (nat (pcTableAssoc pf)) new_StrideEntry))"
proof -
  obtain k where k: "k < 31" "pcTableSets pf = 2 ^ k" using assms by (rule stride_sets)
  have "unat (pcTableSets pf) < 2 ^ 31" using k power_strict_increasing [of k 31 "2 :: nat"] by (simp add: unat_power2)
  then have "nat (sint (pcTableSets pf)) = unat (pcTableSets pf)" by (simp add: sint_small)
  then show ?thesis by (simp add: table_ok_def list_all_iff conf_ok_def new_StrideEntry_def)
qed

lemma pcTable_context_ok:
  assumes "stride_inv pf"
  obtains t T where "pcTable_context pf m = Inr (t, pf\<lparr>pcTable := T\<rparr>)" "table_ok pf t" "T m = Some t"
    "stride_inv (pf\<lparr>pcTable := T\<rparr>)"
proof (cases "pcTable pf m")
  case (Some t)
  then show thesis using that [of t "pcTable pf"] assms by (simp add: pcTable_context_def stride_inv_def)
next
  case None
  let ?t = "replicate (nat (sint (pcTableSets pf))) (replicate (nat (pcTableAssoc pf)) new_StrideEntry)"
  have "stride_config pf" using assms by (simp add: stride_inv_def)
  moreover from this have "pcTable_context pf m = Inr (?t, pf\<lparr>pcTable := (pcTable pf)(m \<mapsto> ?t)\<rparr>)"
    using None by (simp add: pcTable_context_def allocateNewContext_def stride_config_def Let_def)
  moreover have "stride_inv (pf\<lparr>pcTable := (pcTable pf)(m \<mapsto> ?t)\<rparr>)"
    using assms fresh_table_ok by (auto simp: stride_inv_def)
  ultimately show thesis using that fresh_table_ok by fastforce
qed

lemma pcTableHit_ok:
  assumes "stride_inv pf"
  obtains hit T t where "pcTableHit pf pc s m = Inr (hit, pf\<lparr>pcTable := T\<rparr>)" "stride_inv (pf\<lparr>pcTable := T\<rparr>)" "T m = Some t"
    "\<forall>i w. hit = Some (i, w) \<longrightarrow> i < length t \<and> w < length (t ! i)"
proof -
  obtain h where h: "pcHash pf pc = Inr h" "pc_set h < unat (pcTableSets pf)"
    using assms pcHash_ok unfolding stride_inv_def by blast
  obtain t T where t: "pcTable_context pf m = Inr (t, pf\<lparr>pcTable := T\<rparr>)" "table_ok pf t" "T m = Some t"
    "stride_inv (pf\<lparr>pcTable := T\<rparr>)" using assms by (rule pcTable_context_ok)
  have len: "pc_set h < length t" using h(2) t(2) by (simp add: table_ok_def)
  let ?hit = "map_option (\<lambda>way. (pc_set h, way)) (find (\<lambda>way. instAddr (t ! pc_set h ! way) = pc \<and>
    se_isSecure (t ! pc_set h ! way) = s) [0..<length (t ! pc_set h)])"
  have "pcTableHit pf pc s m = Inr (?hit, pf\<lparr>pcTable := T\<rparr>)" using h t len by (simp add: pcTableHit_def)
  then show thesis by (rule that [OF _ t(4,3)]) (use len in \<open>auto simp: find_Some_iff\<close>)
qed

lemma pcTableVictim_ok:
  assumes "stride_inv pf" "way < nat (pcTableAssoc pf)"
  obtains i T t where "pcTableVictim way pf pc m = Inr ((i, way), pf\<lparr>pcTable := T\<rparr>)" "stride_inv (pf\<lparr>pcTable := T\<rparr>)"
    "T m = Some t" "i < length t" "way < length (t ! i)"
proof -
  obtain h where h: "pcHash pf pc = Inr h" "pc_set h < unat (pcTableSets pf)"
    using assms(1) pcHash_ok unfolding stride_inv_def by blast
  obtain t T where t: "pcTable_context pf m = Inr (t, pf\<lparr>pcTable := T\<rparr>)" "table_ok pf t" "T m = Some t"
    "stride_inv (pf\<lparr>pcTable := T\<rparr>)" using assms(1) by (rule pcTable_context_ok)
  have len: "pc_set h < length t" "length (t ! pc_set h) = nat (pcTableAssoc pf)"
    using h(2) t(2) by (simp_all add: table_ok_def list_all_length)
  then have "pcTableVictim way pf pc m = Inr ((pc_set h, way), pf\<lparr>pcTable := T\<rparr>)"
    using h t assms(2) by (simp add: pcTableVictim_def)
  then show thesis using that t(3,4) len assms(2) by simp
qed

lemma put_entry_inv:
  assumes "stride_inv pf" "pcTable pf m = Some t" "i < length t" "w < length (t ! i)" "conf_ok pf e"
  shows "stride_inv (put_entry pf m (i, w) e)"
proof -
  have t: "table_ok pf t" using assms(1,2) by (simp add: stride_inv_def)
  then have "list_all (conf_ok pf) ((t ! i)[w := e])" "length (t ! i) = nat (pcTableAssoc pf)"
    using assms(3-5) by (auto simp: table_ok_def list_all_length nth_list_update)
  then have "table_ok pf (t[i := (t ! i)[w := e]])"
    using t assms(3) by (auto simp: table_ok_def list_all_length nth_list_update)
  then show ?thesis using assms(1,2) by (simp add: put_entry_def stride_inv_def)
qed

lemma get_entry_ok:
  assumes "stride_inv pf" "pcTable pf m = Some t" "i < length t" "w < length (t ! i)"
  shows "conf_ok pf (get_entry pf m (i, w))"
  using assms by (auto simp: stride_inv_def table_ok_def get_entry_def list_all_length)

lemma stride_train_ok:
  assumes "stride_config pf" "conf_ok pf e"
  shows "conf_ok pf (snd (stride_train pf a e))"
  using assms by (auto simp: stride_train_def conf_ok_def stride_config_def Let_def)


section \<open>The stride generator keeps the contract\<close>

lemma same_queue_refl [simp]: "same_queue pf pf"
  by (simp add: same_queue_def)

lemma same_queue_trans: "same_queue a b \<Longrightarrow> same_queue b c \<Longrightarrow> same_queue a c"
  by (auto simp: same_queue_def intro: same_config_trans)

lemma same_queue_table [simp]: "same_queue pf (pf\<lparr>pcTable := T\<rparr>)" "same_queue pf (pf\<lparr>pfSpanPage := n\<rparr>)"
  by (simp_all add: same_queue_def same_config_def)

lemma same_queue_put [simp]: "same_queue pf (put_entry pf m at e)"
  by (simp add: put_entry_def Let_def)

lemma pcTable_context_frame: "pcTable_context pf m = Inr (t, pf') \<Longrightarrow> same_queue pf pf'"
  by (auto simp: pcTable_context_def allocateNewContext_def Let_def split: option.splits if_splits)

lemma pcTableHit_frame: "pcTableHit pf pc s m = Inr (hit, pf') \<Longrightarrow> same_queue pf pf'"
  by (auto simp: pcTableHit_def dest: pcTable_context_frame)

lemma pcTableVictim_frame: "pcTableVictim way pf pc m = Inr (at, pf') \<Longrightarrow> same_queue pf pf'"
  by (auto simp: pcTableVictim_def dest: pcTable_context_frame)

lemma stride_resultE:
  assumes "stride_calculatePrefetch way pf pkt = Inr (as, pf')"
  obtains (ignored) "\<not> hasPC (pkt_req pkt)" "as = []" "pf' = pf"
  | (trained) a pc s at pf1 e where "hasPC (pkt_req pkt)" "getAddr pkt = Inr a" "getPC (pkt_req pkt) = Inr pc" "isSecure pkt = Inr s"
      "pcTableHit pf pc s (if useMasterId pf then req_masterId (pkt_req pkt) else 0) = Inr (Some at, pf1)"
      "e = stride_train pf1 a (get_entry pf1 (if useMasterId pf then req_masterId (pkt_req pkt) else 0) at)"
      "(as, pf') = (let pf2 = put_entry pf1 (if useMasterId pf then req_masterId (pkt_req pkt) else 0) at (snd e) in
         if confidence (snd e) < threshConf pf2 then ([], pf2)
         else (let w = candidate_walk (samePage pf2 a) (\<lambda>d. a + scast (of_int d * prefetch_stride (pf_blkSize pf2) (fst e)))
                 (st_degree pf2) [1..st_degree pf2] in (fst w, pf2\<lparr>pfSpanPage := pfSpanPage pf2 + snd w\<rparr>)))"
  | (learned) a pc s pf1 at pf2 where "hasPC (pkt_req pkt)" "getAddr pkt = Inr a" "getPC (pkt_req pkt) = Inr pc" "isSecure pkt = Inr s"
      "pcTableHit pf pc s (if useMasterId pf then req_masterId (pkt_req pkt) else 0) = Inr (None, pf1)"
      "pcTableVictim way pf1 pc (if useMasterId pf then req_masterId (pkt_req pkt) else 0) = Inr (at, pf2)" "as = []"
      "pf' = put_entry pf2 (if useMasterId pf then req_masterId (pkt_req pkt) else 0) at
         \<lparr>instAddr = pc, lastAddr = a, se_isSecure = s, se_stride = 0, confidence = startConf pf2\<rparr>"
proof (cases "hasPC (pkt_req pkt)")
  case False
  then show thesis using assms ignored by (simp add: stride_calculatePrefetch_def)
next
  case True
  let ?m = "if useMasterId pf then req_masterId (pkt_req pkt) else 0"
  obtain a pc s hit pf1 where b: "getAddr pkt = Inr a" "getPC (pkt_req pkt) = Inr pc" "isSecure pkt = Inr s"
    "pcTableHit pf pc s ?m = Inr (hit, pf1)"
    using assms True by (auto simp: stride_calculatePrefetch_def Let_def)
  show thesis
  proof (cases hit)
    case None
    then obtain at pf2 where "pcTableVictim way pf1 pc ?m = Inr (at, pf2)" "as = []"
      "pf' = put_entry pf2 ?m at \<lparr>instAddr = pc, lastAddr = a, se_isSecure = s, se_stride = 0, confidence = startConf pf2\<rparr>"
      using assms b True by (auto simp: stride_calculatePrefetch_def Let_def)
    then show thesis using learned True b None by blast
  next
    case (Some at)
    have "stride_calculatePrefetch way pf pkt = Inr (let e = stride_train pf1 a (get_entry pf1 ?m at); pf2 = put_entry pf1 ?m at (snd e) in
         if confidence (snd e) < threshConf pf2 then ([], pf2)
         else (let w = candidate_walk (samePage pf2 a) (\<lambda>d. a + scast (of_int d * prefetch_stride (pf_blkSize pf2) (fst e)))
                 (st_degree pf2) [1..st_degree pf2] in (fst w, pf2\<lparr>pfSpanPage := pfSpanPage pf2 + snd w\<rparr>)))"
      using b True Some by (simp add: stride_calculatePrefetch_def Let_def case_prod_unfold)
    then show thesis using assms by (intro trained [OF True b(1-3) b(4) [unfolded Some] refl]) (simp add: Let_def)
  qed
qed

lemma put_entry_fields [simp]:
  "threshConf (put_entry pf m at e) = threshConf pf" "st_degree (put_entry pf m at e) = st_degree pf"
  "pf_blkSize (put_entry pf m at e) = pf_blkSize pf" "samePage (put_entry pf m at e) = samePage pf"
  "pfSpanPage (put_entry pf m at e) = pfSpanPage pf"
  by (simp_all add: put_entry_def Let_def samePage_def fun_eq_iff)

lemma same_queue_put_span [simp]: "same_queue pf (put_entry pf m at e\<lparr>pfSpanPage := n\<rparr>)"
  by (rule same_queue_trans [OF same_queue_put same_queue_table(2)])

lemma stride_frame:
  assumes "stride_calculatePrefetch way pf pkt = Inr (as, pf')"
  shows "same_queue pf pf'"
  using assms
proof (cases rule: stride_resultE)
  case (trained a pc s at pf1 e)
  have "same_queue pf pf1" using trained(5) by (rule pcTableHit_frame)
  moreover have "same_queue pf1 pf'"
    using trained(7) by (auto simp: Let_def split: if_splits)
  ultimately show ?thesis by (rule same_queue_trans)
next
  case (learned a pc s pf1 at pf2)
  then show ?thesis
    using same_queue_trans [OF same_queue_trans [OF pcTableHit_frame [OF learned(5)] pcTableVictim_frame [OF learned(6)]] same_queue_put]
    by simp
qed simp

interpretation stride: page_generators "range stride_calculatePrefetch"
proof (unfold_locales, goal_cases)
  case (1 gen pf pkt as pf')
  then show ?case using stride_frame by blast
next
  case (2 gen pf pkt a as pf' x)
  then obtain way where "stride_calculatePrefetch way pf pkt = Inr (as, pf')" by auto
  then show ?case
  proof (cases rule: stride_resultE)
    case (trained b pc s at pf1 e)
    have "same_config pf pf1" using pcTableHit_frame [OF trained(5)] by (simp add: same_queue_def)
    then have "samePage pf1 = samePage pf" by (rule same_config_samePage)
    moreover have "x \<in> set as" "a = b" using 2 trained(2) by simp_all
    ultimately show ?thesis
      using trained(7) by (auto simp: Let_def candidate_walk_takeWhile split: if_splits dest: set_takeWhileD)
  qed (use 2 in auto)
qed

lemma stride_inv_span [simp]: "stride_inv (pf\<lparr>pfSpanPage := n\<rparr>) = stride_inv pf"
proof -
  have c: "conf_ok (pf\<lparr>pfSpanPage := n\<rparr>) = conf_ok pf" by (intro ext) (simp add: conf_ok_def)
  have "table_ok (pf\<lparr>pfSpanPage := n\<rparr>) = table_ok pf" by (intro ext) (simp add: table_ok_def c)
  then show ?thesis by (simp add: stride_inv_def stride_config_def)
qed

lemma stride_total:
  assumes inv: "stride_inv pf" and way: "way < nat (pcTableAssoc pf)" and a: "getAddr pkt = Inr a" "isSecure pkt = Inr s"
  shows "\<exists>as pf'. stride_calculatePrefetch way pf pkt = Inr (as, pf')"
proof (cases "hasPC (pkt_req pkt)")
  case True
  then obtain pc where pc: "getPC (pkt_req pkt) = Inr pc" by (simp add: hasPC_def getPC_def)
  let ?m = "if useMasterId pf then req_masterId (pkt_req pkt) else 0"
  obtain hit T where h: "pcTableHit pf pc s ?m = Inr (hit, pf\<lparr>pcTable := T\<rparr>)" "stride_inv (pf\<lparr>pcTable := T\<rparr>)"
    by (rule pcTableHit_ok [OF inv, of pc s ?m])
  have w: "way < nat (pcTableAssoc (pf\<lparr>pcTable := T\<rparr>))" using way by simp
  obtain i T' where v: "pcTableVictim way (pf\<lparr>pcTable := T\<rparr>) pc ?m = Inr ((i, way), pf\<lparr>pcTable := T\<rparr>\<lparr>pcTable := T'\<rparr>)"
    by (rule pcTableVictim_ok [OF h(2) w, of pc ?m])
  show ?thesis using True a pc h(1) v
    by (cases hit) (simp_all add: stride_calculatePrefetch_def Let_def case_prod_unfold)
qed (simp add: stride_calculatePrefetch_def)

lemma stride_keeps_inv:
  assumes inv: "stride_inv pf" and r: "stride_calculatePrefetch way pf pkt = Inr (as, pf')"
    and way: "way < nat (pcTableAssoc pf)"
  shows "stride_inv pf'"
  using r
proof (cases rule: stride_resultE)
  case ignored
  then show ?thesis using inv by simp
next
  case (trained a pc s at pf1 e)
  let ?m = "if useMasterId pf then req_masterId (pkt_req pkt) else 0"
  obtain i w where at: "at = (i, w)" by (cases at)
  obtain hit T t where h: "pcTableHit pf pc s ?m = Inr (hit, pf\<lparr>pcTable := T\<rparr>)" "stride_inv (pf\<lparr>pcTable := T\<rparr>)" "T ?m = Some t"
    "\<forall>i w. hit = Some (i, w) \<longrightarrow> i < length t \<and> w < length (t ! i)" by (rule pcTableHit_ok [OF inv, of pc s ?m])
  have pf1: "stride_inv pf1" "pcTable pf1 ?m = Some t" "i < length t" "w < length (t ! i)"
    using h trained(5) at by auto
  then have "conf_ok pf1 (snd e)"
    using get_entry_ok [OF pf1] stride_train_ok [of pf1] trained(6) at by (simp add: stride_inv_def)
  then have "stride_inv (put_entry pf1 ?m (i, w) (snd e))" using put_entry_inv [OF pf1] by simp
  then show ?thesis using trained(7) at by (auto simp: Let_def split: if_splits)
next
  case (learned a pc s pf1 at pf2)
  let ?m = "if useMasterId pf then req_masterId (pkt_req pkt) else 0"
  obtain hit T where h: "pcTableHit pf pc s ?m = Inr (hit, pf\<lparr>pcTable := T\<rparr>)" "stride_inv (pf\<lparr>pcTable := T\<rparr>)"
    by (rule pcTableHit_ok [OF inv, of pc s ?m])
  have pf1: "stride_inv pf1" "way < nat (pcTableAssoc pf1)" using h learned(5) way by auto
  obtain i T' t' where v: "pcTableVictim way pf1 pc ?m = Inr ((i, way), pf1\<lparr>pcTable := T'\<rparr>)" "stride_inv (pf1\<lparr>pcTable := T'\<rparr>)"
    "T' ?m = Some t'" "i < length t'" "way < length (t' ! i)" by (rule pcTableVictim_ok [OF pf1, of pc ?m])
  have pf2: "stride_inv pf2" "pcTable pf2 ?m = Some t'" "at = (i, way)" using v learned(6) by auto
  have "conf_ok pf2 \<lparr>instAddr = pc, lastAddr = a, se_isSecure = s, se_stride = 0, confidence = startConf pf2\<rparr>"
    using pf2(1) by (auto simp: conf_ok_def stride_inv_def stride_config_def)
  then show ?thesis using put_entry_inv [OF pf2(1,2) v(4,5)] pf2(3) learned(8) by simp
qed

lemma pcTableHit_shape: "pcTableHit pf pc s m = Inr (hit, pf') \<Longrightarrow> \<exists>T. pf' = pf\<lparr>pcTable := T\<rparr>"
proof -
  have "pcTable_context pf m = Inr (t, pf1) \<Longrightarrow> \<exists>T. pf1 = pf\<lparr>pcTable := T\<rparr>" for t pf1
    by (auto simp: pcTable_context_def allocateNewContext_def Let_def split: option.splits if_splits
        intro: exI [of _ "pcTable pf"])
  then show "pcTableHit pf pc s m = Inr (hit, pf') \<Longrightarrow> ?thesis" by (auto simp: pcTableHit_def)
qed

lemma sint_of_int_small: "- (2 ^ 31) \<le> i \<Longrightarrow> i < 2 ^ 31 \<Longrightarrow> sint (of_int i :: 32 word) = i"
  by (simp add: sint_sbintrunc' signed_take_bit_int_eq_self)

lemma ucast_of_int: "(ucast (of_int i :: 64 word) :: 32 word) = of_int i"
  by (rule bit_word_eqI) (auto simp: bit_simps)

lemma scast_of_int_small:
  "- (2 ^ 31) \<le> i \<Longrightarrow> i < 2 ^ 31 \<Longrightarrow> (scast (of_int i :: 32 word) :: 64 word) = of_int i"
  using sint_of_int_small [of i] by (metis of_int_sint)

lemma prefetch_stride_wide:
  assumes "\<bar>st\<bar> < 2 ^ 31" "int (unat blk) \<le> \<bar>st\<bar>"
  shows "prefetch_stride blk (of_int st) = of_int st"
proof -
  have s: "sint (of_int st :: 32 word) = st" using assms(1) by (intro sint_of_int_small) auto
  have "unat (if st < 0 then - (of_int st) else of_int st :: 32 word) = nat \<bar>st\<bar>"
  proof -
    have "(if st < 0 then - (of_int st) else of_int st :: 32 word) = of_int \<bar>st\<bar>" by simp
    then show ?thesis using assms(1) by (simp add: unsigned_of_int take_bit_int_eq_self)
  qed
  then have "\<not> (if st < 0 then - (of_int st) else of_int st :: 32 word) < blk"
    using assms(2) unfolding word_less_nat_alt by linarith
  then show ?thesis unfolding prefetch_stride_def s by simp
qed


lemma samePage_table [simp]: "samePage (pf\<lparr>pcTable := T\<rparr>) = samePage pf"
  by (simp add: samePage_def fun_eq_iff)

lemma stride_train_match:
  assumes "a = lastAddr e + of_int st" "se_stride e = of_int st" "st \<noteq> 0" "\<bar>st\<bar> < 2 ^ 31"
  shows "stride_train pf a e = (of_int st,
    e\<lparr>confidence := if confidence e < maxConf pf then confidence e + 1 else confidence e, lastAddr := a\<rparr>)"
proof -
  have "ucast (a - lastAddr e) = (of_int st :: 32 word)" using assms(1) by (simp add: ucast_of_int)
  moreover have "(of_int st :: 32 word) \<noteq> 0" using sint_of_int_small [of st] assms(3,4) by fastforce
  ultimately show ?thesis using assms(2) by (simp add: stride_train_def Let_def)
qed

lemma pfq_ok_empty: "pfq pf = [] \<Longrightarrow> pfq_ok pf"
  by (simp add: pfq_ok_def all_prefetches_def)

section \<open>What the prefetchers promise\<close>

text \<open>
  C8: whatever accesses a stride or a tagged prefetcher is told of and whenever the cache takes prefetches from it, its queue
  never exceeds its size, holds hardware prefetches of one block at block addresses only, and, if it filters, holds no
  address of a security domain twice.
\<close>

theorem prefetch_queue_invariant:
  "(pf_reach (range stride_calculatePrefetch) s0 s \<and> page_geometry s0 \<and> pfq s0 = [] \<longrightarrow> pfq_ok s) \<and>
   (pf_reach {tagged_calculatePrefetch} t0 t \<and> page_geometry t0 \<and> pfq t0 = [] \<longrightarrow> pfq_ok t)"
  using stride.reach_ok [OF _ _ pfq_ok_empty] tagged.reach_ok [OF _ _ pfq_ok_empty] by blast

text \<open>
  C9: a prefetch never leaves the page of the access that caused it: whatever an access adds to the queue of a stride or a
  tagged prefetcher lies in the same page, for any block size that divides the page size.
\<close>

theorem prefetches_stay_in_page:
  "(page_geometry pf \<and> pfq_ok pf \<and> getAddr pkt = Inr a \<and>
      notify inCache inMissQueue garbage now period (stride_calculatePrefetch way) pf pkt = Inr (t, pf') \<and> dp \<in> set (pfq pf') \<longrightarrow>
      dp \<in> set (pfq pf) \<or> samePage pf a (pkt_addr (dp_pkt dp))) \<and>
   (page_geometry tp \<and> pfq_ok tp \<and> getAddr pkt = Inr a \<and>
      notify inCache inMissQueue garbage now period tagged_calculatePrefetch tp pkt = Inr (t, tp') \<and> dq \<in> set (pfq tp') \<longrightarrow>
      dq \<in> set (pfq tp) \<or> samePage tp a (pkt_addr (dp_pkt dq)))"
  using stride.notify_effect [OF rangeI [of _ way], of pf pkt a inCache inMissQueue garbage now period t pf']
    tagged.notify_effect [OF singletonI, of tp pkt a inCache inMissQueue garbage now period t tp']
  by (auto simp: queued_as_def)

text \<open>
  C24: the stride table never fails: in a table whose number of sets is a power of two, every access with an address finds its
  set, evicts a way of it, and leaves all confidences within the configured bounds.
\<close>

theorem stride_table_safe:
  assumes "stride_inv pf" "way < nat (pcTableAssoc pf)" "getAddr pkt = Inr a" "isSecure pkt = Inr s"
  shows "\<exists>as pf'. stride_calculatePrefetch way pf pkt = Inr (as, pf') \<and> stride_inv pf'"
  using stride_total [OF assms] stride_keeps_inv [OF assms(1) _ assms(2)] by blast

text \<open>
  C11: once an instruction has repeated a stride of at least a block often enough, its next access at that stride, forwards or
  backwards, yields exactly the next \<open>degree\<close> addresses of the sequence, cut off at the end of the page.
\<close>

theorem stride_prefetches_ahead:
  assumes pkt: "hasPC (pkt_req pkt)" "getPC (pkt_req pkt) = Inr pc" "getAddr pkt = Inr a" "isSecure pkt = Inr s"
    and hit: "pcTableHit pf pc s (if useMasterId pf then req_masterId (pkt_req pkt) else 0) = Inr (Some at, pf1)"
    and e: "get_entry pf1 (if useMasterId pf then req_masterId (pkt_req pkt) else 0) at = e"
    and st: "a = lastAddr e + of_int st" "se_stride e = of_int st" "st \<noteq> 0" "int (unat (pf_blkSize pf)) \<le> \<bar>st\<bar>"
    and deg: "1 \<le> st_degree pf" "st_degree pf * \<bar>st\<bar> < 2 ^ 31"
    and conf: "threshConf pf \<le> (if confidence e < maxConf pf then confidence e + 1 else confidence e)"
  shows "\<exists>pf'. stride_calculatePrefetch way pf pkt =
    Inr (takeWhile (samePage pf a) (map (\<lambda>d. a + of_int (d * st)) [1..st_degree pf]), pf')"
proof -
  obtain T where T: "pf1 = pf\<lparr>pcTable := T\<rparr>" using pcTableHit_shape [OF hit] by blast
  have "\<bar>st\<bar> * 1 \<le> \<bar>st\<bar> * st_degree pf" using deg(1) by (intro mult_left_mono) auto
  then have small: "\<bar>st\<bar> < 2 ^ 31" using deg(2) by (simp add: mult.commute)
  let ?w = "candidate_walk (samePage pf a) (\<lambda>d. a + scast (of_int d * prefetch_stride (pf_blkSize pf) (of_int st)))
    (st_degree pf) [1..st_degree pf]"
  have ex: "\<exists>pf'. stride_calculatePrefetch way pf pkt = Inr (fst ?w, pf')"
    using pkt hit e stride_train_match [OF st(1-3) small, of pf1] conf
    by (auto simp: stride_calculatePrefetch_def Let_def case_prod_unfold T)
  have "scast (of_int d * prefetch_stride (pf_blkSize pf) (of_int st)) = (of_int (d * st) :: addr)"
    if "d \<in> set [1..st_degree pf]" for d
  proof -
    have "\<bar>d * st\<bar> \<le> st_degree pf * \<bar>st\<bar>" using that by (auto simp: abs_mult intro: mult_right_mono)
    then have "\<bar>d * st\<bar> < 2 ^ 31" using deg(2) by linarith
    then show ?thesis using prefetch_stride_wide [OF small st(4)] scast_of_int_small [of "d * st"] by simp
  qed
  then have "fst ?w = takeWhile (samePage pf a) (map (\<lambda>d. a + of_int (d * st)) [1..st_degree pf])"
    unfolding candidate_walk_takeWhile by (intro arg_cong [of _ _ "takeWhile _"] map_cong) auto
  then show ?thesis using ex by simp
qed

fun notify_all ::
    "('s, 'a) generator \<Rightarrow> ('s, 'a) queued_prefetcher_scheme \<Rightarrow> 's packet list \<Rightarrow> ('s, 'a) queued_prefetcher_scheme res" where
  "notify_all gen pf [] = Inr pf"
| "notify_all gen pf (p # ps) =
     bindE (notify (\<lambda>_ _. False) (\<lambda>_ _. False) (\<lambda>_. 0) 0 1 gen pf p) (\<lambda>(t, pf). notify_all gen pf ps)"

lemma notify_all_reach: "pf_reach gens pf0 pf \<Longrightarrow> gen \<in> gens \<Longrightarrow> notify_all gen pf ps = Inr pf' \<Longrightarrow> pf_reach gens pf0 pf'"
proof (induction ps arbitrary: pf)
  case (Cons p ps)
  obtain t pf1 where "notify (\<lambda>_ _. False) (\<lambda>_ _. False) (\<lambda>_. 0) 0 1 gen pf p = Inr (t, pf1)" "notify_all gen pf1 ps = Inr pf'"
    using Cons.prems(3) unfolding notify_all.simps by (rule bindE_pairE)
  then show ?case using Cons.IH Cons.prems pf_notify by metis
qed simp

definition demo_stride :: "unit stride_prefetcher" where
  "demo_stride = \<lparr>pf_hasCache = True, pf_blkSize = 64, onMiss = False, onRead = True, onWrite = True, onData = True,
     onInst = False, pf_masterId = 1, pageBytes = 4096, pfIssued = 0, pfq = [], queueSize = 3, pf_latency = 1,
     queueSquash = True, queueFilter = True, cacheSnoop = False, tagPrefetch = True, pfIdentified = 0, pfBufferHit = 0,
     pfInCache = 0, pfRemovedFull = 0, pfSpanPage = 0, maxConf = 7, threshConf = 4, minConf = 0, startConf = 4,
     pcTableAssoc = 2, pcTableSets = 2, useMasterId = True, st_degree = 4, pcTable = Map.empty\<rparr>"

definition demo_access :: "addr \<Rightarrow> unit packet" where
  "demo_access a = new_Packet (new_Request_phys_pc a 4 0 1 0 0x400) ReadReq"

lemma demo_stride_geometry: "page_geometry demo_stride"
  unfolding page_geometry_def by (intro exI [of _ 6] exI [of _ 12]) (simp add: demo_stride_def)

lemma demo_run_val:
  "case notify_all (stride_calculatePrefetch 0) demo_stride (map demo_access [0x1d00, 0x1d40, 0x1d80]) of
     Inr pf \<Rightarrow> map (\<lambda>dp. pkt_addr (dp_pkt dp)) (pfq pf) = [0x1e00, 0x1e40, 0x1e80] \<and> pfRemovedFull pf = 1 | Inl _ \<Rightarrow> False"
  by code_simp

theorem prefetch_queue_invariant_witness:
  "\<exists>pf. notify_all (stride_calculatePrefetch 0) demo_stride (map demo_access [0x1d00, 0x1d40, 0x1d80]) = Inr pf \<and>
     length (pfq pf) = 3 \<and> pfq_ok pf"
proof -
  let ?r = "notify_all (stride_calculatePrefetch 0) demo_stride (map demo_access [0x1d00, 0x1d40, 0x1d80])"
  obtain pf where r: "?r = Inr pf" using demo_run_val by (cases ?r) simp_all
  have "map (\<lambda>dp. pkt_addr (dp_pkt dp)) (pfq pf) = [0x1e00, 0x1e40, 0x1e80]" using demo_run_val unfolding r by simp
  then have "length (map (\<lambda>dp. pkt_addr (dp_pkt dp)) (pfq pf)) = 3" by simp
  then have "length (pfq pf) = 3" by simp
  moreover have "pf_reach (range stride_calculatePrefetch) demo_stride pf"
    using notify_all_reach [OF pf_start _ r] by blast
  moreover have "pfq demo_stride = []" by (simp add: demo_stride_def)
  ultimately have "length (pfq pf) = 3 \<and> pfq_ok pf"
    using prefetch_queue_invariant [THEN conjunct1, of demo_stride pf] demo_stride_geometry by simp
  then show ?thesis using r by blast
qed

definition demo_tagged :: "unit tagged_prefetcher" where
  "demo_tagged = \<lparr>pf_hasCache = True, pf_blkSize = 64, onMiss = False, onRead = True, onWrite = True, onData = True,
     onInst = False, pf_masterId = 1, pageBytes = 4096, pfIssued = 0, pfq = [], queueSize = 3, pf_latency = 1,
     queueSquash = True, queueFilter = True, cacheSnoop = False, tagPrefetch = True, pfIdentified = 0, pfBufferHit = 0,
     pfInCache = 0, pfRemovedFull = 0, pfSpanPage = 0, tg_degree = 2\<rparr>"

lemma demo_tagged_val:
  "case notify (\<lambda>_ _. False) (\<lambda>_ _. False) (\<lambda>_. 0) 0 1 tagged_calculatePrefetch demo_tagged (demo_access 0x1f90) of
     Inr (t, pf) \<Rightarrow> map (\<lambda>dp. pkt_addr (dp_pkt dp)) (pfq pf) = [0x1fc0] | Inl _ \<Rightarrow> False"
  by code_simp

theorem prefetches_stay_in_page_witness:
  "\<exists>t pf dp. notify (\<lambda>_ _. False) (\<lambda>_ _. False) (\<lambda>_. 0) 0 1 tagged_calculatePrefetch demo_tagged (demo_access 0x1f90) = Inr (t, pf) \<and>
     pfq pf = [dp] \<and> samePage demo_tagged 0x1f90 (pkt_addr (dp_pkt dp))"
proof -
  let ?r = "notify (\<lambda>_ _. False) (\<lambda>_ _. False) (\<lambda>_. 0) 0 1 tagged_calculatePrefetch demo_tagged (demo_access 0x1f90)"
  obtain t pf where r: "?r = Inr (t, pf)" using demo_tagged_val by (cases ?r) auto
  have "map (\<lambda>dp. pkt_addr (dp_pkt dp)) (pfq pf) = [0x1fc0]" using demo_tagged_val unfolding r by simp
  then obtain dp where dp: "pfq pf = [dp]" by auto
  have "page_geometry demo_tagged"
    unfolding page_geometry_def by (intro exI [of _ 6] exI [of _ 12]) (simp add: demo_tagged_def)
  moreover have "pfq demo_tagged = []" by (simp add: demo_tagged_def)
  moreover from this have "pfq_ok demo_tagged" by (rule pfq_ok_empty)
  moreover have "getAddr (demo_access 0x1f90) = Inr 0x1f90" by code_simp
  ultimately have "samePage demo_tagged 0x1f90 (pkt_addr (dp_pkt dp))"
    using prefetches_stay_in_page [THEN conjunct2, of demo_tagged "demo_access 0x1f90" "0x1f90" "\<lambda>_ _. False" "\<lambda>_ _. False"
        "\<lambda>_. 0" 0 1 t pf dp] r dp by simp
  then show ?thesis using r dp by blast
qed

theorem stride_table_safe_witness:
  "\<exists>as pf'. stride_calculatePrefetch 1 demo_stride (demo_access 0x1d00) = Inr (as, pf') \<and> stride_inv pf'"
proof -
  have "getAddr (demo_access 0x1d00) = Inr 0x1d00" "isSecure (demo_access 0x1d00) = Inr False" by code_simp+
  moreover have "isPowerOf2 (2 :: 32 word)" by code_simp
  then have "stride_inv demo_stride" by (simp add: stride_inv_def stride_config_def demo_stride_def)
  moreover have "1 < nat (pcTableAssoc demo_stride)" by (simp add: demo_stride_def)
  ultimately show ?thesis using stride_table_safe by blast
qed

lemma demo_trained_val:
  "case notify_all (stride_calculatePrefetch 0) demo_stride (map demo_access [0x1d00, 0x1d40]) of
     Inr pf \<Rightarrow> (case pcTableHit pf 0x400 False 1 of
       Inr (Some at, pf1) \<Rightarrow> lastAddr (get_entry pf1 1 at) = 0x1d40 \<and> se_stride (get_entry pf1 1 at) = 64 \<and>
         confidence (get_entry pf1 1 at) = 3 \<and> useMasterId pf \<and> pf_blkSize pf = 64 \<and> st_degree pf = 4 \<and>
         threshConf pf = 4 \<and> maxConf pf = 7
     | _ \<Rightarrow> False) | Inl _ \<Rightarrow> False"
  by code_simp

theorem stride_prefetches_ahead_witness:
  "\<exists>pf pf'. notify_all (stride_calculatePrefetch 0) demo_stride (map demo_access [0x1d00, 0x1d40]) = Inr pf \<and>
     stride_calculatePrefetch 0 pf (demo_access 0x1d80) =
       Inr (takeWhile (samePage pf 0x1d80) (map (\<lambda>d. 0x1d80 + of_int (d * 64)) [1..4]), pf')"
proof -
  let ?r = "notify_all (stride_calculatePrefetch 0) demo_stride (map demo_access [0x1d00, 0x1d40])"
  obtain pf where r: "?r = Inr pf" using demo_trained_val by (cases ?r) simp_all
  obtain at pf1 where h: "pcTableHit pf 0x400 False 1 = Inr (Some at, pf1)"
    and e: "lastAddr (get_entry pf1 1 at) = 0x1d40 \<and> se_stride (get_entry pf1 1 at) = 64 \<and>
         confidence (get_entry pf1 1 at) = 3 \<and> useMasterId pf \<and> pf_blkSize pf = 64 \<and> st_degree pf = 4 \<and>
         threshConf pf = 4 \<and> maxConf pf = 7"
    using demo_trained_val unfolding r by (auto split: sum.splits option.splits)
  have "getAddr (demo_access 0x1d80) = Inr 0x1d80" "isSecure (demo_access 0x1d80) = Inr False"
    "hasPC (pkt_req (demo_access 0x1d80))" "getPC (pkt_req (demo_access 0x1d80)) = Inr 0x400"
    "req_masterId (pkt_req (demo_access 0x1d80)) = 1" by code_simp+
  then have "\<exists>pf'. stride_calculatePrefetch 0 pf (demo_access 0x1d80) =
       Inr (takeWhile (samePage pf 0x1d80) (map (\<lambda>d. 0x1d80 + of_int (d * 64)) [1..4]), pf')"
    using stride_prefetches_ahead [where pkt = "demo_access 0x1d80" and pc = "0x400" and a = "0x1d80" and s = False and pf = pf
        and at = at and ?pf1.0 = pf1 and st = 64 and way = 0] h e by simp
  then show ?thesis using r by blast
qed

end
