(* ===== verification/Memory_Spec.thy ===== *)
theory Memory_Spec
  imports Packet
begin

text \<open>
  The interface of a memory as the cache in front of it uses it, one call at a time (\<open>sendAtomic\<close>): a byte for every
  address it covers, read, acknowledged or written by packets. The laws say what a packet that no cache has claimed
  does: a read returns the bytes at its addresses, an invalidation without data changes nothing, a plain write replaces
  exactly the bytes it carries, and each turns into its response if it needs one.
\<close>

section \<open>Byte-addressed contents\<close>

definition mem_write :: "(addr \<Rightarrow> 8 word) \<Rightarrow> addr \<Rightarrow> 8 word list \<Rightarrow> addr \<Rightarrow> 8 word" where
  "mem_write f a d x = (let i = unat (x - a) in if i < length d then d ! i else f x)"

definition mem_bytes :: "(addr \<Rightarrow> 8 word) \<Rightarrow> addr \<Rightarrow> nat \<Rightarrow> 8 word list" where
  "mem_bytes f a n = map (\<lambda>i. f (a + of_nat i)) [0..<n]"

lemma length_mem_bytes [simp]: "length (mem_bytes f a n) = n"
  by (simp add: mem_bytes_def)

lemma nth_mem_bytes [simp]: "i < n \<Longrightarrow> mem_bytes f a n ! i = f (a + of_nat i)"
  by (simp add: mem_bytes_def)

lemma unat_of_nat_addr: "i < 2 ^ 64 \<Longrightarrow> unat (of_nat i :: addr) = i"
  by (simp add: unat_of_nat)

lemma mem_write_hit: "i < length d \<Longrightarrow> length d \<le> 2 ^ 64 \<Longrightarrow> mem_write f a d (a + of_nat i) = d ! i"
  by (simp add: mem_write_def Let_def unat_of_nat_addr)

lemma mem_write_miss: "length d \<le> unat (x - a) \<Longrightarrow> mem_write f a d x = f x"
  by (simp add: mem_write_def Let_def)

text \<open>What was written is read back.\<close>

lemma mem_bytes_write: "length d \<le> 2 ^ 64 \<Longrightarrow> mem_bytes (mem_write f a d) a (length d) = d"
  by (rule nth_equalityI) (simp_all add: mem_write_hit)

lemma mem_write_bytes: "mem_write f a (mem_bytes f a n) = f"
proof
  fix x
  have "a + of_nat (unat (x - a)) = x" by simp
  then show "mem_write f a (mem_bytes f a n) x = f x" by (simp add: mem_write_def Let_def)
qed

section \<open>Responses\<close>

definition response_of :: "'s packet \<Rightarrow> 's packet" where
  "response_of p = p\<lparr>pkt_origCmd := pkt_cmd p, pkt_cmd := responseCommand (pkt_cmd p),
     pkt_flags := clearFlag (pkt_flags p) EXPRESS_SNOOP\<rparr>"

lemma makeResponse_eq: "needsResponse (pkt_cmd p) \<Longrightarrow> makeResponse p = Inr (response_of p)"
  using needsResponse_isRequest [of "pkt_cmd p"] by (simp add: makeResponse_def response_of_def)

lemma response_of_simps [simp]:
  "pkt_cmd (response_of p) = responseCommand (pkt_cmd p)" "pkt_data (response_of p) = pkt_data p"
  "pkt_addr (response_of p) = pkt_addr p" "pkt_size (response_of p) = pkt_size p"
  "pkt_req (response_of p) = pkt_req p" "pkt_isSecure (response_of p) = pkt_isSecure p"
  "payloadDelay (response_of p) = payloadDelay p" "headerDelay (response_of p) = headerDelay p"
  "senderState (response_of p) = senderState p"
  by (simp_all add: response_of_def)

lemma response_of_flags [simp]:
  "isSet (pkt_flags (response_of p)) m = isSet (pkt_flags p) (m AND NOT EXPRESS_SNOOP)"
  by (simp add: response_of_def)

section \<open>The interface\<close>

text \<open>A packet the memory is asked to serve: it has a payload, its bytes are covered, and no cache answers it.\<close>

definition plain_request :: "(addr \<Rightarrow> bool) \<Rightarrow> nat \<Rightarrow> 's packet \<Rightarrow> 8 word list \<Rightarrow> bool" where
  "plain_request covers masters p d \<longleftrightarrow> carries p d \<and> \<not> memInhibitAsserted p \<and>
     unat (req_masterId (pkt_req p)) < masters \<and> hasPaddr (pkt_req p) \<and>
     (\<forall>i < length d. covers (pkt_addr p + of_nat i))"

locale atomic_memory =
  fixes mwf :: "'m \<Rightarrow> bool"
    and covers :: "'m \<Rightarrow> addr \<Rightarrow> bool"
    and masters :: "'m \<Rightarrow> nat"
    and mem_at :: "'m \<Rightarrow> addr \<Rightarrow> 8 word"
    and send :: "'m \<Rightarrow> 's packet \<Rightarrow> (tick \<times> 'm \<times> 's packet) res"
  assumes read_law: "mwf m \<Longrightarrow> plain_request (covers m) (masters m) p d \<Longrightarrow> isRead (pkt_cmd p) \<Longrightarrow>
      \<not> isWrite (pkt_cmd p) \<Longrightarrow> \<not> isLLSC (pkt_cmd p) \<Longrightarrow> needsResponse (pkt_cmd p) \<Longrightarrow>
      \<exists>lat m'. send m p = Inr (lat, m', response_of (p\<lparr>pkt_data := Some (mem_bytes (mem_at m) (pkt_addr p) (length d))\<rparr>)) \<and>
        mwf m' \<and> covers m' = covers m \<and> masters m' = masters m \<and> mem_at m' = mem_at m"
    and ack_law: "mwf m \<Longrightarrow> plain_request (covers m) (masters m) p d \<Longrightarrow>
      isInvalidate (pkt_cmd p) \<Longrightarrow> \<not> isRead (pkt_cmd p) \<Longrightarrow> needsResponse (pkt_cmd p) \<Longrightarrow>
      \<exists>lat m'. send m p = Inr (lat, m', response_of p) \<and>
        mwf m' \<and> covers m' = covers m \<and> masters m' = masters m \<and> mem_at m' = mem_at m"
    and write_law: "mwf m \<Longrightarrow> plain_request (covers m) (masters m) p d \<Longrightarrow> isWrite (pkt_cmd p) \<Longrightarrow>
      \<not> isRead (pkt_cmd p) \<Longrightarrow> \<not> isInvalidate (pkt_cmd p) \<Longrightarrow> \<not> isLLSC (pkt_cmd p) \<Longrightarrow> \<not> req_isInstFetch (pkt_req p) \<Longrightarrow>
      \<exists>lat m'. send m p = Inr (lat, m', if needsResponse (pkt_cmd p) then response_of p else p) \<and>
        mwf m' \<and> covers m' = covers m \<and> masters m' = masters m \<and> mem_at m' = mem_write (mem_at m) (pkt_addr p) d"


text \<open>The interface of a memory that is written outside of simulated time (\<open>sendFunctional\<close>).\<close>

locale functional_memory =
  fixes fwf :: "'m \<Rightarrow> bool"
    and fcovers :: "'m \<Rightarrow> addr \<Rightarrow> bool"
    and fmem_at :: "'m \<Rightarrow> addr \<Rightarrow> 8 word"
    and sendFunctional :: "'m \<Rightarrow> 's packet \<Rightarrow> ('m \<times> 's packet) res"
  assumes functional_write_law: "fwf m \<Longrightarrow> plain_request (fcovers m) n p d \<Longrightarrow> pkt_cmd p = WriteReq \<Longrightarrow>
      \<exists>m' p'. sendFunctional m p = Inr (m', p') \<and> fwf m' \<and> fcovers m' = fcovers m \<and>
        fmem_at m' = mem_write (fmem_at m) (pkt_addr p) d"

end
