(* ===== verification/Bitfield.thy ===== *)
theory Bitfield
  imports Int_Math
begin

text \<open>
  The bit-field helpers of \<open>src/gem5_src/base/bitfield.hh\<close> on 64-bit values. A shift by a negative distance or by 64
  and more has no meaning in the language: it is the error \<open>Bad_Shift\<close>.
\<close>

section \<open>Operations\<close>

definition shl64 :: "64 word \<Rightarrow> int \<Rightarrow> (64 word) res" where
  "shl64 v n = (if 0 \<le> n \<and> n < 64 then Inr (push_bit (nat n) v) else Inl Bad_Shift)"

definition shr64 :: "64 word \<Rightarrow> int \<Rightarrow> (64 word) res" where
  "shr64 v n = (if 0 \<le> n \<and> n < 64 then Inr (drop_bit (nat n) v) else Inl Bad_Shift)"

definition mask1 :: "int \<Rightarrow> (64 word) res" where
  "mask1 nbits = (if nbits = 64 then Inr (- 1) else bindE (shl64 1 nbits) (\<lambda>m. Inr (m - 1)))"

definition bits :: "64 word \<Rightarrow> int \<Rightarrow> int \<Rightarrow> (64 word) res" where
  "bits val first lst =
     (let nbits = first - lst + 1 in
      bindE (shr64 val lst) (\<lambda>v. bindE (mask1 nbits) (\<lambda>m. Inr (v AND m))))"

definition mbits :: "64 word \<Rightarrow> int \<Rightarrow> int \<Rightarrow> (64 word) res" where
  "mbits val first lst =
     bindE (mask1 (first + 1)) (\<lambda>m. bindE (mask1 lst) (\<lambda>l. Inr (val AND (m AND NOT l))))"

definition sext :: "int \<Rightarrow> 64 word \<Rightarrow> (64 word) res" where
  "sext n val =
     bindE (bits val (n - 1) (n - 1)) (\<lambda>sign_bit. bindE (mask1 n) (\<lambda>m.
     Inr (if sign_bit \<noteq> 0 then val OR NOT m else val)))"

definition insertBits :: "64 word \<Rightarrow> int \<Rightarrow> int \<Rightarrow> 64 word \<Rightarrow> (64 word) res" where
  "insertBits val first lst bit_val =
     bindE (mask1 (first - lst + 1)) (\<lambda>m. bindE (shl64 m lst) (\<lambda>bmask. bindE (shl64 bit_val lst) (\<lambda>t.
     Inr ((t AND bmask) OR (val AND NOT bmask)))))"

text \<open>The overloads for one bit and for a mask between two bits, and the in-place insertion.\<close>

definition bits1 :: "64 word \<Rightarrow> int \<Rightarrow> (64 word) res" where
  "bits1 val b = bits val b b"

definition mask2 :: "int \<Rightarrow> int \<Rightarrow> (64 word) res" where
  "mask2 first lst = mbits (- 1) first lst"

definition insertBits1 :: "64 word \<Rightarrow> int \<Rightarrow> 64 word \<Rightarrow> (64 word) res" where
  "insertBits1 val b bit_val = insertBits val b b bit_val"

definition replaceBits :: "64 word \<Rightarrow> int \<Rightarrow> int \<Rightarrow> 64 word \<Rightarrow> (64 word) res" where
  "replaceBits val first lst bit_val = insertBits val first lst bit_val"

definition replaceBits1 :: "64 word \<Rightarrow> int \<Rightarrow> 64 word \<Rightarrow> (64 word) res" where
  "replaceBits1 val b bit_val = insertBits val b b bit_val"

definition msb_step :: "int \<Rightarrow> int \<Rightarrow> nat \<Rightarrow> nat \<times> 64 word \<Rightarrow> (nat \<times> 64 word) res" where
  "msb_step hi lo s st =
     (case st of (msb, val) \<Rightarrow>
        bindE (bits val hi lo) (\<lambda>b. Inr (if b \<noteq> 0 then (msb + s, drop_bit s val) else (msb, val))))"

definition findMsbSet :: "64 word \<Rightarrow> nat res" where
  "findMsbSet val =
     (if val = 0 then Inr 0
      else bindE (msb_step 63 32 32 (0, val)) (\<lambda>st. bindE (msb_step 31 16 16 st) (\<lambda>st.
           bindE (msb_step 15 8 8 st) (\<lambda>st. bindE (msb_step 7 4 4 st) (\<lambda>st.
           bindE (msb_step 3 2 2 st) (\<lambda>(msb, val).
           bindE (bits val 1 1) (\<lambda>b. Inr (if b \<noteq> 0 then msb + 1 else msb))))))))"

definition lsb_step :: "int \<Rightarrow> nat \<Rightarrow> nat \<times> 64 word \<Rightarrow> (nat \<times> 64 word) res" where
  "lsb_step hi s st =
     (case st of (lsb, val) \<Rightarrow>
        bindE (bits val hi 0) (\<lambda>b. Inr (if b = 0 then (lsb + s, drop_bit s val) else (lsb, val))))"

definition findLsbSet :: "64 word \<Rightarrow> nat res" where
  "findLsbSet val =
     (if val = 0 then Inr 64
      else bindE (lsb_step 31 32 (0, val)) (\<lambda>st. bindE (lsb_step 15 16 st) (\<lambda>st.
           bindE (lsb_step 7 8 st) (\<lambda>st. bindE (lsb_step 3 4 st) (\<lambda>st.
           bindE (lsb_step 1 2 st) (\<lambda>(lsb, val).
           bindE (bits val 0 0) (\<lambda>b. Inr (if b = 0 then lsb + 1 else lsb))))))))"

definition isPow2 :: "64 word \<Rightarrow> bool" where
  "isPow2 v \<longleftrightarrow> v AND (v - 1) = 0"

section \<open>Fields\<close>

lemma mask1_eq: "0 \<le> n \<Longrightarrow> n \<le> 64 \<Longrightarrow> mask1 n = Inr (mask (nat n))"
proof (cases "n = 64")
  case True
  have "(- 1 :: 64 word) = mask 64" by (simp add: mask_eq_exp_minus_1)
  then show ?thesis using True by (simp add: mask1_def)
qed (simp add: mask1_def shl64_def mask_eq_exp_minus_1 push_bit_eq_mult)

text \<open>A field whose bounds are in order is what the definition of a bit field says.\<close>

lemma bits_eq:
  assumes "0 \<le> lst" "lst \<le> first" "first < 64"
  shows "bits v first lst = Inr (take_bit (nat (first - lst + 1)) (drop_bit (nat lst) v))"
  using assms by (simp add: bits_def Let_def shr64_def mask1_eq take_bit_eq_mask)

lemma bits_width:
  assumes "0 \<le> lst" "lst \<le> first" "first < 64" "bits v first lst = Inr f"
  shows "unat f < 2 ^ nat (first - lst + 1)"
  using assms by (auto simp: bits_eq unat_take)

lemma insertBits_eq:
  assumes "0 \<le> lst" "lst \<le> first" "first < 64" "insertBits v first lst x = Inr r"
  shows "bit r n \<longleftrightarrow> (if nat lst \<le> n \<and> n \<le> nat first then bit x (n - nat lst) else bit v n)"
proof (cases "n < 64")
  case True
  have k: "nat (first - lst + 1) = nat first + 1 - nat lst" using assms by simp
  have "r = (push_bit (nat lst) x AND push_bit (nat lst) (mask (nat first + 1 - nat lst))) OR
      (v AND NOT (push_bit (nat lst) (mask (nat first + 1 - nat lst))))"
    using assms by (simp add: insertBits_def mask1_eq shl64_def k)
  then show ?thesis using True assms(1-3) by (auto simp: bit_simps)
next
  case False
  then show ?thesis using assms(3) bit_imp_le_length [of r n] bit_imp_le_length [of v n] by auto
qed

section \<open>Searching for a bit\<close>

lemma msb_step_eq:
  assumes "0 < s" "s \<le> 32"
  shows "msb_step (2 * int s - 1) (int s) s st = Inr (log2_step (push_bit s (mask s)) s st)"
proof -
  obtain y x where st: "st = (y, x)" by (cases st)
  have "bits x (2 * int s - 1) (int s) = Inr (take_bit s (drop_bit s x))"
    using assms by (subst bits_eq) (auto simp: nat_diff_distrib)
  then show ?thesis by (simp add: st msb_step_def log2_step_def and_field_eq_0_iff)
qed

definition lsb_inv :: "64 word \<Rightarrow> nat \<Rightarrow> nat \<times> 64 word \<Rightarrow> bool" where
  "lsb_inv x0 b st \<longleftrightarrow> snd st = drop_bit (fst st) x0 \<and> (\<forall>j < fst st. \<not> bit x0 j) \<and> (\<exists>j < b. bit (snd st) j)"

lemma lsb_step_inv:
  assumes inv: "lsb_inv x0 (2 * s) st" and s: "0 < s" "s \<le> 32" and hi: "hi = int s - 1"
  shows "\<exists>st'. lsb_step hi s st = Inr st' \<and> lsb_inv x0 s st'"
proof -
  obtain l x where st: "st = (l, x)" by (cases st)
  have x: "x = drop_bit l x0" "\<forall>j < l. \<not> bit x0 j" "\<exists>j < 2 * s. bit x j"
    using inv by (auto simp: lsb_inv_def st)
  have b: "bits x hi 0 = Inr (take_bit s x)" using s by (subst bits_eq) (auto simp: hi)
  have z: "take_bit s x = 0 \<longleftrightarrow> (\<forall>j < s. \<not> bit x j)"
    using s(2) by (auto simp: bit_eq_iff bit_simps)
  show ?thesis
  proof (cases "take_bit s x = 0")
    case True
    obtain j where j: "j < 2 * s" "bit x j" using x(3) by blast
    then have "s \<le> j" using True z by (metis not_le)
    then have "\<exists>i < s. bit (drop_bit s x) i" using j by (intro exI [of _ "j - s"]) (auto simp: bit_simps)
    moreover have "\<not> bit x0 i" if "i < l + s" for i
    proof (cases "i < l")
      case False
      then have "\<not> bit x (i - l)" using True z that by auto
      then show ?thesis using False x(1) by (simp add: bit_simps)
    qed (use x(2) in simp)
    ultimately show ?thesis using b True x(1) by (simp add: lsb_step_def st lsb_inv_def add.commute)
  next
    case False
    then show ?thesis using b x z by (auto simp: lsb_step_def st lsb_inv_def)
  qed
qed

lemma lsb_last_step:
  "bindE (bits val 0 0) (\<lambda>b. Inr (if b = 0 then lsb + 1 else lsb)) = bindE (lsb_step 0 1 (lsb, val)) (\<lambda>st. Inr (fst st))"
  by (subst (1) bits_eq; simp add: lsb_step_def bits_eq)

lemma findLsbSet_least:
  assumes "v \<noteq> 0"
  shows "\<exists>k. findLsbSet v = Inr k \<and> bit v k \<and> (\<forall>j < k. \<not> bit v j)"
proof -
  have "\<exists>j. bit v j" using assms by (auto simp: bit_eq_iff)
  then have "\<exists>j < 64. bit v j" using bit_imp_le_length [of v] by auto
  then have "lsb_inv v (2 * 32) (0, v)" by (simp add: lsb_inv_def)
  from lsb_step_inv [OF this, of 31] obtain s1 where s1: "lsb_step 31 32 (0, v) = Inr s1" "lsb_inv v (2 * 16) s1" by auto
  from lsb_step_inv [OF s1(2), of 15] obtain s2 where s2: "lsb_step 15 16 s1 = Inr s2" "lsb_inv v (2 * 8) s2" by auto
  from lsb_step_inv [OF s2(2), of 7] obtain s3 where s3: "lsb_step 7 8 s2 = Inr s3" "lsb_inv v (2 * 4) s3" by auto
  from lsb_step_inv [OF s3(2), of 3] obtain s4 where s4: "lsb_step 3 4 s3 = Inr s4" "lsb_inv v (2 * 2) s4" by auto
  from lsb_step_inv [OF s4(2), of 1] obtain s5 where s5: "lsb_step 1 2 s4 = Inr s5" "lsb_inv v (2 * 1) s5" by auto
  from lsb_step_inv [OF s5(2), of 0] obtain s6 where s6: "lsb_step 0 1 s5 = Inr s6" "lsb_inv v 1 s6" by auto
  have "findLsbSet v = Inr (fst s6)"
    unfolding findLsbSet_def lsb_last_step using assms s1(1) s2(1) s3(1) s4(1) s5(1) s6(1) by (cases s5) simp
  moreover have "bit v (fst s6)" "\<forall>j < fst s6. \<not> bit v j" using s6(2) by (auto simp: lsb_inv_def bit_simps)
  ultimately show ?thesis by blast
qed

lemma findMsbSet_eq:
  assumes "v \<noteq> 0"
  shows "findMsbSet v = floorLog2_ull v"
proof -
  have v: "0 < v" using assms by (simp add: word_neq_0_conv)
  have st: "msb_step 63 32 32 st = Inr (log2_step (push_bit 32 (mask 32)) 32 st)"
    "msb_step 31 16 16 st = Inr (log2_step (push_bit 16 (mask 16)) 16 st)"
    "msb_step 15 8 8 st = Inr (log2_step (push_bit 8 (mask 8)) 8 st)"
    "msb_step 7 4 4 st = Inr (log2_step (push_bit 4 (mask 4)) 4 st)"
    "msb_step 3 2 2 st = Inr (log2_step (push_bit 2 (mask 2)) 2 st)" for st
    using msb_step_eq [of 32 st] msb_step_eq [of 16 st] msb_step_eq [of 8 st] msb_step_eq [of 4 st]
      msb_step_eq [of 2 st] by simp_all
  have last: "bindE (bits x 1 1) (\<lambda>b. Inr (if b \<noteq> 0 then y + 1 else y)) =
      Inr (if x AND push_bit 1 (mask 1) \<noteq> 0 then y + 1 else y)" for x and y :: nat
    by (subst bits_eq) (simp_all only: and_field_eq_0_iff, simp_all)
  show ?thesis
    using assms v unfolding findMsbSet_def floorLog2_ull_def st last log2_fields
    by (simp add: Let_def split: prod.splits)
qed

section \<open>Properties\<close>

text \<open>
  C36: the two searches of a non-zero word. \<open>findMsbSet\<close>, written with bit fields, agrees with \<open>floorLog2\<close>, written
  with masks: both return the position of the highest set bit. \<open>findLsbSet\<close> returns the position of the lowest.
\<close>

theorem bit_search_agrees:
  assumes "v \<noteq> 0"
  shows "findMsbSet v = floorLog2_ull v \<and>
     (\<exists>k l. findMsbSet v = Inr k \<and> 2 ^ k \<le> unat v \<and> unat v < 2 ^ Suc k \<and>
        findLsbSet v = Inr l \<and> bit v l \<and> (\<forall>j < l. \<not> bit v j))"
proof -
  obtain k where k: "floorLog2_ull v = Inr k"
    using floorLog2_ull_total [of v] assms by (auto simp: word_neq_0_conv)
  then show ?thesis
    using findMsbSet_eq [OF assms] floorLog2_ull_bounds [OF k] findLsbSet_least [OF assms] by auto
qed

theorem bit_search_agrees_witness:
  "findMsbSet 0x28 = Inr 5 \<and> findMsbSet 0x28 = floorLog2_ull 0x28 \<and> (\<exists>l. findLsbSet 0x28 = Inr l \<and> bit (0x28 :: 64 word) l)"
proof -
  have "findMsbSet 0x28 = Inr 5" by code_simp
  then show ?thesis using bit_search_agrees [of "0x28"] by auto
qed

end
