(* ===== verification/Addr_Range.thy ===== *)
theory Addr_Range
  imports Bitfield
begin

text \<open>
  Address ranges of \<open>src/gem5_src/base/addr_range.hh\<close>: plain ranges, ranges interleaved over a bit field of the address
  with an optional second field that is exclusive-ored in, and the merging of a complete family of interleaved ranges
  into the plain range they stripe.
\<close>

section \<open>Operations\<close>

record addr_range =
  ar_start :: addr
  ar_end :: addr
  intlvHighBit :: "8 word"
  xorHighBit :: "8 word"
  intlvBits :: "8 word"
  intlvMatch :: "8 word"

definition empty_AddrRange :: addr_range where
  "empty_AddrRange = \<lparr>ar_start = 1, ar_end = 0, intlvHighBit = 0, xorHighBit = 0, intlvBits = 0, intlvMatch = 0\<rparr>"

definition plain_AddrRange :: "addr \<Rightarrow> addr \<Rightarrow> addr_range" where
  "plain_AddrRange s e = \<lparr>ar_start = s, ar_end = e, intlvHighBit = 0, xorHighBit = 0, intlvBits = 0, intlvMatch = 0\<rparr>"

definition new_AddrRange ::
    "addr \<Rightarrow> addr \<Rightarrow> 8 word \<Rightarrow> 8 word \<Rightarrow> 8 word \<Rightarrow> 8 word \<Rightarrow> addr_range res" where
  "new_AddrRange s e high xhigh nbits m =
     (let r = \<lparr>ar_start = s, ar_end = e, intlvHighBit = high, xorHighBit = xhigh, intlvBits = nbits, intlvMatch = m\<rparr> in
      bindE (if nbits \<noteq> 0 then bindE (shl64 1 (uint nbits)) (\<lambda>n. Inr (ucast m \<ge> n)) else Inr False) (\<lambda>bad.
      if bad then Inl Fatal_Error
      else if nbits \<noteq> 0 \<and> xhigh \<noteq> 0 then
        if xhigh = high then Inl Fatal_Error
        else if xhigh > high then (if uint xhigh - uint high < uint nbits then Inl Fatal_Error else Inr r)
        else (if uint high - uint xhigh < uint nbits then Inl Fatal_Error else Inr r)
      else Inr r))"

definition interleaved :: "addr_range \<Rightarrow> bool" where
  "interleaved r \<longleftrightarrow> intlvBits r \<noteq> 0"

definition hashed :: "addr_range \<Rightarrow> bool" where
  "hashed r \<longleftrightarrow> interleaved r \<and> xorHighBit r \<noteq> 0"

definition granularity :: "addr_range \<Rightarrow> (64 word) res" where
  "granularity r = shl64 1 (uint (intlvHighBit r) - uint (intlvBits r) + 1)"

definition stripes :: "addr_range \<Rightarrow> (32 word) res" where
  "stripes r = bindE (shl64 1 (uint (intlvBits r))) (\<lambda>n. Inr (ucast n))"

definition ar_size :: "addr_range \<Rightarrow> addr res" where
  "ar_size r = shr64 (ar_end r - ar_start r + 1) (uint (intlvBits r))"

definition ar_valid :: "addr_range \<Rightarrow> bool" where
  "ar_valid r \<longleftrightarrow> ar_start r \<le> ar_end r"

definition mergesWith :: "addr_range \<Rightarrow> addr_range \<Rightarrow> bool" where
  "mergesWith this r \<longleftrightarrow> ar_start r = ar_start this \<and> ar_end r = ar_end this \<and>
     intlvHighBit r = intlvHighBit this \<and> xorHighBit r = xorHighBit this \<and> intlvBits r = intlvBits this"

definition intlv_field :: "addr_range \<Rightarrow> 8 word \<Rightarrow> addr \<Rightarrow> (64 word) res" where
  "intlv_field r high a = bits a (uint high) (uint high - uint (intlvBits r) + 1)"

definition contains :: "addr_range \<Rightarrow> addr \<Rightarrow> bool res" where
  "contains r a =
     (let in_range = a \<ge> ar_start r \<and> a \<le> ar_end r in
      if \<not> interleaved r then Inr in_range
      else if in_range then
        if \<not> hashed r then
          bindE (intlv_field r (intlvHighBit r) a) (\<lambda>f. Inr (f = ucast (intlvMatch r)))
        else
          bindE (intlv_field r (intlvHighBit r) a) (\<lambda>f. bindE (intlv_field r (xorHighBit r) a) (\<lambda>g.
          Inr (f XOR g = ucast (intlvMatch r))))
      else Inr False)"

definition intersects :: "addr_range \<Rightarrow> addr_range \<Rightarrow> bool res" where
  "intersects this r =
     (if ar_start this > ar_end r \<or> ar_end this < ar_start r then Inr False
      else if \<not> interleaved this \<and> \<not> interleaved r then Inr True
      else bindE (ar_size r) (\<lambda>n.
        if n = 1 then contains this (ar_start r)
        else if mergesWith this r then Inr (intlvMatch this = intlvMatch r)
        else Inl Panic_Error))"

definition isSubset :: "addr_range \<Rightarrow> addr_range \<Rightarrow> bool res" where
  "isSubset this r =
     (if interleaved this then Inl Panic_Error
      else Inr (ar_start this \<ge> ar_start r \<and> ar_end this \<le> ar_end r))"

definition ar_less :: "addr_range \<Rightarrow> addr_range \<Rightarrow> bool" where
  "ar_less this r \<longleftrightarrow>
     (if ar_start this \<noteq> ar_start r then ar_start this < ar_start r else intlvMatch this < intlvMatch r)"

definition ar_eq :: "addr_range \<Rightarrow> addr_range \<Rightarrow> bool" where
  "ar_eq this r \<longleftrightarrow> ar_start this = ar_start r \<and> ar_end this = ar_end r \<and> intlvBits this = intlvBits r \<and>
     (intlvBits this \<noteq> 0 \<longrightarrow> intlvHighBit this = intlvHighBit r \<and> intlvMatch this = intlvMatch r)"

text \<open>The loop of the merging constructor: the ranges come in the order of their match values.\<close>

fun check_family :: "addr_range \<Rightarrow> 8 word \<Rightarrow> addr_range list \<Rightarrow> unit res" where
  "check_family this m [] = Inr ()"
| "check_family this m (r # rs) =
     (if \<not> mergesWith this r then Inl Fatal_Error
      else if intlvMatch r \<noteq> m then Inl Fatal_Error
      else check_family this (m + 1) rs)"

definition merge_AddrRange :: "addr_range list \<Rightarrow> addr_range res" where
  "merge_AddrRange rs =
     (case rs of
        [] \<Rightarrow> Inr empty_AddrRange
      | r0 # _ \<Rightarrow>
          (let this = r0\<lparr>intlvMatch := 0\<rparr> in
           bindE (shl64 1 (uint (intlvBits this))) (\<lambda>n.
           if length rs \<noteq> unat n then Inl Fatal_Error
           else bindE (check_family this 0 rs) (\<lambda>_.
             Inr (this\<lparr>intlvHighBit := 0, xorHighBit := 0, intlvBits := 0\<rparr>)))))"

definition RangeEx :: "addr \<Rightarrow> addr \<Rightarrow> addr_range" where
  "RangeEx s e = plain_AddrRange s (e - 1)"

definition RangeIn :: "addr \<Rightarrow> addr \<Rightarrow> addr_range" where
  "RangeIn s e = plain_AddrRange s e"

definition RangeSize :: "addr \<Rightarrow> addr \<Rightarrow> addr_range" where
  "RangeSize s n = plain_AddrRange s (s + n - 1)"

section \<open>Interleaving\<close>

text \<open>The fields of an interleaved range lie inside the address, and its match value has as many bits as they.\<close>

definition intlv_ok :: "addr_range \<Rightarrow> bool" where
  "intlv_ok r \<longleftrightarrow> 0 < uint (intlvBits r) \<and> uint (intlvBits r) \<le> 8 \<and>
     uint (intlvBits r) \<le> uint (intlvHighBit r) + 1 \<and> uint (intlvHighBit r) < 64 \<and>
     (xorHighBit r \<noteq> 0 \<longrightarrow> uint (intlvBits r) \<le> uint (xorHighBit r) + 1 \<and> uint (xorHighBit r) < 64)"

text \<open>The stripe an address belongs to.\<close>

definition stripe_of :: "addr_range \<Rightarrow> addr \<Rightarrow> 64 word" where
  "stripe_of r a =
     (let k = unat (intlvBits r); f = (\<lambda>h. take_bit k (drop_bit (unat h + 1 - k) a))
      in if xorHighBit r = 0 then f (intlvHighBit r) else f (intlvHighBit r) XOR f (xorHighBit r))"

lemma intlv_field_eq:
  assumes "0 < uint (intlvBits r)" "uint (intlvBits r) \<le> uint h + 1" "uint h < 64"
  shows "intlv_field r h a = Inr (take_bit (unat (intlvBits r)) (drop_bit (unat h + 1 - unat (intlvBits r)) a))"
proof -
  have n: "nat (uint h - (uint h - uint (intlvBits r) + 1) + 1) = unat (intlvBits r)" by simp
  have l: "nat (uint h - uint (intlvBits r) + 1) = unat h + 1 - unat (intlvBits r)"
    using assms(2) unsigned_greater_eq [of h, where ?'a = int] unsigned_greater_eq [of "intlvBits r", where ?'a = int]
    unfolding nat_uint_eq [symmetric] by arith
  have b: "0 \<le> uint h - uint (intlvBits r) + 1" "uint h - uint (intlvBits r) + 1 \<le> uint h" using assms by linarith+
  show ?thesis unfolding intlv_field_def bits_eq [OF b assms(3)] n l ..
qed

lemma contains_stripe:
  assumes "intlv_ok r"
  shows "contains r a = Inr (ar_start r \<le> a \<and> a \<le> ar_end r \<and> stripe_of r a = ucast (intlvMatch r))"
proof -
  have b: "intlvBits r \<noteq> 0" using assms by (auto simp: intlv_ok_def)
  have f: "intlv_field r (intlvHighBit r) a =
      Inr (take_bit (unat (intlvBits r)) (drop_bit (unat (intlvHighBit r) + 1 - unat (intlvBits r)) a))"
    by (rule intlv_field_eq) (use assms in \<open>simp_all add: intlv_ok_def\<close>)
  show ?thesis
  proof (cases "xorHighBit r = 0")
    case True
    then show ?thesis using b f by (auto simp: contains_def Let_def interleaved_def hashed_def stripe_of_def)
  next
    case False
    have g: "intlv_field r (xorHighBit r) a =
        Inr (take_bit (unat (intlvBits r)) (drop_bit (unat (xorHighBit r) + 1 - unat (intlvBits r)) a))"
      by (rule intlv_field_eq) (use assms False in \<open>simp_all add: intlv_ok_def\<close>)
    show ?thesis using b f g False by (auto simp: contains_def Let_def interleaved_def hashed_def stripe_of_def)
  qed
qed

lemma stripe_bound:
  assumes "intlv_ok r"
  shows "unat (stripe_of r a) < 2 ^ unat (intlvBits r)"
proof -
  let ?k = "unat (intlvBits r)"
  have "take_bit ?k (stripe_of r a) = stripe_of r a" by (simp add: stripe_of_def Let_def take_bit_xor)
  then have "unat (stripe_of r a) mod 2 ^ ?k = unat (stripe_of r a)" by (metis unat_take)
  then show ?thesis by (metis mod_less_divisor zero_less_numeral zero_less_power)
qed

lemma stripe_of_match [simp]: "stripe_of (r\<lparr>intlvMatch := m\<rparr>) = stripe_of r"
  by (simp add: stripe_of_def Let_def fun_eq_iff)

text \<open>A family the constructor accepts is the first range with the match values counted up.\<close>

lemma check_family_nth:
  assumes "check_family this m rs = Inr ()" "i < length rs"
  shows "rs ! i = this\<lparr>intlvMatch := m + of_nat i\<rparr>"
  using assms
proof (induction this m rs arbitrary: i rule: check_family.induct)
  case (2 this m r rs)
  then have r: "r = this\<lparr>intlvMatch := m\<rparr>" and rest: "check_family this (m + 1) rs = Inr ()"
    by (auto simp: mergesWith_def split: if_splits)
  show ?case
  proof (cases i)
    case (Suc j)
    then show ?thesis using 2 rest by (auto simp: mergesWith_def ac_simps split: if_splits)
  qed (simp add: r)
qed simp

lemma merge_family:
  assumes "merge_AddrRange (r0 # rs) = Inr r" "intlv_ok r0"
  shows "length (r0 # rs) = 2 ^ unat (intlvBits r0)"
    "\<And>i. i < length (r0 # rs) \<Longrightarrow> (r0 # rs) ! i = r0\<lparr>intlvMatch := of_nat i\<rparr>"
    "r = plain_AddrRange (ar_start r0) (ar_end r0)"
proof -
  let ?k = "unat (intlvBits r0)"
  have k8: "?k \<le> 8" using assms(2) unfolding intlv_ok_def nat_uint_eq [symmetric] by arith
  have s: "shl64 1 (uint (intlvBits r0)) = Inr (2 ^ ?k)"
    using assms(2) by (simp add: shl64_def intlv_ok_def push_bit_eq_mult)
  have fam: "check_family (r0\<lparr>intlvMatch := 0\<rparr>) 0 (r0 # rs) = Inr ()" and len: "length (r0 # rs) = unat (2 ^ ?k :: 64 word)"
    and r: "r = r0\<lparr>intlvMatch := 0, intlvHighBit := 0, xorHighBit := 0, intlvBits := 0\<rparr>"
    using assms(1) s by (auto simp: merge_AddrRange_def Let_def simp del: check_family.simps split: if_splits)
  show "r = plain_AddrRange (ar_start r0) (ar_end r0)" unfolding r by (cases r0) (simp add: plain_AddrRange_def)
  show nth: "(r0 # rs) ! i = r0\<lparr>intlvMatch := of_nat i\<rparr>" if "i < length (r0 # rs)" for i
    using check_family_nth [OF fam that] by simp
  show "length (r0 # rs) = 2 ^ ?k" unfolding len using k8 by (simp add: unat_power2)
qed

section \<open>Properties\<close>

text \<open>
  C17: interleaving stripes a range. When the constructor merges a family of interleaved ranges, hashed or not, it returns the
  plain range they share, and every address of that range lies in exactly one member of the family, an address
  outside in none.
\<close>

theorem interleaved_ranges_partition:
  assumes "merge_AddrRange rs = Inr r" "rs \<noteq> []" "intlv_ok (hd rs)"
  shows "(contains r a = Inr True \<longleftrightarrow> (\<exists>!i. i < length rs \<and> contains (rs ! i) a = Inr True)) \<and>
     (contains r a = Inr False \<longleftrightarrow> (\<forall>i < length rs. contains (rs ! i) a = Inr False))"
proof -
  obtain r0 rs0 where rs: "rs = r0 # rs0" using assms(2) by (cases rs) auto
  have ok: "intlv_ok r0" using assms(3) rs by simp
  note fam = merge_family [OF assms(1) [unfolded rs] ok, folded rs]
  let ?in = "ar_start r0 \<le> a \<and> a \<le> ar_end r0"
  have len: "length rs \<le> 2 ^ 8" unfolding fam(1)
    using ok by (intro power_increasing) (auto simp: intlv_ok_def simp flip: nat_uint_eq)
  have c: "contains (rs ! i) a = Inr (?in \<and> unat (stripe_of r0 a) = i)" if "i < length rs" for i
  proof -
    have m: "unat (ucast (of_nat i :: 8 word) :: 64 word) = i"
      using that len by (simp add: unat_ucast_up unat_of_nat)
    have "intlv_ok (r0\<lparr>intlvMatch := of_nat i\<rparr>)" using ok by (simp add: intlv_ok_def)
    from contains_stripe [OF this, of a] show ?thesis using m by (simp add: fam(2) [OF that] word_unat_eq_iff)
  qed
  have "unat (stripe_of r0 a) < length rs" using stripe_bound [OF ok] fam(1) by simp
  moreover have "contains r a = Inr ?in" by (simp add: fam(3) contains_def plain_AddrRange_def interleaved_def)
  ultimately show ?thesis using c by auto
qed

definition demo_family :: "addr_range list" where
  "demo_family = map (\<lambda>m. \<lparr>ar_start = 0x1000, ar_end = 0x1FFF, intlvHighBit = 7, xorHighBit = 9, intlvBits = 2,
     intlvMatch = m\<rparr>) [0, 1, 2, 3]"

theorem interleaved_ranges_partition_witness:
  "merge_AddrRange demo_family = Inr (plain_AddrRange 0x1000 0x1FFF) \<and>
   (\<exists>!i. i < length demo_family \<and> contains (demo_family ! i) 0x1234 = Inr True)"
proof -
  have m: "merge_AddrRange demo_family = Inr (plain_AddrRange 0x1000 0x1FFF)" by code_simp
  moreover have "demo_family \<noteq> []" "intlv_ok (hd demo_family)" by (simp_all add: demo_family_def intlv_ok_def)
  moreover have "contains (plain_AddrRange 0x1000 0x1FFF) 0x1234 = Inr True" by code_simp
  ultimately show ?thesis using interleaved_ranges_partition [OF m, where a = "0x1234"] by blast
qed

text \<open>
  Equality of ranges ignores the hash: two interleaved ranges that differ only in the bits that are exclusive-ored in
  compare equal although they do not contain the same addresses.
\<close>

definition demo_hashed :: "8 word \<Rightarrow> addr_range" where
  "demo_hashed xhigh =
     \<lparr>ar_start = 0x1000, ar_end = 0x1FFF, intlvHighBit = 7, xorHighBit = xhigh, intlvBits = 2, intlvMatch = 1\<rparr>"

lemma equal_ranges_differ:
  "new_AddrRange 0x1000 0x1FFF 7 9 2 1 = Inr (demo_hashed 9) \<and>
   new_AddrRange 0x1000 0x1FFF 7 11 2 1 = Inr (demo_hashed 11) \<and>
   ar_eq (demo_hashed 9) (demo_hashed 11) \<and>
   contains (demo_hashed 9) 0x1240 = Inr False \<and> contains (demo_hashed 11) 0x1240 = Inr True"
  by code_simp

end
