(* ===== verification/Abstract_Memory.thy ===== *)
theory Abstract_Memory
  imports Memory_Spec Addr_Range
begin

text \<open>
  The memory of \<open>src/gem5_src/mem/abstract_mem.hh\<close> and \<open>abstract_mem.cc\<close>: a range of addresses, the host bytes behind it (\<open>None\<close> for a null memory), and the
  load-locked reservations at a granularity of sixteen bytes. The processors woken up when a store clears a
  reservation are kept in a list.
\<close>

section \<open>State\<close>

record locked_addr =
  la_addr :: addr
  la_contextId :: "32 word"

record abstract_mem =
  am_range :: addr_range
  pmemAddr :: "8 word list option"
  lockedAddrList :: "locked_addr list"
  am_wakeups :: "32 word list"
  bytesRead :: "nat list"
  bytesInstRead :: "nat list"
  bytesWritten :: "nat list"
  numReads :: "nat list"
  numWrites :: "nat list"
  numOther :: "nat list"

definition new_AbstractMemory :: "addr_range \<Rightarrow> nat \<Rightarrow> abstract_mem" where
  "new_AbstractMemory r masters =
     \<lparr>am_range = r, pmemAddr = None, lockedAddrList = [], am_wakeups = [],
      bytesRead = replicate masters 0, bytesInstRead = replicate masters 0, bytesWritten = replicate masters 0,
      numReads = replicate masters 0, numWrites = replicate masters 0, numOther = replicate masters 0\<rparr>"

definition am_init :: "addr \<Rightarrow> 'x abstract_mem_scheme \<Rightarrow> unit res" where
  "am_init pageBytes m =
     bindE (ar_size (am_range m)) (\<lambda>n.
     if pageBytes = 0 then Inl Div_By_Zero else if n mod pageBytes \<noteq> 0 then Inl Panic_Error else Inr ())"

definition setBackingStore :: "'x abstract_mem_scheme \<Rightarrow> 8 word list \<Rightarrow> 'x abstract_mem_scheme" where
  "setBackingStore m bs = m\<lparr>pmemAddr := Some bs\<rparr>"

text \<open>An index into a vector of statistics outside its size fails an assertion.\<close>

definition stat_add :: "nat list \<Rightarrow> nat \<Rightarrow> nat \<Rightarrow> (nat list) res" where
  "stat_add v i n = (if i < length v then Inr (v[i := v ! i + n]) else Inl Assert_Failed)"

section \<open>Reservations\<close>

definition la_mask :: "addr \<Rightarrow> addr" where
  "la_mask a = a AND NOT 0xf"

definition la_matchesContext :: "locked_addr \<Rightarrow> request \<Rightarrow> bool res" where
  "la_matchesContext l r = bindE (contextId r) (\<lambda>c. Inr (la_contextId l = c))"

definition new_LockedAddr :: "request \<Rightarrow> locked_addr res" where
  "new_LockedAddr r =
     bindE (getPaddr r) (\<lambda>a. bindE (contextId r) (\<lambda>c. Inr \<lparr>la_addr = la_mask a, la_contextId = c\<rparr>))"

fun move_lock :: "request \<Rightarrow> addr \<Rightarrow> locked_addr list \<Rightarrow> (locked_addr list option) res" where
  "move_lock r a [] = Inr None"
| "move_lock r a (l # ls) =
     bindE (la_matchesContext l r) (\<lambda>hit.
     if hit then Inr (Some (l\<lparr>la_addr := a\<rparr> # ls))
     else bindE (move_lock r a ls) (\<lambda>ls'. Inr (map_option (Cons l) ls')))"

definition am_trackLoadLocked :: "'x abstract_mem_scheme \<Rightarrow> 's packet \<Rightarrow> 'x abstract_mem_scheme res" where
  "am_trackLoadLocked m pkt =
     bindE (getPaddr (pkt_req pkt)) (\<lambda>a.
     bindE (move_lock (pkt_req pkt) (la_mask a) (lockedAddrList m)) (\<lambda>moved.
     case moved of
       Some ls \<Rightarrow> Inr (m\<lparr>lockedAddrList := ls\<rparr>)
     | None \<Rightarrow> bindE (new_LockedAddr (pkt_req pkt)) (\<lambda>l. Inr (m\<lparr>lockedAddrList := l # lockedAddrList m\<rparr>))))"

fun find_lock :: "request \<Rightarrow> addr \<Rightarrow> locked_addr list \<Rightarrow> bool res" where
  "find_lock r a [] = Inr False"
| "find_lock r a (l # ls) =
     (if la_addr l = a then bindE (la_matchesContext l r) (\<lambda>hit. if hit then Inr True else find_lock r a ls)
      else find_lock r a ls)"

definition checkLockedAddrList :: "'x abstract_mem_scheme \<Rightarrow> 's packet \<Rightarrow> (bool \<times> 'x abstract_mem_scheme \<times> 's packet) res" where
  "checkLockedAddrList m pkt =
     bindE (getPaddr (pkt_req pkt)) (\<lambda>a.
     (let paddr = la_mask a; llsc = isLLSC (pkt_cmd pkt) in
      bindE (if llsc then find_lock (pkt_req pkt) paddr (lockedAddrList m) else Inr True) (\<lambda>allowStore.
      (let pkt = (if llsc then pkt\<lparr>pkt_req := setExtraData (pkt_req pkt) (if allowStore then 1 else 0)\<rparr> else pkt);
           m = (if allowStore
                then m\<lparr>am_wakeups := am_wakeups m @ map la_contextId (filter (\<lambda>l. la_addr l = paddr) (lockedAddrList m)),
                       lockedAddrList := filter (\<lambda>l. la_addr l \<noteq> paddr) (lockedAddrList m)\<rparr>
                else m)
       in Inr (allowStore, m, pkt)))))"

definition writeOK :: "'x abstract_mem_scheme \<Rightarrow> 's packet \<Rightarrow> (bool \<times> 'x abstract_mem_scheme \<times> 's packet) res" where
  "writeOK m pkt =
     (if lockedAddrList m = [] then
        (let llsc = isLLSC (pkt_cmd pkt) in
         Inr (\<not> llsc, m, if llsc then pkt\<lparr>pkt_req := setExtraData (pkt_req pkt) 0\<rparr> else pkt))
      else checkLockedAddrList m pkt)"

section \<open>Accesses\<close>

text \<open>The bytes of an integer of the host, least significant first.\<close>

definition host_bytes :: "nat \<Rightarrow> 64 word \<Rightarrow> 8 word list" where
  "host_bytes n v = map (\<lambda>i. ucast (drop_bit (8 * i) v)) [0..<n]"

text \<open>Whether a conditional swap overwrites: the old bytes are compared with the condition at the size of the access.\<close>

definition swap_condition :: "'s packet \<Rightarrow> 8 word list \<Rightarrow> bool res" where
  "swap_condition pkt old =
     (if req_isCondSwap (pkt_req pkt) then
        bindE (getSize pkt) (\<lambda>n.
        if n = 8 then bindE (getExtraData (pkt_req pkt)) (\<lambda>v. Inr (old = host_bytes 8 v))
        else if n = 4 then bindE (getExtraData (pkt_req pkt)) (\<lambda>v. Inr (old = host_bytes 4 v))
        else Inl Panic_Error)
      else Inr True)"

definition am_range_check :: "'x abstract_mem_scheme \<Rightarrow> 's packet \<Rightarrow> unit res" where
  "am_range_check m pkt =
     bindE (getAddr pkt) (\<lambda>a. bindE (getSize pkt) (\<lambda>n.
     bindE (isSubset (plain_AddrRange a (a + ucast n - 1)) (am_range m)) (\<lambda>ok. assertE ok)))"

text \<open>The offset of the packet's address into the host bytes.\<close>

definition host_off :: "'x abstract_mem_scheme \<Rightarrow> 's packet \<Rightarrow> int" where
  "host_off m pkt = uint (pkt_addr pkt - ar_start (am_range m))"

definition am_swap :: "'x abstract_mem_scheme \<Rightarrow> 's packet \<Rightarrow> ('x abstract_mem_scheme \<times> 's packet) res" where
  "am_swap m pkt =
     bindE (getSize pkt) (\<lambda>n. bindE (getPtr pkt) (\<lambda>d.
     case pmemAddr m of
       None \<Rightarrow> Inl Panic_Error
     | Some pm \<Rightarrow>
         bindE (memcpy (replicate (unat n) 0) 0 d 0 (unat n)) (\<lambda>overwrite_val.
         bindE (memcpy d 0 pm (host_off m pkt) (unat n)) (\<lambda>d'.
         (let pkt = pkt\<lparr>pkt_data := Some d'\<rparr> in
          bindE (swap_condition pkt (take (unat n) (drop (nat (host_off m pkt)) pm))) (\<lambda>overwrite_mem.
          bindE (if overwrite_mem then memcpy pm (host_off m pkt) overwrite_val 0 (unat n) else Inr pm) (\<lambda>pm.
          bindE (assertE (\<not> req_isInstFetch (pkt_req pkt))) (\<lambda>_.
          bindE (stat_add (numOther m) (unat (req_masterId (pkt_req pkt))) 1) (\<lambda>s.
          Inr (m\<lparr>pmemAddr := Some pm, numOther := s\<rparr>, pkt))))))))))"

definition am_read :: "'x abstract_mem_scheme \<Rightarrow> 's packet \<Rightarrow> ('x abstract_mem_scheme \<times> 's packet) res" where
  "am_read m pkt =
     bindE (assertE (\<not> isWrite (pkt_cmd pkt))) (\<lambda>_.
     bindE (if isLLSC (pkt_cmd pkt) then am_trackLoadLocked m pkt else Inr m) (\<lambda>m.
     bindE (getSize pkt) (\<lambda>n.
     bindE (case pmemAddr m of
              None \<Rightarrow> Inr pkt
            | Some pm \<Rightarrow> bindE (getPtr pkt) (\<lambda>d. bindE (memcpy d 0 pm (host_off m pkt) (unat n)) (\<lambda>d'.
                Inr (pkt\<lparr>pkt_data := Some d'\<rparr>)))) (\<lambda>pkt.
     (let i = unat (req_masterId (pkt_req pkt)) in
      bindE (stat_add (numReads m) i 1) (\<lambda>r.
      bindE (stat_add (bytesRead m) i (unat n)) (\<lambda>b.
      bindE (if req_isInstFetch (pkt_req pkt) then stat_add (bytesInstRead m) i (unat n) else Inr (bytesInstRead m)) (\<lambda>f.
      Inr (m\<lparr>numReads := r, bytesRead := b, bytesInstRead := f\<rparr>, pkt)))))))))"

definition am_write :: "'x abstract_mem_scheme \<Rightarrow> 's packet \<Rightarrow> ('x abstract_mem_scheme \<times> 's packet) res" where
  "am_write m pkt =
     bindE (writeOK m pkt) (\<lambda>(ok, m, pkt).
     if ok then
       bindE (getSize pkt) (\<lambda>n.
       bindE (case pmemAddr m of
                None \<Rightarrow> Inr None
              | Some pm \<Rightarrow> bindE (getPtr pkt) (\<lambda>d. bindE (memcpy pm (host_off m pkt) d 0 (unat n)) (\<lambda>pm. Inr (Some pm)))) (\<lambda>pm.
       bindE (assertE (\<not> req_isInstFetch (pkt_req pkt))) (\<lambda>_.
       (let i = unat (req_masterId (pkt_req pkt)) in
        bindE (stat_add (numWrites m) i 1) (\<lambda>w.
        bindE (stat_add (bytesWritten m) i (unat n)) (\<lambda>b.
        Inr (m\<lparr>pmemAddr := pm, numWrites := w, bytesWritten := b\<rparr>, pkt)))))))
     else Inr (m, pkt))"

definition am_access :: "'x abstract_mem_scheme \<Rightarrow> 's packet \<Rightarrow> ('x abstract_mem_scheme \<times> 's packet) res" where
  "am_access m pkt =
     bindE (am_range_check m pkt) (\<lambda>_.
     if memInhibitAsserted pkt then Inr (m, pkt)
     else
       bindE (if pkt_cmd pkt = SwapReq then am_swap m pkt
              else if isRead (pkt_cmd pkt) then am_read m pkt
              else if isInvalidate (pkt_cmd pkt) then Inr (m, pkt)
              else if isWrite (pkt_cmd pkt) then am_write m pkt
              else Inl Panic_Error) (\<lambda>(m, pkt).
       if needsResponse (pkt_cmd pkt) then bindE (makeResponse pkt) (\<lambda>pkt. Inr (m, pkt)) else Inr (m, pkt)))"

text \<open>A print request needs the right kind of sender state and writes to a stream.\<close>

definition am_functionalAccess :: "('s \<Rightarrow> bool) \<Rightarrow> 'x abstract_mem_scheme \<Rightarrow> 's packet \<Rightarrow> ('x abstract_mem_scheme \<times> 's packet) res" where
  "am_functionalAccess isPrintState m pkt =
     bindE (am_range_check m pkt) (\<lambda>_. bindE (getSize pkt) (\<lambda>n.
     if isRead (pkt_cmd pkt) then
       bindE (case pmemAddr m of
                None \<Rightarrow> Inr pkt
              | Some pm \<Rightarrow> bindE (getPtr pkt) (\<lambda>d. bindE (memcpy d 0 pm (host_off m pkt) (unat n)) (\<lambda>d'.
                  Inr (pkt\<lparr>pkt_data := Some d'\<rparr>)))) (\<lambda>pkt.
       bindE (makeResponse pkt) (\<lambda>pkt. Inr (m, pkt)))
     else if isWrite (pkt_cmd pkt) then
       bindE (case pmemAddr m of
                None \<Rightarrow> Inr None
              | Some pm \<Rightarrow> bindE (getPtr pkt) (\<lambda>d. bindE (memcpy pm (host_off m pkt) d 0 (unat n)) (\<lambda>pm. Inr (Some pm)))) (\<lambda>pm.
       bindE (makeResponse pkt) (\<lambda>pkt. Inr (m\<lparr>pmemAddr := pm\<rparr>, pkt)))
     else if isPrint (pkt_cmd pkt) then
       (case senderState pkt of s # _ \<Rightarrow> bindE (assertE (isPrintState s)) (\<lambda>_. Inr (m, pkt)) | [] \<Rightarrow> Inl Assert_Failed)
     else Inl Panic_Error))"

section \<open>Contents\<close>

definition am_ok :: "'x abstract_mem_scheme \<Rightarrow> bool" where
  "am_ok m \<longleftrightarrow> (\<exists>pm. pmemAddr m = Some pm \<and> length pm = Suc (unat (ar_end (am_range m) - ar_start (am_range m)))) \<and>
     ar_start (am_range m) \<le> ar_end (am_range m) \<and>
     (\<forall>v \<in> {bytesRead m, bytesInstRead m, bytesWritten m, numWrites m, numOther m}. length v = length (numReads m))"

definition am_covers :: "'x abstract_mem_scheme \<Rightarrow> addr \<Rightarrow> bool" where
  "am_covers m a \<longleftrightarrow> ar_start (am_range m) \<le> a \<and> a \<le> ar_end (am_range m)"

definition am_masters :: "'x abstract_mem_scheme \<Rightarrow> nat" where
  "am_masters m = length (numReads m)"

definition am_at :: "'x abstract_mem_scheme \<Rightarrow> addr \<Rightarrow> 8 word" where
  "am_at m a = (if am_covers m a then the (pmemAddr m) ! unat (a - ar_start (am_range m)) else 0)"

lemma carries_last:
  assumes "carries p d" "i < length d"
  shows "unat (pkt_addr p + of_nat i) = unat (pkt_addr p) + i"
  using assms by (simp add: carries_def unat_word_ariths unat_of_nat)

text \<open>A served packet lies in the range, at an offset that leaves room for its bytes.\<close>

lemma plain_in_range:
  assumes ok: "am_ok m" and p: "plain_request (am_covers m) n p d" and pm: "pmemAddr m = Some pm"
  shows "am_range_check m p = Inr ()"
    "host_off m p = int (unat (pkt_addr p - ar_start (am_range m)))"
    "unat (pkt_addr p - ar_start (am_range m)) + length d \<le> length pm"
    "unat (pkt_addr p - ar_start (am_range m)) = unat (pkt_addr p) - unat (ar_start (am_range m))"
    "unat (ar_start (am_range m)) \<le> unat (pkt_addr p)"
proof -
  let ?s = "ar_start (am_range m)" and ?e = "ar_end (am_range m)" and ?a = "pkt_addr p"
  have c: "carries p d" and cov: "\<And>i. i < length d \<Longrightarrow> am_covers m (?a + of_nat i)"
    using p by (auto simp: plain_request_def)
  have n: "0 < length d" "length d = unat (pkt_size p)" using c by (auto simp: carries_def)
  have lo: "?s \<le> ?a" using cov [of 0] n by (simp add: am_covers_def)
  have "?a + of_nat (length d - 1) \<le> ?e" using cov [of "length d - 1"] n by (simp add: am_covers_def)
  then have hi: "unat ?a + length d - 1 \<le> unat ?e"
    using carries_last [OF c, of "length d - 1"] n by (simp add: word_le_nat_alt)
  show le: "unat ?s \<le> unat ?a" using lo by (simp add: word_le_nat_alt)
  show off: "unat (?a - ?s) = unat ?a - unat ?s" using lo by (rule unat_sub)
  have len: "length pm = Suc (unat ?e - unat ?s)"
    using ok pm by (auto simp: am_ok_def unat_sub)
  show "unat (?a - ?s) + length d \<le> length pm" using off le hi len n(1) by linarith
  show "host_off m p = int (unat (?a - ?s))" by (simp add: host_off_def)
  have "?a + ucast (pkt_size p) - 1 \<le> ?e" using hi carries_end [OF c] by (simp add: word_le_nat_alt)
  then show "am_range_check m p = Inr ()"
    using lo by (simp add: am_range_check_def carries_access [OF c] isSubset_def interleaved_def plain_AddrRange_def)
qed

lemma am_bytes:
  assumes ok: "am_ok m" and p: "plain_request (am_covers m) n p d" and pm: "pmemAddr m = Some pm"
  shows "take (length d) (drop (unat (pkt_addr p - ar_start (am_range m))) pm) = mem_bytes (am_at m) (pkt_addr p) (length d)"
proof (rule nth_equalityI)
  note r = plain_in_range [OF ok p pm]
  show "length (take (length d) (drop (unat (pkt_addr p - ar_start (am_range m))) pm)) =
      length (mem_bytes (am_at m) (pkt_addr p) (length d))" using r(3) by simp
  fix i assume "i < length (take (length d) (drop (unat (pkt_addr p - ar_start (am_range m))) pm))"
  then have i: "i < length d" by simp
  have c: "carries p d" using p by (simp add: plain_request_def)
  have "unat (pkt_addr p + of_nat i - ar_start (am_range m)) = unat (pkt_addr p - ar_start (am_range m)) + i"
    using r(4,5) carries_last [OF c i] by (subst unat_sub) (auto simp: word_le_nat_alt)
  then show "take (length d) (drop (unat (pkt_addr p - ar_start (am_range m))) pm) ! i =
      mem_bytes (am_at m) (pkt_addr p) (length d) ! i"
    using i r(3) pm p by (simp add: am_at_def plain_request_def)
qed

lemma am_at_write:
  assumes ok: "am_ok m" and p: "plain_request (am_covers m) n p d" and pm: "pmemAddr m = Some pm"
    and w: "memcpy pm (host_off m p) d 0 (length d) = Inr pm'"
    and m': "pmemAddr m' = Some pm'" "am_range m' = am_range m"
  shows "am_at m' = mem_write (am_at m) (pkt_addr p) d"
proof
  fix x
  let ?s = "ar_start (am_range m)" and ?a = "pkt_addr p"
  note r = plain_in_range [OF ok p pm]
  have c: "carries p d" and cov: "\<And>i. i < length d \<Longrightarrow> am_covers m (?a + of_nat i)"
    using p by (auto simp: plain_request_def)
  have cm': "am_covers m' x = am_covers m x" using m'(2) by (simp add: am_covers_def)
  show "am_at m' x = mem_write (am_at m) ?a d x"
  proof (cases "am_covers m x")
    case False
    have "\<not> unat (x - ?a) < length d" using False cov [of "unat (x - ?a)"] by auto
    then show ?thesis using False cm' by (simp add: mem_write_miss am_at_def)
  next
    case True
    have len: "length pm = Suc (unat (ar_end (am_range m)) - unat ?s)" using ok pm by (auto simp: am_ok_def unat_sub)
    have xs: "unat (x - ?s) = unat x - unat ?s" "unat ?s \<le> unat x"
      using True by (auto simp: am_covers_def unat_sub word_le_nat_alt)
    have xi: "unat (x - ?s) < length pm" using True len xs by (auto simp: am_covers_def word_le_nat_alt)
    have hn: "nat (host_off m p) = unat ?a - unat ?s" using r(2,4) by simp
    have iff: "unat (x - ?a) < length d \<longleftrightarrow> unat ?a \<le> unat x \<and> unat x < unat ?a + length d"
      using c by (auto simp: carries_def unat_sub_if' word_le_nat_alt)
    have "pm' ! (unat x - unat ?s) = (if unat ?a \<le> unat x \<and> unat x < unat ?a + length d
        then d ! (unat x - unat ?a) else pm ! (unat x - unat ?s))"
      using memcpy_nth [OF w xi] xs r(5) unfolding hn by auto
    moreover have "unat (x - ?a) = unat x - unat ?a" if "unat ?a \<le> unat x" using that by (simp add: unat_sub word_le_nat_alt)
    ultimately show ?thesis using iff True cm' pm m' xs by (simp add: am_at_def mem_write_def Let_def)
  qed
qed

lemma am_read_law:
  assumes ok: "am_ok m" and p: "plain_request (am_covers m) (am_masters m) p d"
    and k: "isRead (pkt_cmd p)" "\<not> isWrite (pkt_cmd p)" "\<not> isLLSC (pkt_cmd p)" "needsResponse (pkt_cmd p)"
  shows "\<exists>m'. am_access m p = Inr (m', response_of (p\<lparr>pkt_data := Some (mem_bytes (am_at m) (pkt_addr p) (length d))\<rparr>)) \<and>
     am_ok m' \<and> am_covers m' = am_covers m \<and> am_masters m' = am_masters m \<and> am_at m' = am_at m"
proof -
  obtain pm where pm: "pmemAddr m = Some pm" using ok by (auto simp: am_ok_def)
  note r = plain_in_range [OF ok p pm]
  have c: "carries p d" and mi: "\<not> memInhibitAsserted p" and ms: "unat (req_masterId (pkt_req p)) < length (numReads m)"
    using p by (auto simp: plain_request_def am_masters_def)
  have n: "length d = unat (pkt_size p)" using c by (simp add: carries_def)
  have sw: "pkt_cmd p \<noteq> SwapReq" using k(2) by (auto simp: cmd_attrib_defs)
  have cp: "memcpy d 0 pm (host_off m p) (length d) = Inr (mem_bytes (am_at m) (pkt_addr p) (length d))"
    using r(2,3) am_bytes [OF ok p pm] by (auto simp: memcpy_def mem_bytes_def)
  let ?q = "p\<lparr>pkt_data := Some (mem_bytes (am_at m) (pkt_addr p) (length d))\<rparr>"
  have len: "length (bytesRead m) = length (numReads m)" "length (bytesInstRead m) = length (numReads m)"
    using ok by (auto simp: am_ok_def)
  define mid where "mid = unat (req_masterId (pkt_req p))"
  define a where "a = (numReads m)[mid := numReads m ! mid + 1]"
  define b where "b = (bytesRead m)[mid := bytesRead m ! mid + unat (pkt_size p)]"
  define f where "f = (if req_isInstFetch (pkt_req p)
    then (bytesInstRead m)[mid := bytesInstRead m ! mid + unat (pkt_size p)] else bytesInstRead m)"
  define m' where "m' = m\<lparr>numReads := a, bytesRead := b, bytesInstRead := f\<rparr>"
  have rd: "am_read m p = Inr (m', ?q)"
    using k cp ms len pm carries_access [OF c] n
    by (simp add: am_read_def Let_def stat_add_def m'_def a_def b_def f_def mid_def)
  have acc: "am_access m p = Inr (m', response_of ?q)"
    using r(1) mi sw k rd makeResponse_eq [of ?q] by (simp add: am_access_def)
  have inv: "am_ok m'" "am_covers m' = am_covers m" "am_masters m' = am_masters m" "am_at m' = am_at m"
    using len ok by (auto simp: m'_def a_def b_def f_def am_ok_def am_covers_def am_masters_def am_at_def fun_eq_iff)
  show ?thesis using acc inv by simp
qed

lemma am_ack_law:
  assumes ok: "am_ok m" and p: "plain_request (am_covers m) (am_masters m) p d"
    and k: "isInvalidate (pkt_cmd p)" "\<not> isRead (pkt_cmd p)" "needsResponse (pkt_cmd p)"
  shows "\<exists>m'. am_access m p = Inr (m', response_of p) \<and>
     am_ok m' \<and> am_covers m' = am_covers m \<and> am_masters m' = am_masters m \<and> am_at m' = am_at m"
proof -
  obtain pm where pm: "pmemAddr m = Some pm" using ok by (auto simp: am_ok_def)
  have "pkt_cmd p \<noteq> SwapReq" using k(2) by (auto simp: cmd_attrib_defs)
  then have "am_access m p = Inr (m, response_of p)"
    using plain_in_range(1) [OF ok p pm] p k makeResponse_eq [of p] by (simp add: am_access_def plain_request_def)
  then show ?thesis using ok by simp
qed

lemma writeOK_plain:
  assumes "\<not> isLLSC (pkt_cmd p)" "hasPaddr (pkt_req p)"
  shows "\<exists>w ls. writeOK m p = Inr (True, m\<lparr>am_wakeups := w, lockedAddrList := ls\<rparr>, p)"
proof (cases "lockedAddrList m = []")
  case True
  then show ?thesis using assms
    by (intro exI [of _ "am_wakeups m"] exI [of _ "lockedAddrList m"]) (simp add: writeOK_def Let_def)
next
  case False
  then show ?thesis using assms by (auto simp: writeOK_def checkLockedAddrList_def Let_def getPaddr_def hasPaddr_def)
qed

lemma am_write_law:
  assumes ok: "am_ok m" and p: "plain_request (am_covers m) (am_masters m) p d"
    and k: "isWrite (pkt_cmd p)" "\<not> isRead (pkt_cmd p)" "\<not> isInvalidate (pkt_cmd p)" "\<not> isLLSC (pkt_cmd p)"
      "\<not> req_isInstFetch (pkt_req p)"
  shows "\<exists>m'. am_access m p = Inr (m', if needsResponse (pkt_cmd p) then response_of p else p) \<and>
     am_ok m' \<and> am_covers m' = am_covers m \<and> am_masters m' = am_masters m \<and>
     am_at m' = mem_write (am_at m) (pkt_addr p) d"
proof -
  obtain pm where pm: "pmemAddr m = Some pm" using ok by (auto simp: am_ok_def)
  note r = plain_in_range [OF ok p pm]
  have c: "carries p d" and mi: "\<not> memInhibitAsserted p" and ms: "unat (req_masterId (pkt_req p)) < length (numReads m)"
    and pa: "hasPaddr (pkt_req p)" using p by (auto simp: plain_request_def am_masters_def)
  have n: "length d = unat (pkt_size p)" using c by (simp add: carries_def)
  have sw: "pkt_cmd p \<noteq> SwapReq" using k(2) by (auto simp: cmd_attrib_defs)
  obtain w ls where wok: "writeOK m p = Inr (True, m\<lparr>am_wakeups := w, lockedAddrList := ls\<rparr>, p)"
    using writeOK_plain [OF k(4) pa] by blast
  obtain pm' where cp: "memcpy pm (host_off m p) d 0 (length d) = Inr pm'"
    using memcpy_total [of "unat (pkt_addr p - ar_start (am_range m))" "length d" pm 0 d] r(2,3) by auto
  have ho: "host_off (m\<lparr>am_wakeups := w, lockedAddrList := ls\<rparr>) p = host_off m p" by (simp add: host_off_def)
  have len: "length (numWrites m) = length (numReads m)" "length (bytesWritten m) = length (numReads m)"
    using ok by (auto simp: am_ok_def)
  define mid where "mid = unat (req_masterId (pkt_req p))"
  define a where "a = (numWrites m)[mid := numWrites m ! mid + 1]"
  define b where "b = (bytesWritten m)[mid := bytesWritten m ! mid + unat (pkt_size p)]"
  define m' where "m' = m\<lparr>am_wakeups := w, lockedAddrList := ls, pmemAddr := Some pm', numWrites := a, bytesWritten := b\<rparr>"
  have wr: "am_write m p = Inr (m', p)"
    using wok cp ms len pm carries_access [OF c] n k(5) ho
    by (simp add: am_write_def Let_def stat_add_def m'_def a_def b_def mid_def)
  have acc: "am_access m p = Inr (m', if needsResponse (pkt_cmd p) then response_of p else p)"
    using r(1) mi sw k wr makeResponse_eq [of p] by (simp add: am_access_def)
  have st: "pmemAddr m' = Some pm'" "am_range m' = am_range m" by (simp_all add: m'_def)
  have inv: "am_ok m'" "am_covers m' = am_covers m" "am_masters m' = am_masters m"
    using len ok memcpy_length [OF cp] pm
    by (auto simp: m'_def a_def b_def am_ok_def am_covers_def am_masters_def fun_eq_iff)
  show ?thesis using acc inv am_at_write [OF ok p pm cp st] by simp
qed


lemma am_functional_write_law:
  assumes ok: "am_ok m" and p: "plain_request (am_covers m) n p d" and k: "pkt_cmd p = WriteReq"
  shows "\<exists>pm. am_functionalAccess ips m p = Inr (m\<lparr>pmemAddr := Some pm\<rparr>, response_of p) \<and> am_ok (m\<lparr>pmemAddr := Some pm\<rparr>) \<and>
     am_covers (m\<lparr>pmemAddr := Some pm\<rparr>) = am_covers m \<and> am_at (m\<lparr>pmemAddr := Some pm\<rparr>) = mem_write (am_at m) (pkt_addr p) d"
proof -
  obtain pm where pm: "pmemAddr m = Some pm" using ok by (auto simp: am_ok_def)
  note r = plain_in_range [OF ok p pm]
  have c: "carries p d" using p by (simp add: plain_request_def)
  have n: "length d = unat (pkt_size p)" using c by (simp add: carries_def)
  obtain pm' where cp: "memcpy pm (host_off m p) d 0 (length d) = Inr pm'"
    using memcpy_total [of "unat (pkt_addr p - ar_start (am_range m))" "length d" pm 0 d] r(2,3) by auto
  have "am_functionalAccess ips m p = Inr (m\<lparr>pmemAddr := Some pm'\<rparr>, response_of p)"
    using r(1) carries_access [OF c] n pm cp k makeResponse_eq [of p] by (simp add: am_functionalAccess_def cmd_attrib_defs)
  moreover have "am_ok (m\<lparr>pmemAddr := Some pm'\<rparr>)" "am_covers (m\<lparr>pmemAddr := Some pm'\<rparr>) = am_covers m"
    using ok memcpy_length [OF cp] pm by (auto simp: am_ok_def am_covers_def fun_eq_iff)
  ultimately show ?thesis using am_at_write [OF ok p pm cp, of "m\<lparr>pmemAddr := Some pm'\<rparr>"] by auto
qed

text \<open>An access touches only the part of a memory that holds the bytes.\<close>

lemma am_track_more: "am_trackLoadLocked m p = Inr m' \<Longrightarrow> abstract_mem.more m' = abstract_mem.more m"
  by (auto simp: am_trackLoadLocked_def split: option.splits)

lemma writeOK_more: "writeOK m p = Inr (b, m', p') \<Longrightarrow> abstract_mem.more m' = abstract_mem.more m"
  by (auto simp: writeOK_def checkLockedAddrList_def Let_def split: if_splits)

lemma am_swap_more: "am_swap m p = Inr (m', p') \<Longrightarrow> abstract_mem.more m' = abstract_mem.more m"
  by (auto simp: am_swap_def Let_def split: option.splits)

lemma am_read_more: "am_read m p = Inr (m', p') \<Longrightarrow> abstract_mem.more m' = abstract_mem.more m"
  by (auto simp: am_read_def Let_def split: if_splits dest!: am_track_more)

lemma am_write_more:
  assumes "am_write m p = Inr (m', p')"
  shows "abstract_mem.more m' = abstract_mem.more m"
proof -
  obtain ok m1 p1 where "writeOK m p = Inr (ok, m1, p1)" using assms by (auto simp: am_write_def)
  moreover from writeOK_more [OF this] have "abstract_mem.more m1 = abstract_mem.more m" .
  ultimately show ?thesis using assms by (auto simp: am_write_def Let_def split: if_splits)
qed

lemma am_access_more: "am_access m p = Inr (m', p') \<Longrightarrow> abstract_mem.more m' = abstract_mem.more m"
  by (auto simp: am_access_def split: if_splits dest!: am_swap_more am_read_more am_write_more)

end
