(* ===== verification/Cache_Access.thy ===== *)
theory Cache_Access
  imports Tag_Policies MSHR_Queue Abstract_Memory
begin

text \<open>
  The cache of \<open>src/gem5_src/mem/cache/cache_impl.hh\<close>, \<open>cache.hh\<close>, \<open>base.hh\<close> and \<open>base.cc\<close>: its state, the accesses, fills,
  replacements and write-backs both its modes share, its atomic mode, and flushing. The tag store is virtual; the two
  modelled policies are the cases of \<open>repl\<close>. A pointer to a block is its position in the tag store or the temporary block.
  The miss registers live in the heap of \<open>MSHR\<close>, which the accesses only read. What the cache takes from its
  surroundings is in \<open>env\<close>: the clock, the random draw, and the contents of fresh memory. The port towards memory is a
  function on the state of whatever is behind it. A request object two packets share is copied back to the other packet
  after a call that may change it.
\<close>

section \<open>State\<close>

datatype repl = LRU_Policy | Random_Policy

datatype blk_ptr = Tag_Blk nat | Temp_Blk

record env =
  e_now :: tick
  e_draw :: nat
  e_garbage :: "nat \<Rightarrow> 8 word"
  e_ticksToCycles :: "tick \<Rightarrow> 64 word"
  e_clockEdge :: "64 word \<Rightarrow> tick"
  e_clockPeriod :: tick

record cache =
  c_tags :: tags
  c_repl :: repl
  c_tempBlock :: cache_blk
  c_mshrQueue :: mshr_queue
  c_writeBuffer :: mshr_queue
  c_blkSize :: "32 word"
  lookupLatency :: "64 word"
  forwardLatency :: "64 word"
  fillLatency :: "64 word"
  responseLatency :: "64 word"
  numTarget :: int
  forwardSnoops :: bool
  isTopLevel :: bool
  doFastWrites :: bool
  c_addrRanges :: "addr_range list"
  bypassCaches :: bool
  c_maxMasters :: nat
  missCount :: "64 word"
  c_exit :: bool
  c_hits :: "command \<Rightarrow> nat \<Rightarrow> nat"
  c_misses :: "command \<Rightarrow> nat \<Rightarrow> nat"
  c_writebacks :: nat

record cache_params =
  cp_mshrs :: int
  cp_demand_mshr_reserve :: int
  cp_write_buffers :: int
  cp_hit_latency :: "64 word"
  cp_response_latency :: "64 word"
  cp_tgts_per_mshr :: int
  cp_forward_snoops :: bool
  cp_is_top_level :: bool
  cp_max_miss_count :: "64 word"
  cp_addr_ranges :: "addr_range list"

text \<open>The line size, the number of masters and whether caches are bypassed are those of the system.\<close>

definition new_Cache ::
    "(nat \<Rightarrow> 8 word) \<Rightarrow> heap \<Rightarrow> 32 word \<Rightarrow> nat \<Rightarrow> bool \<Rightarrow> tags \<Rightarrow> repl \<Rightarrow> cache_params \<Rightarrow> (heap \<times> cache) res" where
  "new_Cache garbage h cacheLineSize masters bypass t r p =
     bindE (new_MSHRQueue h ''MSHRs'' (cp_mshrs p) 4 (cp_demand_mshr_reserve p) 0) (\<lambda>(h, mq).
     bindE (new_MSHRQueue h ''write buffer'' (cp_write_buffers p) (cp_mshrs p + 1000) 0 1) (\<lambda>(h, wb).
     Inr (h, \<lparr>c_tags = t, c_repl = r, c_tempBlock = new_CacheBlk\<lparr>blk_data := map garbage [0..<unat cacheLineSize]\<rparr>,
        c_mshrQueue = mq, c_writeBuffer = wb, c_blkSize = cacheLineSize, lookupLatency = cp_hit_latency p,
        forwardLatency = cp_hit_latency p, fillLatency = cp_response_latency p, responseLatency = cp_response_latency p,
        numTarget = cp_tgts_per_mshr p, forwardSnoops = cp_forward_snoops p, isTopLevel = cp_is_top_level p,
        doFastWrites = True, c_addrRanges = cp_addr_ranges p, bypassCaches = bypass, c_maxMasters = masters,
        missCount = cp_max_miss_count p, c_exit = False, c_hits = (\<lambda>_ _. 0), c_misses = (\<lambda>_ _. 0), c_writebacks = 0\<rparr>)))"

definition blk_at :: "'x cache_scheme \<Rightarrow> blk_ptr \<Rightarrow> cache_blk" where
  "blk_at c bp = (case bp of Tag_Blk k \<Rightarrow> ts_blks (c_tags c) ! k | Temp_Blk \<Rightarrow> c_tempBlock c)"

definition upd_at :: "'x cache_scheme \<Rightarrow> blk_ptr \<Rightarrow> (cache_blk \<Rightarrow> cache_blk) \<Rightarrow> 'x cache_scheme" where
  "upd_at c bp f =
     (case bp of
        Tag_Blk k \<Rightarrow> c\<lparr>c_tags := upd_blk (c_tags c) k f\<rparr>
      | Temp_Blk \<Rightarrow> c\<lparr>c_tempBlock := f (c_tempBlock c)\<rparr>)"

definition or_status :: "32 word \<Rightarrow> cache_blk \<Rightarrow> cache_blk" where
  "or_status m b = b\<lparr>blk_status := blk_status b OR m\<rparr>"

definition clear_status :: "32 word \<Rightarrow> cache_blk \<Rightarrow> cache_blk" where
  "clear_status m b = b\<lparr>blk_status := blk_status b AND NOT m\<rparr>"

section \<open>The tag store\<close>

definition tags_accessBlock :: "env \<Rightarrow> 'x cache_scheme \<Rightarrow> addr \<Rightarrow> bool \<Rightarrow> (nat option \<times> 64 word \<times> 'x cache_scheme) res" where
  "tags_accessBlock e c a sec =
     bindE (case c_repl c of
              LRU_Policy \<Rightarrow> lru_accessBlock (e_ticksToCycles e) (e_now e) (c_tags c) a sec
            | Random_Policy \<Rightarrow> Inr (rnd_accessBlock (e_ticksToCycles e) (e_now e) (c_tags c) a sec)) (\<lambda>(r, lat, t).
     Inr (r, lat, c\<lparr>c_tags := t\<rparr>))"

definition tags_findVictim :: "env \<Rightarrow> 'x cache_scheme \<Rightarrow> addr \<Rightarrow> nat res" where
  "tags_findVictim e c a =
     (case c_repl c of LRU_Policy \<Rightarrow> lru_findVictim (c_tags c) a | Random_Policy \<Rightarrow> rnd_findVictim (e_draw e) (c_tags c) a)"

definition tags_insertBlock :: "env \<Rightarrow> 'x cache_scheme \<Rightarrow> 's packet \<Rightarrow> nat \<Rightarrow> 'x cache_scheme res" where
  "tags_insertBlock e c pkt k =
     bindE (case c_repl c of
              LRU_Policy \<Rightarrow> lru_insertBlock (e_now e) (c_tags c) pkt k
            | Random_Policy \<Rightarrow> rnd_insertBlock (e_now e) (c_tags c) pkt k) (\<lambda>t. Inr (c\<lparr>c_tags := t\<rparr>))"

definition tags_invalidate :: "env \<Rightarrow> 'x cache_scheme \<Rightarrow> nat \<Rightarrow> 'x cache_scheme res" where
  "tags_invalidate e c k =
     bindE (case c_repl c of
              LRU_Policy \<Rightarrow> lru_invalidate (e_now e) (c_tags c) k
            | Random_Policy \<Rightarrow> rnd_invalidate (e_now e) (c_tags c) k) (\<lambda>t. Inr (c\<lparr>c_tags := t\<rparr>))"

text \<open>Giving up a block: the tag store forgets it unless it is the temporary one, then its state is cleared.\<close>

definition give_up :: "env \<Rightarrow> 'x cache_scheme \<Rightarrow> blk_ptr \<Rightarrow> 'x cache_scheme res" where
  "give_up e c bp =
     bindE (case bp of Tag_Blk k \<Rightarrow> tags_invalidate e c k | Temp_Blk \<Rightarrow> Inr c) (\<lambda>c. Inr (upd_at c bp blk_invalidate))"

section \<open>Base cache\<close>

definition blockAlign :: "'x cache_scheme \<Rightarrow> addr \<Rightarrow> addr" where
  "blockAlign c a = a AND NOT (ucast (c_blkSize c - 1))"

fun in_ranges :: "addr_range list \<Rightarrow> addr \<Rightarrow> bool res" where
  "in_ranges [] a = Inr False"
| "in_ranges (r # rs) a = bindE (contains r a) (\<lambda>b. if b then Inr True else in_ranges rs a)"

definition inRange :: "'x cache_scheme \<Rightarrow> addr \<Rightarrow> bool res" where
  "inRange c a = in_ranges (c_addrRanges c) a"

definition bump :: "(command \<Rightarrow> nat \<Rightarrow> nat) \<Rightarrow> 's packet \<Rightarrow> command \<Rightarrow> nat \<Rightarrow> nat" where
  "bump f pkt = f(pkt_cmd pkt := (f (pkt_cmd pkt))
     (unat (req_masterId (pkt_req pkt)) := f (pkt_cmd pkt) (unat (req_masterId (pkt_req pkt))) + 1))"

definition incMissCount :: "'x cache_scheme \<Rightarrow> 's packet \<Rightarrow> ('x cache_scheme \<times> 's packet) res" where
  "incMissCount c pkt =
     bindE (assertE (unat (req_masterId (pkt_req pkt)) < c_maxMasters c)) (\<lambda>_.
     (let c = c\<lparr>c_misses := bump (c_misses c) pkt\<rparr>;
          pkt = pkt\<lparr>pkt_req := incAccessDepth (pkt_req pkt)\<rparr>;
          c = (if missCount c \<noteq> 0
               then c\<lparr>missCount := missCount c - 1, c_exit := c_exit c \<or> missCount c - 1 = 0\<rparr> else c)
      in Inr (c, pkt)))"

definition incHitCount :: "'x cache_scheme \<Rightarrow> 's packet \<Rightarrow> 'x cache_scheme res" where
  "incHitCount c pkt =
     bindE (assertE (unat (req_masterId (pkt_req pkt)) < c_maxMasters c)) (\<lambda>_.
     Inr (c\<lparr>c_hits := bump (c_hits c) pkt\<rparr>))"

section \<open>Serving a request from a block\<close>

definition cmpAndSwap :: "env \<Rightarrow> 'x cache_scheme \<Rightarrow> blk_ptr \<Rightarrow> 's packet \<Rightarrow> ('x cache_scheme \<times> 's packet) res" where
  "cmpAndSwap e c bp pkt =
     bindE (assertE (isRequest (pkt_cmd pkt))) (\<lambda>_.
     bindE (getAddr pkt) (\<lambda>a. bindE (getSize pkt) (\<lambda>n.
     (let off = sint (extractBlkOffset (c_tags c) a); d = blk_data (blk_at c bp) in
      bindE (assertE (unat n \<le> 8)) (\<lambda>_.
      bindE (writeData pkt (map (e_garbage e) [0..<8]) 0) (\<lambda>overwrite_val.
      bindE (setData False pkt d off) (\<lambda>pkt.
      bindE (swap_condition pkt (take (unat n) (drop (nat off) d))) (\<lambda>overwrite_mem.
      if overwrite_mem then
        bindE (memcpy d off overwrite_val 0 (unat n)) (\<lambda>d'.
        Inr (upd_at c bp (\<lambda>b. or_status BlkDirty (b\<lparr>blk_data := d'\<rparr>)), pkt))
      else Inr (c, pkt)))))))))"

definition satisfy_write :: "'x cache_scheme \<Rightarrow> blk_ptr \<Rightarrow> 's packet \<Rightarrow> ('x cache_scheme \<times> 's packet) res" where
  "satisfy_write c bp pkt =
     bindE (assertE (blk_isWritable (blk_at c bp))) (\<lambda>_.
     bindE (checkWrite (blk_at c bp) pkt) (\<lambda>(ok, b, pkt).
     bindE (if ok then bindE (writeDataToBlock pkt (blk_data b) (c_blkSize c)) (\<lambda>d. Inr (b\<lparr>blk_data := d\<rparr>))
            else Inr b) (\<lambda>b.
     Inr (upd_at c bp (\<lambda>_. or_status BlkDirty b), pkt))))"

text \<open>A request for a whole block, from a cache above, may take the block over or share it.\<close>

definition hand_over ::
    "env \<Rightarrow> 'x cache_scheme \<Rightarrow> blk_ptr \<Rightarrow> bool \<Rightarrow> bool \<Rightarrow> 's packet \<Rightarrow> ('x cache_scheme \<times> 's packet) res" where
  "hand_over e c bp deferred_response pending_downgrade pkt =
     (let b = blk_at c bp in
      if needsExclusive (pkt_cmd pkt) then
        bindE (if blk_isDirty b then assertMemInhibit pkt else Inr pkt) (\<lambda>pkt.
        bindE (give_up e c bp) (\<lambda>c. Inr (c, pkt)))
      else if blk_isWritable b \<and> \<not> pending_downgrade \<and> \<not> sharedAsserted pkt \<and> \<not> req_isInstFetch (pkt_req pkt) then
        if blk_isDirty b then
          if \<not> deferred_response \<and> \<not> isTopLevel c then
            bindE (assertMemInhibit pkt) (\<lambda>pkt. Inr (upd_at c bp (clear_status BlkDirty), pkt))
          else Inr (c, assertShared pkt)
        else Inr (c, pkt)
      else Inr (c, assertShared pkt))"

definition satisfy_read ::
    "env \<Rightarrow> 'x cache_scheme \<Rightarrow> blk_ptr \<Rightarrow> bool \<Rightarrow> bool \<Rightarrow> 's packet \<Rightarrow> ('x cache_scheme \<times> 's packet) res" where
  "satisfy_read e c bp deferred_response pending_downgrade pkt =
     bindE (if isLLSC (pkt_cmd pkt)
            then bindE (trackLoadLocked (blk_at c bp) pkt) (\<lambda>b. Inr (upd_at c bp (\<lambda>_. b))) else Inr c) (\<lambda>c.
     bindE (setDataFromBlock False pkt (blk_data (blk_at c bp)) (c_blkSize c)) (\<lambda>pkt.
     bindE (getSize pkt) (\<lambda>n.
     if n = c_blkSize c then hand_over e c bp deferred_response pending_downgrade pkt else Inr (c, pkt))))"

definition satisfyCpuSideRequest ::
    "env \<Rightarrow> 'x cache_scheme \<Rightarrow> 's packet \<Rightarrow> blk_ptr option \<Rightarrow> bool \<Rightarrow> bool \<Rightarrow> ('x cache_scheme \<times> 's packet) res" where
  "satisfyCpuSideRequest e c pkt blk deferred_response pending_downgrade =
     bindE (assertE (isRequest (pkt_cmd pkt))) (\<lambda>_.
     case blk of
       None \<Rightarrow> Inl Assert_Failed
     | Some bp \<Rightarrow>
         bindE (assertE (blk_isValid (blk_at c bp))) (\<lambda>_.
         bindE (getOffset pkt (c_blkSize c)) (\<lambda>off. bindE (getSize pkt) (\<lambda>n.
         bindE (assertE (off + ucast n \<le> ucast (c_blkSize c))) (\<lambda>_.
         if pkt_cmd pkt = SwapReq then cmpAndSwap e c bp pkt
         else if isWrite (pkt_cmd pkt) \<and> (\<not> isWriteInvalidate (pkt_cmd pkt) \<or> isTopLevel c) then satisfy_write c bp pkt
         else if isRead (pkt_cmd pkt) then satisfy_read e c bp deferred_response pending_downgrade pkt
         else
           bindE (assertE (isUpgrade (pkt_cmd pkt) \<or> isWriteInvalidate (pkt_cmd pkt) \<and> \<not> isTopLevel c)) (\<lambda>_.
           bindE (assertE (bp \<noteq> Temp_Blk)) (\<lambda>_.
           bindE (give_up e c bp) (\<lambda>c. Inr (c, pkt)))))))))"

section \<open>Replacement and fill\<close>

definition writebackBlk :: "env \<Rightarrow> 'x cache_scheme \<Rightarrow> blk_ptr \<Rightarrow> (sender packet \<times> 'x cache_scheme) res" where
  "writebackBlk e c bp =
     (let b = blk_at c bp in
      bindE (assertE (blk_isValid b \<and> blk_isDirty b)) (\<lambda>_.
      (let c = c\<lparr>c_writebacks := c_writebacks c + 1\<rparr>;
           r = new_Request_phys (regenerateBlkAddr (c_tags c) (blk_tag b) (blk_set b)) (c_blkSize c) 0 0 (e_now e) in
       bindE (if blk_isSecure b then setFlags r SECURE else Inr r) (\<lambda>r.
       (let r = set_taskId r (blk_task_id b);
            c = upd_at c bp (\<lambda>b. b\<lparr>blk_task_id := task_Unknown, tickInserted := e_now e\<rparr>);
            writeback = new_Packet r Writeback;
            writeback = (if blk_isWritable b then setSupplyExclusive writeback else writeback) in
        bindE (allocate (e_garbage e) writeback) (\<lambda>writeback.
        bindE (getPtr writeback) (\<lambda>d.
        bindE (memcpy d 0 (blk_data b) 0 (unat (c_blkSize c))) (\<lambda>d.
        Inr (writeback\<lparr>pkt_data := Some d\<rparr>, upd_at c bp (clear_status BlkDirty))))))))))"

definition allocateBlock ::
    "env \<Rightarrow> heap \<Rightarrow> 'x cache_scheme \<Rightarrow> addr \<Rightarrow> sender packet list \<Rightarrow>
     (nat option \<times> 'x cache_scheme \<times> sender packet list) res" where
  "allocateBlock e h c a wbs =
     bindE (tags_findVictim e c a) (\<lambda>k.
     (let b = ts_blks (c_tags c) ! k in
      if blk_isValid b then
        (let repl_addr = regenerateBlkAddr (c_tags c) (blk_tag b) (blk_set b) in
         case findMatch h (c_mshrQueue c) repl_addr (blk_isSecure b) of
           Some i \<Rightarrow>
             bindE (assertE (\<not> blk_isWritable b \<or> blk_isDirty b)) (\<lambda>_.
             bindE (assertE (mshr_needsExclusive (h ! i))) (\<lambda>_. Inr (None, c, wbs)))
         | None \<Rightarrow>
             if blk_isDirty b
             then bindE (writebackBlk e c (Tag_Blk k)) (\<lambda>(wb, c). Inr (Some k, c, wbs @ [wb]))
             else Inr (Some k, c, wbs))
      else Inr (Some k, c, wbs)))"

text \<open>A fill without a block finds one: a victim of the tag store or, if that must stay, the temporary block.\<close>

definition fill_target ::
    "env \<Rightarrow> heap \<Rightarrow> 'x cache_scheme \<Rightarrow> sender packet \<Rightarrow> sender packet list \<Rightarrow>
     (blk_ptr \<times> 'x cache_scheme \<times> sender packet list) res" where
  "fill_target e h c pkt wbs =
     bindE (getAddr pkt) (\<lambda>a.
     bindE (assertE (hasData (pkt_cmd pkt))) (\<lambda>_.
     bindE (assertE (isRead (pkt_cmd pkt) \<or> isWriteInvalidate (pkt_cmd pkt))) (\<lambda>_.
     bindE (allocateBlock e h c a wbs) (\<lambda>(r, c, wbs).
     case r of
       None \<Rightarrow>
         bindE (assertE (\<not> blk_isValid (c_tempBlock c))) (\<lambda>_.
         Inr (Temp_Blk, upd_at c Temp_Blk (\<lambda>b. b\<lparr>blk_set := extractSet (c_tags c) a, blk_tag := extractTag (c_tags c) a\<rparr>), wbs))
     | Some k \<Rightarrow>
         bindE (tags_insertBlock e c pkt k) (\<lambda>c.
         bindE (assertE (\<not> blk_isValid (blk_at c (Tag_Blk k)))) (\<lambda>_. Inr (Tag_Blk k, c, wbs)))))))"

definition handleFill ::
    "env \<Rightarrow> heap \<Rightarrow> 'x cache_scheme \<Rightarrow> sender packet \<Rightarrow> blk_ptr option \<Rightarrow> sender packet list \<Rightarrow>
     (blk_ptr \<times> 'x cache_scheme \<times> sender packet list) res" where
  "handleFill e h c pkt blk wbs =
     bindE (assertE (isResponse (pkt_cmd pkt) \<or> isWriteInvalidate (pkt_cmd pkt))) (\<lambda>_.
     bindE (getAddr pkt) (\<lambda>a. bindE (isSecure pkt) (\<lambda>is_secure.
     bindE (case blk of
              None \<Rightarrow> fill_target e h c pkt wbs
            | Some bp \<Rightarrow>
                bindE (assertE (blk_tag (blk_at c bp) = extractTag (c_tags c) a)) (\<lambda>_.
                bindE (assertE (hasData (pkt_cmd pkt) \<or> blk_isValid (blk_at c bp))) (\<lambda>_. Inr (bp, c, wbs)))) (\<lambda>(bp, c, wbs).
     (let c = (if is_secure then upd_at c bp (or_status BlkSecure) else c);
          c = upd_at c bp (or_status (BlkValid OR BlkReadable));
          c = (if \<not> sharedAsserted pkt
               then upd_at c bp (or_status (if memInhibitAsserted pkt then BlkWritable OR BlkDirty else BlkWritable)) else c) in
      bindE (if isRead (pkt_cmd pkt) then
               bindE (assertE (hasData (pkt_cmd pkt))) (\<lambda>_.
               bindE (getSize pkt) (\<lambda>n.
               bindE (assertE (n = c_blkSize c)) (\<lambda>_.
               bindE (getPtr pkt) (\<lambda>d.
               bindE (memcpy (blk_data (blk_at c bp)) 0 d 0 (unat n)) (\<lambda>d.
               Inr (upd_at c bp (\<lambda>b. b\<lparr>blk_data := d\<rparr>)))))))
             else Inr c) (\<lambda>c.
      Inr (bp, upd_at c bp (\<lambda>b. b\<lparr>whenReady :=
             e_clockEdge e 0 + fillLatency c * e_clockPeriod e + ucast (payloadDelay pkt)\<rparr>), wbs)))))))"

section \<open>Access\<close>

definition access_uncacheable ::
    "env \<Rightarrow> 'x cache_scheme \<Rightarrow> sender packet \<Rightarrow> sender packet list \<Rightarrow> ('x cache_scheme \<times> sender packet list) res" where
  "access_uncacheable e c pkt wbs =
     (let c = (if req_isClearLL (pkt_req pkt) then c\<lparr>c_tags := clearLocks (c_tags c)\<rparr> else c) in
      bindE (getAddr pkt) (\<lambda>a. bindE (isSecure pkt) (\<lambda>sec.
      case findBlock (c_tags c) a sec of
        None \<Rightarrow> Inr (c, wbs)
      | Some k \<Rightarrow>
          if blk_isValid (blk_at c (Tag_Blk k)) then
            bindE (if blk_isDirty (blk_at c (Tag_Blk k))
                   then bindE (writebackBlk e c (Tag_Blk k)) (\<lambda>(wb, c). Inr (c, wbs @ [wb])) else Inr (c, wbs)) (\<lambda>(c, wbs).
            bindE (give_up e c (Tag_Blk k)) (\<lambda>c. Inr (c, wbs)))
          else Inr (c, wbs))))"

text \<open>A write-back from above is stored whether or not the block is present.\<close>

definition access_writeback ::
    "env \<Rightarrow> heap \<Rightarrow> 'x cache_scheme \<Rightarrow> sender packet \<Rightarrow> nat option \<Rightarrow> sender packet list \<Rightarrow>
     (bool \<times> blk_ptr option \<times> 'x cache_scheme \<times> sender packet \<times> sender packet list) res" where
  "access_writeback e h c pkt r wbs =
     bindE (getAddr pkt) (\<lambda>a. bindE (getSize pkt) (\<lambda>n. bindE (isSecure pkt) (\<lambda>sec.
     bindE (assertE (c_blkSize c = n)) (\<lambda>_.
     bindE (case r of
              Some k \<Rightarrow> Inr (Some k, c, wbs)
            | None \<Rightarrow>
                bindE (allocateBlock e h c a wbs) (\<lambda>(r, c, wbs).
                case r of
                  None \<Rightarrow> Inr (None, c, wbs)
                | Some k \<Rightarrow>
                    bindE (tags_insertBlock e c pkt k) (\<lambda>c.
                    Inr (Some k, upd_at c (Tag_Blk k) (\<lambda>b. b\<lparr>blk_status := (BlkValid OR BlkReadable) OR
                                   (if sec then BlkSecure else 0)\<rparr>), wbs)))) (\<lambda>(r, c, wbs).
     case r of
       None \<Rightarrow> bindE (incMissCount c pkt) (\<lambda>(c, pkt). Inr (False, None, c, pkt, wbs))
     | Some k \<Rightarrow>
         (let bp = Tag_Blk k;
              c = upd_at c bp (or_status (if isSupplyExclusive pkt then BlkDirty OR BlkWritable else BlkDirty)) in
          bindE (assertE (\<not> needsResponse (pkt_cmd pkt))) (\<lambda>_.
          bindE (getPtr pkt) (\<lambda>d.
          bindE (memcpy (blk_data (blk_at c bp)) 0 d 0 (unat (c_blkSize c))) (\<lambda>d.
          bindE (incHitCount (upd_at c bp (\<lambda>b. b\<lparr>blk_data := d\<rparr>)) pkt) (\<lambda>c.
          Inr (True, Some bp, c, pkt, wbs)))))))))))"

text \<open>The result is whether the request was satisfied, the block, the latency, the cache, the packet and the write-backs.\<close>

definition access ::
    "env \<Rightarrow> heap \<Rightarrow> 'x cache_scheme \<Rightarrow> sender packet \<Rightarrow> 64 word \<Rightarrow> sender packet list \<Rightarrow>
     (bool \<times> blk_ptr option \<times> 64 word \<times> 'x cache_scheme \<times> sender packet \<times> sender packet list) res" where
  "access e h c pkt lat wbs =
     bindE (assertE (isRequest (pkt_cmd pkt))) (\<lambda>_.
     if req_isUncacheable (pkt_req pkt) then
       bindE (access_uncacheable e c pkt wbs) (\<lambda>(c, wbs). Inr (False, None, lookupLatency c, c, pkt, wbs))
     else
       bindE (getAddr pkt) (\<lambda>a. bindE (isSecure pkt) (\<lambda>sec.
       bindE (tags_accessBlock e c a sec) (\<lambda>(r, lat, c).
       if pkt_cmd pkt = Writeback then
         bindE (access_writeback e h c pkt r wbs) (\<lambda>(sat, blk, c, pkt, wbs). Inr (sat, blk, lat, c, pkt, wbs))
       else
         (let blk = map_option Tag_Blk r in
          if (case blk of None \<Rightarrow> False
              | Some bp \<Rightarrow> if needsExclusive (pkt_cmd pkt) then blk_isWritable (blk_at c bp) else blk_isReadable (blk_at c bp)) then
            bindE (incHitCount c pkt) (\<lambda>c.
            bindE (satisfyCpuSideRequest e c pkt blk False False) (\<lambda>(c, pkt). Inr (True, blk, lat, c, pkt, wbs)))
          else
            bindE (incMissCount c pkt) (\<lambda>(c, pkt).
            if blk = None \<and> isLLSC (pkt_cmd pkt) \<and> isWrite (pkt_cmd pkt)
            then Inr (True, blk, lat, c, pkt\<lparr>pkt_req := setExtraData (pkt_req pkt) 0\<rparr>, wbs)
            else Inr (False, blk, lat, c, pkt, wbs)))))))"

definition promoteWholeLineWrites :: "'x cache_scheme \<Rightarrow> 's packet \<Rightarrow> 's packet res" where
  "promoteWholeLineWrites c pkt =
     (if doFastWrites c \<and> pkt_cmd pkt = WriteReq then
        bindE (getSize pkt) (\<lambda>n.
        if n = c_blkSize c then
          bindE (getOffset pkt (c_blkSize c)) (\<lambda>off.
          if off = 0 then bindE (assertE (isTopLevel c)) (\<lambda>_. Inr (pkt\<lparr>pkt_cmd := WriteInvalidateReq\<rparr>)) else Inr pkt)
        else Inr pkt)
      else Inr pkt)"

definition bus_command :: "sender packet \<Rightarrow> bool \<Rightarrow> bool \<Rightarrow> bool \<Rightarrow> command res" where
  "bus_command cpu_pkt blkValid writable needs_exclusive =
     (if blkValid then
        bindE (assertE needs_exclusive) (\<lambda>_. bindE (assertE (\<not> writable)) (\<lambda>_.
        Inr (if isLLSC (pkt_cmd cpu_pkt) then SCUpgradeReq else UpgradeReq)))
      else if pkt_cmd cpu_pkt = SCUpgradeFailReq \<or> pkt_cmd cpu_pkt = StoreCondFailReq then Inr SCUpgradeFailReq
      else if isWriteInvalidate (pkt_cmd cpu_pkt) then Inr (pkt_cmd cpu_pkt)
      else Inr (if needs_exclusive then ReadExReq else ReadReq))"

definition getBusPacket ::
    "env \<Rightarrow> 'x cache_scheme \<Rightarrow> sender packet \<Rightarrow> blk_ptr option \<Rightarrow> bool \<Rightarrow> (sender packet option) res" where
  "getBusPacket e c cpu_pkt blk needs_exclusive =
     (let blkValid = (case blk of None \<Rightarrow> False | Some bp \<Rightarrow> blk_isValid (blk_at c bp)) in
      if req_isUncacheable (pkt_req cpu_pkt) then Inr None
      else if \<not> blkValid \<and> (pkt_cmd cpu_pkt = Writeback \<or> isUpgrade (pkt_cmd cpu_pkt)) then Inr None
      else
        bindE (assertE (needsResponse (pkt_cmd cpu_pkt))) (\<lambda>_.
        bindE (bus_command cpu_pkt blkValid (case blk of None \<Rightarrow> False | Some bp \<Rightarrow> blk_isWritable (blk_at c bp)) needs_exclusive) (\<lambda>cmd.
        (let pkt = new_Packet_blk (pkt_req cpu_pkt) cmd (c_blkSize c);
             pkt = (if sharedAsserted cpu_pkt then assertShared pkt else pkt) in
         bindE (getAddr pkt) (\<lambda>a.
         bindE (assertE (a = blockAlign c a)) (\<lambda>_.
         bindE (allocate (e_garbage e) pkt) (\<lambda>pkt. Inr (Some pkt))))))))"

section \<open>Atomic mode\<close>

text \<open>The port towards memory: the packet is sent and comes back changed, after a time.\<close>

type_synonym 'm port = "'m \<Rightarrow> sender packet \<Rightarrow> (tick \<times> 'm \<times> sender packet) res"

fun send_writebacks :: "'m port \<Rightarrow> 'm \<Rightarrow> sender packet list \<Rightarrow> 'm res" where
  "send_writebacks send m [] = Inr m"
| "send_writebacks send m (wb # wbs) = bindE (send m wb) (\<lambda>(_, m, _). send_writebacks send m wbs)"

text \<open>What an atomic miss does with the response of the level below.\<close>

definition atomic_response ::
    "env \<Rightarrow> heap \<Rightarrow> 'x cache_scheme \<Rightarrow> sender packet \<Rightarrow> sender packet \<Rightarrow> blk_ptr option \<Rightarrow>
     ('x cache_scheme \<times> sender packet \<times> sender packet list) res" where
  "atomic_response e h c pkt bus_pkt blk =
     (if needsResponse (pkt_cmd pkt) then
        bindE (assertE (isResponse (pkt_cmd bus_pkt))) (\<lambda>_.
        if isError (pkt_cmd bus_pkt) then
          bindE (makeResponse pkt) (\<lambda>pkt. bindE (copyError pkt bus_pkt) (\<lambda>pkt. Inr (c, pkt, [])))
        else if isWriteInvalidate (pkt_cmd pkt) then
          if isTopLevel c then
            bindE (handleFill e h c pkt blk []) (\<lambda>(bp, c, wbs).
            bindE (satisfyCpuSideRequest e c pkt (Some bp) False False) (\<lambda>(c, pkt). Inr (c, pkt, wbs)))
          else if blk \<noteq> None then
            bindE (satisfyCpuSideRequest e c pkt blk False False) (\<lambda>(c, pkt). Inr (c, pkt, []))
          else Inr (c, pkt, [])
        else if isRead (pkt_cmd bus_pkt) \<or> pkt_cmd bus_pkt = UpgradeResp then
          bindE (handleFill e h c bus_pkt blk []) (\<lambda>(bp, c, wbs).
          bindE (satisfyCpuSideRequest e c pkt (Some bp) False False) (\<lambda>(c, pkt). Inr (c, pkt, wbs)))
        else bindE (makeResponse pkt) (\<lambda>pkt. Inr (c, pkt, [])))
      else Inr (c, pkt, []))"

definition atomic_miss ::
    "env \<Rightarrow> heap \<Rightarrow> 'm port \<Rightarrow> 'x cache_scheme \<Rightarrow> 'm \<Rightarrow> sender packet \<Rightarrow> blk_ptr option \<Rightarrow>
     (64 word \<times> 'x cache_scheme \<times> 'm \<times> sender packet \<times> sender packet list) res" where
  "atomic_miss e h send c m pkt blk =
     bindE (getBusPacket e c pkt blk (needsExclusive (pkt_cmd pkt))) (\<lambda>bus.
     case bus of
       None \<Rightarrow> bindE (send m pkt) (\<lambda>(t, m, pkt). Inr (e_ticksToCycles e t, c, m, pkt, []))
     | Some bus_pkt \<Rightarrow>
         bindE (send m bus_pkt) (\<lambda>(t, m, bus_pkt).
         bindE (atomic_response e h c (pkt\<lparr>pkt_req := pkt_req bus_pkt\<rparr>) bus_pkt blk) (\<lambda>(c, pkt, wbs).
         Inr (e_ticksToCycles e t, c, m, pkt, wbs))))"

text \<open>A request another cache has claimed only invalidates this one and those below.\<close>

definition atomic_inhibited ::
    "env \<Rightarrow> 'm port \<Rightarrow> 'x cache_scheme \<Rightarrow> 'm \<Rightarrow> sender packet \<Rightarrow> (tick \<times> 'x cache_scheme \<times> 'm \<times> sender packet) res" where
  "atomic_inhibited e send c m pkt =
     (if isInvalidate (pkt_cmd pkt) then
        bindE (getAddr pkt) (\<lambda>a. bindE (isSecure pkt) (\<lambda>sec.
        bindE (case findBlock (c_tags c) a sec of
                 None \<Rightarrow> Inr c
               | Some k \<Rightarrow> if blk_isValid (blk_at c (Tag_Blk k)) then give_up e c (Tag_Blk k) else Inr c) (\<lambda>c.
        bindE (send m pkt) (\<lambda>(t, m, pkt).
        Inr ((lookupLatency c + e_ticksToCycles e t) * e_clockPeriod e, c, m, pkt)))))
      else Inr (lookupLatency c * e_clockPeriod e, c, m, pkt))"

definition recvAtomic ::
    "env \<Rightarrow> heap \<Rightarrow> 'm port \<Rightarrow> 'x cache_scheme \<Rightarrow> 'm \<Rightarrow> sender packet \<Rightarrow> (tick \<times> 'x cache_scheme \<times> 'm \<times> sender packet) res" where
  "recvAtomic e h send c m pkt =
     (if bypassCaches c then
        bindE (send m pkt) (\<lambda>(t, m, pkt). Inr (e_ticksToCycles e t, c, m, pkt))
      else
        bindE (promoteWholeLineWrites c pkt) (\<lambda>pkt.
        if memInhibitAsserted pkt then atomic_inhibited e send c m pkt
        else
          bindE (access e h c pkt (lookupLatency c) []) (\<lambda>(satisfied, blk, lat, c, pkt, wbs).
          bindE (send_writebacks send m wbs) (\<lambda>m.
          bindE (if satisfied then Inr (0, c, m, pkt, []) else atomic_miss e h send c m pkt blk) (\<lambda>(lat', c, m, pkt, wbs).
          bindE (send_writebacks send m wbs) (\<lambda>m.
          bindE (if needsResponse (pkt_cmd pkt) then makeResponse pkt else Inr pkt) (\<lambda>pkt.
          Inr ((lat + lat') * e_clockPeriod e, c, m, pkt))))))))"

section \<open>Flushing\<close>

definition writebackVisitor ::
    "env \<Rightarrow> ('m \<Rightarrow> sender packet \<Rightarrow> ('m \<times> sender packet) res) \<Rightarrow> 'x cache_scheme \<Rightarrow> 'm \<Rightarrow> nat \<Rightarrow> ('x cache_scheme \<times> 'm) res" where
  "writebackVisitor e sendFunctional c m k =
     (let b = ts_blks (c_tags c) ! k in
      if blk_isDirty b then
        bindE (assertE (blk_isValid b)) (\<lambda>_.
        (let r = set_taskId (new_Request_phys (regenerateBlkAddr (c_tags c) (blk_tag b) (blk_set b)) (c_blkSize c) 0 1 (e_now e))
                   (blk_task_id b) in
         bindE (dataStatic (blk_data b) (new_Packet r WriteReq)) (\<lambda>p.
         bindE (sendFunctional m p) (\<lambda>(m, _).
         Inr (upd_at c (Tag_Blk k) (clear_status BlkDirty), m)))))
      else Inr (c, m))"

definition invalidateVisitor :: "env \<Rightarrow> 'x cache_scheme \<Rightarrow> nat \<Rightarrow> 'x cache_scheme res" where
  "invalidateVisitor e c k =
     (let b = ts_blks (c_tags c) ! k in
      if blk_isValid b then bindE (assertE (\<not> blk_isDirty b)) (\<lambda>_. give_up e c (Tag_Blk k)) else Inr c)"

fun visit_writeback ::
    "env \<Rightarrow> ('m \<Rightarrow> sender packet \<Rightarrow> ('m \<times> sender packet) res) \<Rightarrow> 'x cache_scheme \<Rightarrow> 'm \<Rightarrow> nat list \<Rightarrow> ('x cache_scheme \<times> 'm) res" where
  "visit_writeback e sendFunctional c m [] = Inr (c, m)"
| "visit_writeback e sendFunctional c m (k # ks) =
     bindE (writebackVisitor e sendFunctional c m k) (\<lambda>(c, m). visit_writeback e sendFunctional c m ks)"

fun visit_invalidate :: "env \<Rightarrow> 'x cache_scheme \<Rightarrow> nat list \<Rightarrow> 'x cache_scheme res" where
  "visit_invalidate e c [] = Inr c"
| "visit_invalidate e c (k # ks) = bindE (invalidateVisitor e c k) (\<lambda>c. visit_invalidate e c ks)"

text \<open>The visitors never stop early, so they see every block in the order of the array.\<close>

definition memWriteback ::
    "env \<Rightarrow> ('m \<Rightarrow> sender packet \<Rightarrow> ('m \<times> sender packet) res) \<Rightarrow> 'x cache_scheme \<Rightarrow> 'm \<Rightarrow> ('x cache_scheme \<times> 'm) res" where
  "memWriteback e sendFunctional c m = visit_writeback e sendFunctional c m [0..<length (ts_blks (c_tags c))]"

definition memInvalidate :: "env \<Rightarrow> 'x cache_scheme \<Rightarrow> 'x cache_scheme res" where
  "memInvalidate e c = visit_invalidate e c [0..<length (ts_blks (c_tags c))]"

definition c_isDirty :: "'x cache_scheme \<Rightarrow> bool" where
  "c_isDirty c \<longleftrightarrow> list_ex blk_isDirty (ts_blks (c_tags c))"

definition inCache :: "'x cache_scheme \<Rightarrow> addr \<Rightarrow> bool \<Rightarrow> bool" where
  "inCache c a sec \<longleftrightarrow> findBlock (c_tags c) a sec \<noteq> None"

definition inMissQueue :: "heap \<Rightarrow> 'x cache_scheme \<Rightarrow> addr \<Rightarrow> bool \<Rightarrow> bool" where
  "inMissQueue h c a sec \<longleftrightarrow> findMatch h (c_mshrQueue c) a sec \<noteq> None"

end
