(* ===== verification/Tag_Interface.thy ===== *)
theory Tag_Interface
  imports Tag_Policies
begin

text \<open>
  The interface through which the cache uses its tag store, whatever the replacement policy: \<open>accessBlock\<close>, \<open>findVictim\<close>,
  \<open>insertBlock\<close> and \<open>invalidate\<close>. The laws say which blocks each finds and changes. Between \<open>insertBlock\<close> and the first
  status bit, and between \<open>invalidate\<close> and clearing the block, the store is not consistent; the laws speak about what
  the cache completes. Both policies provide it.
\<close>

definition same_geom :: "tags \<Rightarrow> tags \<Rightarrow> bool" where
  "same_geom t t' \<longleftrightarrow> ts_assoc t' = ts_assoc t \<and> numSets t' = numSets t \<and> setShift t' = setShift t \<and>
     tagShift t' = tagShift t \<and> setMask t' = setMask t \<and> blkMask t' = blkMask t \<and> ts_blkSize t' = ts_blkSize t \<and>
     maxMasters t' = maxMasters t"

definition uncounted :: "cache_blk \<Rightarrow> cache_blk" where
  "uncounted b = b\<lparr>refCount := 0\<rparr>"

definition forgotten :: "tick \<Rightarrow> cache_blk \<Rightarrow> cache_blk" where
  "forgotten now b = b\<lparr>srcMasterId := invldMasterId, blk_task_id := task_Unknown, tickInserted := now\<rparr>"

lemma same_frame_geom: "same_frame t t' \<Longrightarrow> same_geom t t'"
  by (simp add: same_frame_def same_geom_def)

lemma same_geom_refl [simp]: "same_geom t t"
  by (simp add: same_geom_def)

lemma same_geom_trans: "same_geom t t' \<Longrightarrow> same_geom t' t'' \<Longrightarrow> same_geom t t''"
  by (simp add: same_geom_def)

lemma same_geom_fields [simp]: "same_geom t (t'\<lparr>ts_sets := x\<rparr>) = same_geom t t'" "same_geom t (t'\<lparr>ts_blks := y\<rparr>) = same_geom t t'"
  by (simp_all add: same_geom_def)

lemma same_geom_addr:
  assumes "same_geom t t'"
  shows "extractTag t' = extractTag t" "extractSet t' = extractSet t" "blkAlign t' = blkAlign t"
    "regenerateBlkAddr t' = regenerateBlkAddr t" "extractBlkOffset t' = extractBlkOffset t" "tags_geom t' = tags_geom t"
  using assms
  by (auto simp: same_geom_def extractTag_def extractSet_def blkAlign_def regenerateBlkAddr_def extractBlkOffset_def
      tags_geom_def fun_eq_iff)

locale tag_policy =
  fixes now :: tick
    and accessBlock :: "tags \<Rightarrow> addr \<Rightarrow> bool \<Rightarrow> (nat option \<times> 64 word \<times> tags) res"
    and findVictim :: "tags \<Rightarrow> addr \<Rightarrow> nat res"
    and insertBlock :: "tags \<Rightarrow> 's packet \<Rightarrow> nat \<Rightarrow> tags res"
    and invalidate :: "tags \<Rightarrow> nat \<Rightarrow> tags res"
  assumes access_law: "tags_inv t \<Longrightarrow>
      \<exists>lat t'. accessBlock t a sec = Inr (findBlock t a sec, lat, t') \<and> tags_inv t' \<and> same_geom t t' \<and>
        findBlock t' = findBlock t \<and> map uncounted (ts_blks t') = map uncounted (ts_blks t)"
    and victim_law: "tags_inv t \<Longrightarrow> \<exists>k. findVictim t a = Inr k \<and> k \<in> set (the_set t a)"
    and insert_law: "tags_inv t \<Longrightarrow> k \<in> set (the_set t (pkt_addr p)) \<Longrightarrow> isSet (pkt_flags p) VALID_ADDR \<Longrightarrow>
      unat (req_masterId (pkt_req p)) < maxMasters t \<Longrightarrow>
      \<exists>t'. insertBlock t p k = Inr t' \<and> same_geom t t' \<and>
        ts_blks t' = (ts_blks t)[k := inserted_blk now t p (ts_blks t ! k)] \<and>
        (\<forall>st. isSet st BlkValid \<longrightarrow> findBlock t (pkt_addr p) (isSet st BlkSecure) = None \<longrightarrow>
           tags_inv (set_status t' k st) \<and>
           (\<forall>a s. findBlock (set_status t' k st) a s =
              (if blkAlign t a = blkAlign t (pkt_addr p) \<and> s = isSet st BlkSecure then Some k
               else if findBlock t a s = Some k then None else findBlock t a s)))"
    and invalidate_law: "tags_inv t \<Longrightarrow> k \<in> set (the_set t a) \<Longrightarrow> blk_isValid (ts_blks t ! k) \<Longrightarrow>
      \<exists>t'. invalidate t k = Inr t' \<and> same_geom t t' \<and>
        ts_blks t' = (ts_blks t)[k := forgotten now (ts_blks t ! k)] \<and> tags_inv (drop_blk t' k) \<and>
        (\<forall>x s. findBlock (drop_blk t' k) x s = (if findBlock t x s = Some k then None else findBlock t x s))"

section \<open>Random replacement\<close>

lemma base_access_blks:
  assumes "tags_inv t"
  shows "\<exists>lat t'. base_accessBlock ttc now t a sec = (findBlock t a sec, lat, t') \<and> tags_inv t' \<and> same_frame t t' \<and>
     findBlock t' = findBlock t \<and> map uncounted (ts_blks t') = map uncounted (ts_blks t)"
proof -
  obtain r lat t' where acc: "base_accessBlock ttc now t a sec = (r, lat, t')" by (metis prod_cases3)
  note b = base_access_inv [OF assms acc]
  have "map uncounted (ts_blks t') = map uncounted (ts_blks t)"
  proof (cases r)
    case None
    then show ?thesis using acc by (auto simp: base_accessBlock_def Let_def split: option.splits if_splits)
  next
    case (Some k)
    then have "ts_blks t' = (ts_blks t)[k := (ts_blks t ! k)\<lparr>refCount := refCount (ts_blks t ! k) + 1\<rparr>]"
      using acc by (auto simp: base_accessBlock_def Let_def split: option.splits if_splits)
    then show ?thesis by (simp only:) (rule map_update_same, simp add: uncounted_def)
  qed
  then show ?thesis using acc b by auto
qed

lemma base_insert_law:
  assumes inv: "tags_inv t" and k: "k \<in> set (the_set t (pkt_addr p))" and pk: "isSet (pkt_flags p) VALID_ADDR"
    and m: "unat (req_masterId (pkt_req p)) < maxMasters t"
  shows "\<exists>t'. base_insertBlock now t p k = Inr t' \<and> same_frame t t' \<and>
     ts_blks t' = (ts_blks t)[k := inserted_blk now t p (ts_blks t ! k)] \<and>
     (\<forall>st. isSet st BlkValid \<longrightarrow> findBlock t (pkt_addr p) (isSet st BlkSecure) = None \<longrightarrow>
        tags_inv (set_status t' k st) \<and>
        (\<forall>a s. findBlock (set_status t' k st) a s =
           (if blkAlign t a = blkAlign t (pkt_addr p) \<and> s = isSet st BlkSecure then Some k
            else if findBlock t a s = Some k then None else findBlock t a s)))"
proof -
  have s: "tags_struct t" and acc: "tags_account t" using inv by (auto simp: tags_inv_def)
  have kl: "k < length (ts_blks t)" by (rule the_set_bound [OF s k])
  obtain t' where t': "base_insertBlock now t p k = Inr t'" "same_frame t t'"
    "ts_blks t' = (ts_blks t)[k := inserted_blk now t p (ts_blks t ! k)]"
    using insert_total [OF acc kl pk m] by blast
  show ?thesis using t' install_inv(1,3) [OF inv k pk m _ _ t'(1)] by (intro exI [of _ t'] conjI allI impI) simp_all
qed

lemma base_invalidate_law:
  assumes inv: "tags_inv t" and k: "k \<in> set (the_set t a)" and v: "blk_isValid (ts_blks t ! k)"
  shows "\<exists>t'. base_invalidate now t k = Inr t' \<and> same_frame t t' \<and>
     ts_blks t' = (ts_blks t)[k := forgotten now (ts_blks t ! k)] \<and> tags_inv (drop_blk t' k) \<and>
     (\<forall>x s. findBlock (drop_blk t' k) x s = (if findBlock t x s = Some k then None else findBlock t x s))"
proof -
  have s: "tags_struct t" and acc: "tags_account t" using inv by (auto simp: tags_inv_def)
  have kl: "k < length (ts_blks t)" by (rule the_set_bound [OF s k])
  obtain t' where t': "base_invalidate now t k = Inr t'" "same_frame t t'"
    "ts_blks t' = (ts_blks t)[k := forgotten now (ts_blks t ! k)]"
    using base_invalidate_eq [OF acc kl v, of now] by (simp add: same_frame_def forgotten_def)
  then show ?thesis using evict_inv(1,3) [OF inv k v t'(1)] by auto
qed

interpretation rnd_tags: tag_policy now "\<lambda>t a sec. Inr (rnd_accessBlock ttc now t a sec)" "rnd_findVictim draw"
    "rnd_insertBlock now" "rnd_invalidate now" for ttc now draw
proof unfold_locales
  fix t a sec k and p :: "'a packet"
  assume inv: "tags_inv t"
  show "\<exists>lat t'. Inr (rnd_accessBlock ttc now t a sec) = Inr (findBlock t a sec, lat, t') \<and> tags_inv t' \<and> same_geom t t' \<and>
      findBlock t' = findBlock t \<and> map uncounted (ts_blks t') = map uncounted (ts_blks t)"
    using base_access_blks [OF inv, of ttc now a sec] by (auto simp: rnd_accessBlock_def intro: same_frame_geom)
  show "\<exists>k. rnd_findVictim draw t a = Inr k \<and> k \<in> set (the_set t a)"
    using inv by (intro rnd_victim) (simp add: tags_inv_def)
  show "\<exists>t'. rnd_insertBlock now t p k = Inr t' \<and> same_geom t t' \<and>
     ts_blks t' = (ts_blks t)[k := inserted_blk now t p (ts_blks t ! k)] \<and>
     (\<forall>st. isSet st BlkValid \<longrightarrow> findBlock t (pkt_addr p) (isSet st BlkSecure) = None \<longrightarrow>
        tags_inv (set_status t' k st) \<and>
        (\<forall>a s. findBlock (set_status t' k st) a s =
           (if blkAlign t a = blkAlign t (pkt_addr p) \<and> s = isSet st BlkSecure then Some k
            else if findBlock t a s = Some k then None else findBlock t a s)))"
    if "k \<in> set (the_set t (pkt_addr p))" "isSet (pkt_flags p) VALID_ADDR" "unat (req_masterId (pkt_req p)) < maxMasters t"
    unfolding rnd_insertBlock_def using base_insert_law [OF inv that, of now] same_frame_geom by blast
  show "\<exists>t'. rnd_invalidate now t k = Inr t' \<and> same_geom t t' \<and>
     ts_blks t' = (ts_blks t)[k := forgotten now (ts_blks t ! k)] \<and> tags_inv (drop_blk t' k) \<and>
     (\<forall>x s. findBlock (drop_blk t' k) x s = (if findBlock t x s = Some k then None else findBlock t x s))"
    if "k \<in> set (the_set t a)" "blk_isValid (ts_blks t ! k)"
    unfolding rnd_invalidate_def using base_invalidate_law [OF inv that, of now] same_frame_geom by blast
qed

section \<open>Least recently used\<close>

text \<open>Reordering the ways of a set afterwards changes nothing of this.\<close>

lemma lru_access_law:
  assumes inv: "tags_inv t"
  shows "\<exists>lat t'. lru_accessBlock ttc now t a sec = Inr (findBlock t a sec, lat, t') \<and> tags_inv t' \<and> same_geom t t' \<and>
     findBlock t' = findBlock t \<and> map uncounted (ts_blks t') = map uncounted (ts_blks t)"
proof -
  obtain lat t1 where b: "base_accessBlock ttc now t a sec = (findBlock t a sec, lat, t1)" "tags_inv t1" "same_frame t t1"
    "findBlock t1 = findBlock t" "map uncounted (ts_blks t1) = map uncounted (ts_blks t)"
    using base_access_blks [OF inv] by blast
  show ?thesis
  proof (cases "findBlock t a sec")
    case None
    then show ?thesis using b by (auto simp: lru_accessBlock_def intro: same_frame_geom)
  next
    case (Some k)
    have s: "tags_struct t1" "tags_unique t1" using b(2) by (auto simp: tags_inv_def)
    have k: "k \<in> set (the_set t1 a)" using Some b(4) findBlock_Some_iff [OF s] by metis
    have i: "unat (blk_set (ts_blks t1 ! k)) = unat (extractSet t1 a)" by (rule the_set_index [OF s(1) k])
    show ?thesis using to_head.reorder_set_inv [OF b(2) k] b Some i
      by (auto simp: lru_accessBlock_def Let_def intro: same_frame_geom)
  qed
qed

lemma lru_insert_law:
  assumes inv: "tags_inv t" and k: "k \<in> set (the_set t (pkt_addr p))" and pk: "isSet (pkt_flags p) VALID_ADDR"
    and m: "unat (req_masterId (pkt_req p)) < maxMasters t"
  shows "\<exists>t'. lru_insertBlock now t p k = Inr t' \<and> same_geom t t' \<and>
     ts_blks t' = (ts_blks t)[k := inserted_blk now t p (ts_blks t ! k)] \<and>
     (\<forall>st. isSet st BlkValid \<longrightarrow> findBlock t (pkt_addr p) (isSet st BlkSecure) = None \<longrightarrow>
        tags_inv (set_status t' k st) \<and>
        (\<forall>a s. findBlock (set_status t' k st) a s =
           (if blkAlign t a = blkAlign t (pkt_addr p) \<and> s = isSet st BlkSecure then Some k
            else if findBlock t a s = Some k then None else findBlock t a s)))"
proof -
  let ?a = "pkt_addr p"
  obtain t1 where t1: "base_insertBlock now t p k = Inr t1" "same_frame t t1"
    "ts_blks t1 = (ts_blks t)[k := inserted_blk now t p (ts_blks t ! k)]"
    and st: "\<And>st. isSet st BlkValid \<Longrightarrow> findBlock t ?a (isSet st BlkSecure) = None \<Longrightarrow>
        tags_inv (set_status t1 k st) \<and> (\<forall>a s. findBlock (set_status t1 k st) a s =
           (if blkAlign t a = blkAlign t ?a \<and> s = isSet st BlkSecure then Some k
            else if findBlock t a s = Some k then None else findBlock t a s))"
    using base_insert_law [OF inv k pk m, of now] by blast
  have s: "tags_struct t" using inv by (simp add: tags_inv_def)
  have f: "extractSet t1 ?a = extractSet t ?a" "the_set t1 ?a = the_set t ?a" "ts_sets t1 = ts_sets t"
    using t1(2) same_frame_addr [OF t1(2)] by (auto simp: same_frame_def)
  have "distinct (the_set t ?a)" using the_set_facts [OF s] by blast
  then obtain ws where ws: "moveToHead (the_set t1 ?a) k = Inr ws" using to_head.reorder_perm [OF k] f by auto
  let ?t2 = "t1\<lparr>ts_sets := (ts_sets t1)[unat (extractSet t1 ?a) := ws]\<rparr>"
  have bd: "unat (extractSet t1 ?a) < length (ts_sets t1)" using the_set_facts(1) [OF s, of ?a] f by simp
  have r: "lru_insertBlock now t p k = Inr ?t2"
    using t1(1) pk ws bd by (simp add: lru_insertBlock_def getAddr_def reorder_set_def)
  have "tags_inv (set_status ?t2 k st) \<and> (\<forall>a s. findBlock (set_status ?t2 k st) a s =
           (if blkAlign t a = blkAlign t ?a \<and> s = isSet st BlkSecure then Some k
            else if findBlock t a s = Some k then None else findBlock t a s))"
    if "isSet st BlkValid" "findBlock t ?a (isSet st BlkSecure) = None" for st
  proof -
    let ?u = "set_status t1 k st"
    have u: "extractSet ?u ?a = extractSet t1 ?a" "ts_sets ?u = ts_sets t1" by (simp_all add: set_status_def extractSet_def)
    have "k \<in> set (the_set ?u ?a)" using k f u by simp
    then show ?thesis using to_head.reorder_set_inv [of ?u k ?a] st [OF that] ws u f by (auto simp: Let_def)
  qed
  then show ?thesis using r t1(2,3) by (auto intro!: exI [of _ ?t2] same_frame_geom)
qed

lemma lru_invalidate_law:
  assumes inv: "tags_inv t" and k: "k \<in> set (the_set t a)" and v: "blk_isValid (ts_blks t ! k)"
  shows "\<exists>t'. lru_invalidate now t k = Inr t' \<and> same_geom t t' \<and>
     ts_blks t' = (ts_blks t)[k := forgotten now (ts_blks t ! k)] \<and> tags_inv (drop_blk t' k) \<and>
     (\<forall>x s. findBlock (drop_blk t' k) x s = (if findBlock t x s = Some k then None else findBlock t x s))"
proof -
  obtain t1 where t1: "base_invalidate now t k = Inr t1" "same_frame t t1"
    "ts_blks t1 = (ts_blks t)[k := forgotten now (ts_blks t ! k)]" "tags_inv (drop_blk t1 k)"
    "\<And>x s. findBlock (drop_blk t1 k) x s = (if findBlock t x s = Some k then None else findBlock t x s)"
    using base_invalidate_law [OF inv k v, of now] by blast
  have s: "tags_struct t" using inv by (simp add: tags_inv_def)
  have kl: "k < length (ts_blks t)" by (rule the_set_bound [OF s k])
  let ?u = "drop_blk t1 k"
  have f: "extractSet t1 a = extractSet t a" "the_set t1 a = the_set t a" "ts_sets t1 = ts_sets t"
      "ts_sets ?u = ts_sets t1" "extractSet ?u a = extractSet t1 a"
    using t1(2) same_frame_addr [OF t1(2)] by (auto simp: same_frame_def drop_blk_def extractSet_def)
  have "distinct (the_set t a)" using the_set_facts [OF s] by blast
  then obtain ws where ws: "moveToTail (the_set t1 a) k = Inr ws" using to_tail.reorder_perm [OF k] f by auto
  have bd: "unat (extractSet t1 a) < length (ts_sets t1)" using the_set_facts(1) [OF s, of a] f by simp
  have i: "unat (blk_set (ts_blks t1 ! k)) = unat (extractSet t1 a)"
    using the_set_index [OF s k] kl t1(3) f by (simp add: forgotten_def)
  let ?t2 = "t1\<lparr>ts_sets := (ts_sets t1)[unat (extractSet t1 a) := ws]\<rparr>"
  have r: "lru_invalidate now t k = Inr ?t2" using t1(1) ws bd i by (simp add: lru_invalidate_def reorder_set_def)
  have "k \<in> set (the_set ?u a)" using k f by simp
  from to_tail.reorder_set_inv [OF t1(4) this] ws f
  have "tags_inv (?u\<lparr>ts_sets := (ts_sets t1)[unat (extractSet t1 a) := ws]\<rparr>)"
    "findBlock (?u\<lparr>ts_sets := (ts_sets t1)[unat (extractSet t1 a) := ws]\<rparr>) = findBlock ?u" by (auto simp: Let_def)
  moreover have "drop_blk ?t2 k = ?u\<lparr>ts_sets := (ts_sets t1)[unat (extractSet t1 a) := ws]\<rparr>" by (simp add: drop_blk_def)
  ultimately show ?thesis using r t1 by (auto intro!: exI [of _ ?t2] same_frame_geom)
qed

interpretation lru_tags: tag_policy now "lru_accessBlock ttc now" lru_findVictim "lru_insertBlock now" "lru_invalidate now"
  for ttc now
proof unfold_locales
  fix t a assume "tags_inv t"
  then show "\<exists>k. lru_findVictim t a = Inr k \<and> k \<in> set (the_set t a)" using lru_victim [of t a] by (simp add: tags_inv_def)
qed (rule lru_access_law lru_insert_law lru_invalidate_law; assumption)+

end
