(* ===== verification/Cache_Lines.thy ===== *)
theory Cache_Lines
  imports Tag_Interface Memory_Spec
begin

text \<open>
  What a tag store holds, as bytes: for an address in a line the byte of its block, elsewhere the byte of a memory behind
  it. The lemmas say how this view changes when a line is read, written, evicted or installed.
\<close>

section \<open>Lines and offsets\<close>

abbreviation line_off :: "tags \<Rightarrow> addr \<Rightarrow> nat" where
  "line_off t x \<equiv> unat (x - blkAlign t x)"

lemma line_off_take: "tags_geom t \<Longrightarrow> x - blkAlign t x = take_bit (setShift t) x"
  using bits_ident [of "setShift t" x] by (simp add: blkAlign_eq algebra_simps)

lemma line_off_bound: "tags_geom t \<Longrightarrow> line_off t x < unat (ts_blkSize t)"
  by (simp add: line_off_take unat_take) (simp add: tags_geom_def unat_power2)

lemma blkAlign_self: "tags_geom t \<Longrightarrow> blkAlign t (blkAlign t x) = blkAlign t x"
  by (simp add: blkAlign_def)

lemma aligned_add:
  assumes g: "tags_geom t" and a: "blkAlign t a = a" and i: "i < unat (ts_blkSize t)"
  shows "unat (a + of_nat i) = unat a + i" "blkAlign t (a + of_nat i) = a"
proof -
  let ?s = "setShift t"
  have s: "?s < 32" "unat (ts_blkSize t) = 2 ^ ?s" using g by (auto simp: tags_geom_def unat_power2)
  have "take_bit ?s a = 0" using line_off_take [OF g, of a] a by simp
  then have "unat a mod 2 ^ ?s = 0" by (simp flip: unat_take)
  then obtain q where q: "unat a = q * 2 ^ ?s" by auto
  have "q * 2 ^ ?s < 2 ^ (64 - ?s) * 2 ^ ?s" using q s unsigned_less [of a, where ?'a = nat] by (simp flip: power_add)
  then have "q < 2 ^ (64 - ?s)" by simp
  then have "Suc q * 2 ^ ?s \<le> 2 ^ (64 - ?s) * 2 ^ ?s" by (intro mult_le_mono1) simp
  then have b: "unat a + i < 2 ^ 64" using q i s by (simp flip: power_add)
  have iu: "unat (of_nat i :: addr) = i" using b by (simp add: unat_of_nat)
  show u: "unat (a + of_nat i) = unat a + i" using b iu by (simp add: unat_word_ariths)
  have "unat (drop_bit ?s (a + of_nat i)) = unat (drop_bit ?s a)" unfolding unat_shiftr u q using i s by simp
  then have "drop_bit ?s (a + of_nat i) = drop_bit ?s a" by (rule unsigned_word_eqI)
  then show "blkAlign t (a + of_nat i) = a" using a by (simp add: blkAlign_eq [OF g])
qed

lemma in_line_iff:
  assumes g: "tags_geom t" and a: "blkAlign t a = a"
  shows "unat (x - a) < unat (ts_blkSize t) \<longleftrightarrow> blkAlign t x = a"
proof
  assume "unat (x - a) < unat (ts_blkSize t)"
  then show "blkAlign t x = a" using aligned_add(2) [OF g a, of "unat (x - a)"] by simp
next
  assume "blkAlign t x = a"
  then show "unat (x - a) < unat (ts_blkSize t)" using line_off_bound [OF g, of x] by simp
qed

lemma findBlock_line:
  assumes "tags_geom t" "blkAlign t x = blkAlign t y"
  shows "findBlock t x s = findBlock t y s"
  using same_block_iff [OF assms(1), of x y] assms(2) by (simp add: findBlock_def)

lemma inv_geom: "tags_inv t \<Longrightarrow> tags_geom t"
  by (simp add: tags_inv_def tags_struct_def)

lemma found_facts:
  assumes inv: "tags_inv t" and f: "findBlock t x s = Some k"
  shows "k < length (ts_blks t)" "blk_isValid (ts_blks t ! k)" "blk_isSecure (ts_blks t ! k) = s"
    "blk_tag (ts_blks t ! k) = extractTag t x" "k \<in> set (the_set t x)"
    "regenerateBlkAddr t (blk_tag (ts_blks t ! k)) (blk_set (ts_blks t ! k)) = blkAlign t x"
proof -
  have st: "tags_struct t" "tags_unique t" using inv by (auto simp: tags_inv_def)
  show k: "k \<in> set (the_set t x)" using f findBlock_Some_iff [OF st] by blast
  show "k < length (ts_blks t)" by (rule the_set_bound [OF st(1) k])
  have m: "blk_matches (extractTag t x) s (ts_blks t ! k)" using f findBlock_Some_iff [OF st] by blast
  then show "blk_isValid (ts_blks t ! k)" "blk_isSecure (ts_blks t ! k) = s" and tag: "blk_tag (ts_blks t ! k) = extractTag t x"
    by (auto simp: blk_matches_def)
  have "blk_set (ts_blks t ! k) = extractSet t x" using the_set_index [OF st(1) k] by (rule unsigned_word_eqI)
  then show "regenerateBlkAddr t (blk_tag (ts_blks t ! k)) (blk_set (ts_blks t ! k)) = blkAlign t x"
    using tag regenerate_roundtrip [OF inv_geom [OF inv]] by simp
qed

lemma found_same:
  assumes inv: "tags_inv t" and "findBlock t x s = Some k" "findBlock t y s' = Some k"
  shows "blkAlign t x = blkAlign t y" "s' = s"
  using found_facts [OF inv assms(2)] found_facts [OF inv assms(3)] by simp_all

section \<open>Contents\<close>

definition view :: "tags \<Rightarrow> (addr \<Rightarrow> 8 word) \<Rightarrow> addr \<Rightarrow> 8 word" where
  "view t f x = (case findBlock t x False of None \<Rightarrow> f x | Some k \<Rightarrow> blk_data (ts_blks t ! k) ! line_off t x)"

text \<open>A line is in order at an address: the address is covered, the block readable, and if it is clean it agrees with memory.\<close>

definition line_at :: "(addr \<Rightarrow> bool) \<Rightarrow> (addr \<Rightarrow> 8 word) \<Rightarrow> tags \<Rightarrow> addr \<Rightarrow> bool" where
  "line_at cov f t x \<longleftrightarrow> (\<forall>k. findBlock t x False = Some k \<longrightarrow> cov x \<and> blk_isReadable (ts_blks t ! k) \<and>
     (\<not> blk_isDirty (ts_blks t ! k) \<longrightarrow> f x = blk_data (ts_blks t ! k) ! line_off t x))"

text \<open>Every block has the size of a line, and every valid one is found at some address.\<close>

definition blocks_ok :: "tags \<Rightarrow> bool" where
  "blocks_ok t \<longleftrightarrow> (\<forall>k < length (ts_blks t). length (blk_data (ts_blks t ! k)) = unat (ts_blkSize t) \<and>
     (blk_isValid (ts_blks t ! k) \<longrightarrow> (\<exists>x. findBlock t x False = Some k)))"

definition lines_ok :: "(addr \<Rightarrow> bool) \<Rightarrow> (addr \<Rightarrow> 8 word) \<Rightarrow> tags \<Rightarrow> bool" where
  "lines_ok cov f t \<longleftrightarrow> tags_inv t \<and> blocks_ok t \<and> (\<forall>x. line_at cov f t x)"

lemma blocks_len: "blocks_ok t \<Longrightarrow> k < length (ts_blks t) \<Longrightarrow> length (blk_data (ts_blks t ! k)) = unat (ts_blkSize t)"
  by (simp add: blocks_ok_def)

lemma found_len: "tags_inv t \<Longrightarrow> blocks_ok t \<Longrightarrow> findBlock t x s = Some k \<Longrightarrow> length (blk_data (ts_blks t ! k)) = unat (ts_blkSize t)"
  using found_facts(1) blocks_len by blast

text \<open>Addresses and writes inside a line.\<close>

lemma line_add:
  assumes g: "tags_geom t" and i: "line_off t a + i < unat (ts_blkSize t)"
  shows "blkAlign t (a + of_nat i) = blkAlign t a" "line_off t (a + of_nat i) = line_off t a + i"
proof -
  have e: "a + of_nat i = blkAlign t a + of_nat (line_off t a + i)" by simp
  show l: "blkAlign t (a + of_nat i) = blkAlign t a" unfolding e
    using i by (intro aligned_add(2) [OF g blkAlign_self [OF g]])
  have "unat (a + of_nat i) = unat (blkAlign t a) + (line_off t a + i)"
    unfolding e using i by (intro aligned_add(1) [OF g blkAlign_self [OF g]])
  then show "line_off t (a + of_nat i) = line_off t a + i" using l by (simp add: unat_sub_if')
qed

lemma line_diff:
  assumes "blkAlign t x = blkAlign t a" "line_off t a \<le> line_off t x"
  shows "unat (x - a) = line_off t x - line_off t a"
proof -
  have e: "x - a = (x - blkAlign t x) - (a - blkAlign t a)" using assms(1) by simp
  have "a - blkAlign t a \<le> x - blkAlign t x" using assms(2) by (simp add: word_le_nat_alt)
  then show ?thesis unfolding e by (rule unat_sub)
qed

lemma mem_write_line:
  assumes g: "tags_geom t" and n: "line_off t a + length d \<le> unat (ts_blkSize t)"
  shows "mem_write f a d x =
     (if blkAlign t x = blkAlign t a \<and> line_off t a \<le> line_off t x \<and> line_off t x < line_off t a + length d
      then d ! (line_off t x - line_off t a) else f x)"
proof (cases "unat (x - a) < length d")
  case True
  then have "blkAlign t x = blkAlign t a" "line_off t x = line_off t a + unat (x - a)"
    using line_add [OF g, of a "unat (x - a)"] n by simp_all
  then show ?thesis using True by (simp add: mem_write_def Let_def)
next
  case False
  then have "\<not> (blkAlign t x = blkAlign t a \<and> line_off t a \<le> line_off t x \<and> line_off t x < line_off t a + length d)"
    using line_diff [of t x a] by auto
  then show ?thesis using False by (simp only: if_False mem_write_miss not_less)
qed

lemma mem_write_whole:
  assumes g: "tags_geom t" and n: "length d = unat (ts_blkSize t)"
  shows "mem_write f (blkAlign t a) d x = (if blkAlign t x = blkAlign t a then d ! line_off t x else f x)"
  using mem_write_line [OF g, of "blkAlign t a" d f x] n line_off_bound [OF g, of x] by (simp add: blkAlign_self [OF g])

lemma view_bytes:
  assumes inv: "tags_inv t" and f: "findBlock t a False = Some k" and n: "line_off t a + n \<le> unat (ts_blkSize t)"
    and len: "length (blk_data (ts_blks t ! k)) = unat (ts_blkSize t)"
  shows "take n (drop (line_off t a) (blk_data (ts_blks t ! k))) = mem_bytes (view t g) a n"
proof (rule nth_equalityI)
  show "length (take n (drop (line_off t a) (blk_data (ts_blks t ! k)))) = length (mem_bytes (view t g) a n)"
    using n len by simp
  fix i assume "i < length (take n (drop (line_off t a) (blk_data (ts_blks t ! k))))"
  then have i: "i < n" by simp
  note l = line_add [OF inv_geom [OF inv], of a i]
  show "take n (drop (line_off t a) (blk_data (ts_blks t ! k))) ! i = mem_bytes (view t g) a n ! i"
    using i n len f findBlock_line [OF inv_geom [OF inv] l(1), of False] l by (simp add: view_def)
qed

lemma mem_bytes_line:
  assumes g: "tags_geom t"
  shows "mem_bytes f (blkAlign t a) (unat (ts_blkSize t)) ! line_off t x = f (blkAlign t a + of_nat (line_off t x))"
  using line_off_bound [OF g, of x] by simp

section \<open>Changes\<close>

lemma lines_same:
  assumes inv: "tags_inv t'" and g: "same_geom t t'" and f: "findBlock t' = findBlock t"
    and b: "length (ts_blks t') = length (ts_blks t)"
      "\<And>k. k < length (ts_blks t) \<Longrightarrow> blk_data (ts_blks t' ! k) = blk_data (ts_blks t ! k) \<and> blk_status (ts_blks t' ! k) = blk_status (ts_blks t ! k)"
    and inv0: "tags_inv t"
  shows "view t' m = view t m" "blocks_ok t' = blocks_ok t" "line_at cov m t' = line_at cov m t"
proof -
  have al: "blkAlign t' = blkAlign t" by (rule same_geom_addr [OF g])
  have k: "findBlock t x s = Some k \<Longrightarrow> k < length (ts_blks t)" for x s k by (rule found_facts(1) [OF inv0])
  show "view t' m = view t m" using b(2) k by (auto simp: view_def f al fun_eq_iff split: option.splits)
  show "blocks_ok t' = blocks_ok t"
    using b g by (auto simp: blocks_ok_def f same_geom_def blk_isValid_def)
  show "line_at cov m t' = line_at cov m t"
    using b(2) k by (auto simp: line_at_def f al fun_eq_iff blk_isReadable_def blk_isDirty_def)
qed

lemma line_update:
  fixes t k b'
  defines "t' \<equiv> t\<lparr>ts_blks := (ts_blks t)[k := b']\<rparr>"
  assumes inv: "tags_inv t" and bl: "blocks_ok t" and f: "findBlock t a False = Some k"
    and id: "blk_id b' = blk_id (ts_blks t ! k)" and len: "length (blk_data b') = unat (ts_blkSize t)"
  shows "tags_inv t'" "same_geom t t'" "findBlock t' = findBlock t" "blocks_ok t'"
    "view t' m x = (if blkAlign t x = blkAlign t a then blk_data b' ! line_off t x else view t m x)"
    "line_at cov m t' x = (if blkAlign t x = blkAlign t a
       then cov x \<and> blk_isReadable b' \<and> (\<not> blk_isDirty b' \<longrightarrow> m x = blk_data b' ! line_off t x) else line_at cov m t x)"
proof -
  have fr: "same_frame t t'" by (simp add: t'_def same_frame_def)
  have ids: "map blk_id (ts_blks t') = map blk_id (ts_blks t)" unfolding t'_def using id by (simp add: map_update_same)
  show i': "tags_inv t'" and f': "findBlock t' = findBlock t"
    by (rule inv_blk_id [OF inv fr ids]; simp add: t'_def)+
  show g: "same_geom t t'" by (rule same_frame_geom [OF fr])
  note kl = found_facts(1) [OF inv f]
  have ge: "tags_geom t" by (rule inv_geom [OF inv])
  have own: "findBlock t x False = Some k \<longleftrightarrow> blkAlign t x = blkAlign t a" for x
    using found_same(1) [OF inv _ f] findBlock_line [OF ge] f by metis
  have al: "blkAlign t' = blkAlign t" by (rule same_geom_addr [OF g])
  have nth: "ts_blks t' ! j = (if j = k then b' else ts_blks t ! j)" if "j < length (ts_blks t)" for j
    using that by (simp add: t'_def nth_list_update)
  have kl': "findBlock t x False = Some j \<Longrightarrow> j < length (ts_blks t)" for x j by (rule found_facts(1) [OF inv])
  show "view t' m x = (if blkAlign t x = blkAlign t a then blk_data b' ! line_off t x else view t m x)"
    using own [of x] kl nth kl' by (auto simp: view_def f' al split: option.splits)
  show "line_at cov m t' x = (if blkAlign t x = blkAlign t a
      then cov x \<and> blk_isReadable b' \<and> (\<not> blk_isDirty b' \<longrightarrow> m x = blk_data b' ! line_off t x) else line_at cov m t x)"
    using own [of x] kl nth kl' by (auto simp: line_at_def f' al)
  have "blk_isValid b'" using blk_id_eq [OF id] found_facts(2) [OF inv f] by simp
  moreover have "length (ts_blks t') = length (ts_blks t)" "ts_blkSize t' = ts_blkSize t" by (simp_all add: t'_def)
  ultimately show "blocks_ok t'" using bl len f nth by (auto simp: blocks_ok_def f')
qed

text \<open>What memory holds once the block \<open>k\<close> has been written back.\<close>

definition spill :: "tags \<Rightarrow> nat \<Rightarrow> (addr \<Rightarrow> 8 word) \<Rightarrow> addr \<Rightarrow> 8 word" where
  "spill t k f = (if blk_isValid (ts_blks t ! k)
     then mem_write f (regenerateBlkAddr t (blk_tag (ts_blks t ! k)) (blk_set (ts_blks t ! k))) (blk_data (ts_blks t ! k)) else f)"

lemma spill_line:
  assumes inv: "tags_inv t" and bl: "blocks_ok t" and f: "findBlock t a False = Some k"
  shows "spill t k m x = (if blkAlign t x = blkAlign t a then blk_data (ts_blks t ! k) ! line_off t x else m x)"
  using found_facts [OF inv f] found_len [OF inv bl f] mem_write_whole [OF inv_geom [OF inv]] by (simp add: spill_def)

lemma spill_view:
  assumes inv: "tags_inv t" and bl: "blocks_ok t" and k: "k < length (ts_blks t)"
  shows "spill t k m x = (if findBlock t x False = Some k then view t m x else m x)"
proof (cases "blk_isValid (ts_blks t ! k)")
  case True
  then obtain a where a: "findBlock t a False = Some k" using bl k by (auto simp: blocks_ok_def)
  have "findBlock t x False = Some k \<longleftrightarrow> blkAlign t x = blkAlign t a"
    using found_same(1) [OF inv _ a] findBlock_line [OF inv_geom [OF inv]] a by metis
  then show ?thesis using spill_line [OF inv bl a, of m x] by (cases "findBlock t x False = Some k") (simp_all add: view_def)
next
  case False
  then show ?thesis using found_facts(2) [OF inv] by (auto simp: spill_def)
qed

lemma spill_clean:
  assumes "lines_ok cov m t" "k < length (ts_blks t)" "\<not> blk_isDirty (ts_blks t ! k)"
  shows "spill t k m = m"
proof
  fix x
  have "line_at cov m t x" "tags_inv t" "blocks_ok t" using assms(1) by (auto simp: lines_ok_def)
  then show "spill t k m x = m x" using spill_view [of t k m x] assms(2,3) by (auto simp: line_at_def view_def)
qed

lemma line_evict:
  assumes ok: "lines_ok cov m t" and inv': "tags_inv t'" and g: "same_geom t t'" and k: "k < length (ts_blks t)"
    and f: "\<And>x s. findBlock t' x s = (if findBlock t x s = Some k then None else findBlock t x s)"
    and b: "ts_blks t' = (ts_blks t)[k := b']" "\<not> blk_isValid b'" "blk_data b' = blk_data (ts_blks t ! k)"
  shows "lines_ok cov (spill t k m) t'" "view t' (spill t k m) = view t m"
proof -
  have inv: "tags_inv t" and bl: "blocks_ok t" and at: "\<And>x. line_at cov m t x" using ok by (auto simp: lines_ok_def)
  have al: "blkAlign t' = blkAlign t" by (rule same_geom_addr [OF g])
  note sv = spill_view [OF inv bl k, of m]
  have nth: "ts_blks t' ! j = ts_blks t ! j" if "j \<noteq> k" for j using b(1) that by simp
  show "view t' (spill t k m) = view t m"
  proof
    fix x
    show "view t' (spill t k m) x = view t m x"
      using sv [of x] nth f [of x False] by (cases "findBlock t x False") (auto simp: view_def al)
  qed
  have "line_at cov (spill t k m) t' x" for x
    using at [of x] sv [of x] nth by (auto simp: line_at_def f al split: if_splits)
  moreover have "blocks_ok t'" unfolding blocks_ok_def
  proof (intro allI impI conjI)
    fix j assume j: "j < length (ts_blks t')"
    show "length (blk_data (ts_blks t' ! j)) = unat (ts_blkSize t')"
      using j b k bl g by (cases "j = k") (auto simp: blocks_ok_def same_geom_def)
    assume v: "blk_isValid (ts_blks t' ! j)"
    then have "j \<noteq> k" using b k by auto
    then obtain x where "findBlock t x False = Some j" using bl v nth j b(1) by (auto simp: blocks_ok_def)
    then show "\<exists>x. findBlock t' x False = Some j" using f \<open>j \<noteq> k\<close> by (intro exI [of _ x]) simp
  qed
  ultimately show "lines_ok cov (spill t k m) t'" using inv' by (simp add: lines_ok_def)
qed

lemma line_install:
  assumes ok: "lines_ok cov m t" and inv': "tags_inv t'" and g: "same_geom t t'" and k: "k < length (ts_blks t)"
    and miss: "findBlock t a False = None"
    and f: "\<And>x s. findBlock t' x s = (if blkAlign t x = blkAlign t a \<and> s = False then Some k
       else if findBlock t x s = Some k then None else findBlock t x s)"
    and b: "ts_blks t' = (ts_blks t)[k := b']" "length (blk_data b') = unat (ts_blkSize t)"
  shows "blocks_ok t'" "findBlock t' a False = Some k"
    "view t' (spill t k m) x = (if blkAlign t x = blkAlign t a then blk_data b' ! line_off t x else view t m x)"
    "blkAlign t x \<noteq> blkAlign t a \<Longrightarrow> line_at cov (spill t k m) t' x"
    "blkAlign t x = blkAlign t a \<Longrightarrow> spill t k m x = m x"
proof -
  have inv: "tags_inv t" and bl: "blocks_ok t" and at: "\<And>x. line_at cov m t x" using ok by (auto simp: lines_ok_def)
  have al: "blkAlign t' = blkAlign t" by (rule same_geom_addr [OF g])
  note sv = spill_view [OF inv bl k, of m]
  have nth: "ts_blks t' ! j = (if j = k then b' else ts_blks t ! j)" for j using b(1) k by (simp add: nth_list_update)
  have none: "findBlock t x False = None" if "blkAlign t x = blkAlign t a" for x
    using findBlock_line [OF inv_geom [OF inv] that] miss by metis
  show "findBlock t' a False = Some k" using f [of a False] by simp
  show "view t' (spill t k m) x = (if blkAlign t x = blkAlign t a then blk_data b' ! line_off t x else view t m x)"
    using sv [of x] nth f [of x False] by (cases "findBlock t x False") (auto simp: view_def al)
  show "line_at cov (spill t k m) t' x" if "blkAlign t x \<noteq> blkAlign t a"
    using at [of x] sv [of x] nth that f by (auto simp: line_at_def al split: if_splits)
  show "spill t k m x = m x" if "blkAlign t x = blkAlign t a" using sv [of x] none [OF that] by simp
  show "blocks_ok t'" unfolding blocks_ok_def
  proof (intro allI impI conjI)
    fix j assume j: "j < length (ts_blks t')"
    show "length (blk_data (ts_blks t' ! j)) = unat (ts_blkSize t')"
      using j b nth bl g by (auto simp: blocks_ok_def same_geom_def)
    assume v: "blk_isValid (ts_blks t' ! j)"
    show "\<exists>x. findBlock t' x False = Some j"
    proof (cases "j = k")
      case True
      then show ?thesis using f [of a False] by auto
    next
      case False
      then obtain x where x: "findBlock t x False = Some j" using bl v nth j b(1) by (auto simp: blocks_ok_def)
      then have "blkAlign t x \<noteq> blkAlign t a" using none by auto
      then show ?thesis using f [of x False] x False by (intro exI [of _ x]) simp
    qed
  qed
qed

end
