(* ===== verification/Cache_Serve.thy ===== *)
theory Cache_Serve
  imports Cache_Access Cache_Lines
begin

text \<open>
  What the parts of the cache do for one request of the processor it serves. The calls to the tag store, which depend on
  the policy, are brought under the one contract of \<open>Tag_Interface\<close>. Then, for every kind of request, serving it from
  the block of its line returns the bytes the cache shows at its address, and changes what the cache shows exactly as the
  request asks: reads not at all, writes and unconditional swaps in the bytes they carry, store conditionals and
  conditional swaps if they succeed.
\<close>

section \<open>The tag store behind the cache\<close>

lemma tags_access_law:
  assumes "tags_inv (c_tags c)"
  shows "\<exists>lat t. tags_accessBlock e c a sec = Inr (findBlock (c_tags c) a sec, lat, c\<lparr>c_tags := t\<rparr>) \<and> tags_inv t \<and>
     same_geom (c_tags c) t \<and> findBlock t = findBlock (c_tags c) \<and>
     map uncounted (ts_blks t) = map uncounted (ts_blks (c_tags c))"
  using lru_tags.access_law [OF assms, of "e_ticksToCycles e" "e_now e" a sec]
    rnd_tags.access_law [OF assms, of "e_ticksToCycles e" "e_now e" a sec]
  by (cases "c_repl c") (auto simp: tags_accessBlock_def)

lemma tags_victim_law:
  assumes "tags_inv (c_tags c)"
  shows "\<exists>k. tags_findVictim e c a = Inr k \<and> k \<in> set (the_set (c_tags c) a)"
  using lru_tags.victim_law [OF assms, of a] rnd_tags.victim_law [OF assms, of "e_draw e" a]
  by (cases "c_repl c") (auto simp: tags_findVictim_def)

lemma tags_insert_law:
  assumes "tags_inv (c_tags c)" "k \<in> set (the_set (c_tags c) (pkt_addr p))" "isSet (pkt_flags p) VALID_ADDR"
    "unat (req_masterId (pkt_req p)) < maxMasters (c_tags c)"
  shows "\<exists>t. tags_insertBlock e c p k = Inr (c\<lparr>c_tags := t\<rparr>) \<and> same_geom (c_tags c) t \<and>
     ts_blks t = (ts_blks (c_tags c))[k := inserted_blk (e_now e) (c_tags c) p (ts_blks (c_tags c) ! k)] \<and>
     (\<forall>st. isSet st BlkValid \<longrightarrow> findBlock (c_tags c) (pkt_addr p) (isSet st BlkSecure) = None \<longrightarrow>
        tags_inv (set_status t k st) \<and>
        (\<forall>a s. findBlock (set_status t k st) a s =
           (if blkAlign (c_tags c) a = blkAlign (c_tags c) (pkt_addr p) \<and> s = isSet st BlkSecure then Some k
            else if findBlock (c_tags c) a s = Some k then None else findBlock (c_tags c) a s)))"
  using lru_tags.insert_law [OF assms, of "e_now e"] rnd_tags.insert_law [OF assms, of "e_now e"]
  by (cases "c_repl c") (auto simp: tags_insertBlock_def)

text \<open>Giving up a block that is found removes its line and nothing else.\<close>

lemma give_up_law:
  assumes inv: "tags_inv (c_tags c)" and f: "findBlock (c_tags c) a s = Some k"
  shows "\<exists>t b. give_up e c (Tag_Blk k) = Inr (c\<lparr>c_tags := t\<rparr>) \<and> tags_inv t \<and> same_geom (c_tags c) t \<and>
     ts_blks t = (ts_blks (c_tags c))[k := b] \<and> \<not> blk_isValid b \<and> blk_data b = blk_data (ts_blks (c_tags c) ! k) \<and>
     (\<forall>x s. findBlock t x s = (if findBlock (c_tags c) x s = Some k then None else findBlock (c_tags c) x s))"
proof -
  let ?t = "c_tags c"
  note k = found_facts(1,2,5) [OF inv f]
  obtain t where t: "tags_invalidate e c k = Inr (c\<lparr>c_tags := t\<rparr>)" "same_geom ?t t"
    "ts_blks t = (ts_blks ?t)[k := forgotten (e_now e) (ts_blks ?t ! k)]" "tags_inv (drop_blk t k)"
    "\<And>x s. findBlock (drop_blk t k) x s = (if findBlock ?t x s = Some k then None else findBlock ?t x s)"
    using lru_tags.invalidate_law [OF inv k(3,2), of "e_now e"] rnd_tags.invalidate_law [OF inv k(3,2), of "e_now e"]
    by (cases "c_repl c") (auto simp: tags_invalidate_def)
  let ?b = "blk_invalidate (forgotten (e_now e) (ts_blks ?t ! k))"
  have "give_up e c (Tag_Blk k) = Inr (c\<lparr>c_tags := drop_blk t k\<rparr>)"
    using t(1) by (simp add: give_up_def upd_at_def drop_blk_def)
  moreover have "ts_blks (drop_blk t k) = (ts_blks ?t)[k := ?b]" using t(3) k(1) by (simp add: drop_blk_def)
  moreover have "\<not> blk_isValid ?b" "blk_data ?b = blk_data (ts_blks ?t ! k)"
    by (simp_all add: blk_invalidate_def blk_isValid_def forgotten_def)
  moreover have "same_geom ?t (drop_blk t k)" using t(2) by (simp add: drop_blk_def)
  ultimately show ?thesis using t(4,5) by blast
qed

section \<open>Status bits\<close>

lemma or_status_simps [simp]:
  "blk_data (or_status m b) = blk_data b" "blk_tag (or_status m b) = blk_tag b" "blk_set (or_status m b) = blk_set b"
  "isTouched (or_status m b) = isTouched b" "srcMasterId (or_status m b) = srcMasterId b"
  by (simp_all add: or_status_def)

lemma or_status_bits:
  "blk_isValid (or_status m b) \<longleftrightarrow> blk_isValid b \<or> m AND BlkValid \<noteq> 0"
  "blk_isSecure (or_status m b) \<longleftrightarrow> blk_isSecure b \<or> m AND BlkSecure \<noteq> 0"
  "blk_isDirty (or_status m b) \<longleftrightarrow> blk_isDirty b \<or> m AND BlkDirty \<noteq> 0"
  by (simp_all add: or_status_def blk_isValid_def blk_isSecure_def blk_isDirty_def bit.conj_disj_distrib2 or_eq_0_iff)

lemma and_or_absorb: "x AND k = k \<or> m AND k = k \<Longrightarrow> (x OR m) AND k = (k :: 32 word)"
  by (auto simp: bit_eq_iff bit_simps)

lemma or_status_access:
  "blk_isReadable b \<or> m AND (BlkReadable OR BlkValid) = BlkReadable OR BlkValid \<Longrightarrow> blk_isReadable (or_status m b)"
  "blk_isWritable b \<or> m AND (BlkWritable OR BlkValid) = BlkWritable OR BlkValid \<Longrightarrow> blk_isWritable (or_status m b)"
  unfolding blk_isReadable_def blk_isWritable_def or_status_def by (simp_all add: and_or_absorb)

lemma or_status_id:
  "blk_isValid b \<Longrightarrow> m AND BlkSecure = 0 \<Longrightarrow> blk_id (or_status m b) = blk_id b"
  by (simp add: blk_id_def or_status_bits)

lemma blk_at_simps [simp]:
  "blk_at c (Tag_Blk k) = ts_blks (c_tags c) ! k" "upd_at c (Tag_Blk k) f = c\<lparr>c_tags := upd_blk (c_tags c) k f\<rparr>"
  by (simp_all add: blk_at_def upd_at_def)

section \<open>Requests of a processor\<close>

definition cpu_cmd :: "command \<Rightarrow> bool" where
  "cpu_cmd c \<longleftrightarrow> c \<in> {ReadReq, SoftPFReq, LoadLockedReq, WriteReq, StoreCondReq, SwapReq}"

text \<open>The offset of a packet in its line, as the code computes it.\<close>

lemma scast_mask: "s < 32 \<Longrightarrow> (scast (2 ^ s - 1 :: 32 word) :: 64 word) = mask s"
  unfolding mask_eq_exp_minus_1 [symmetric]
  by (rule bit_word_eqI) (auto simp: bit_simps min_def)

lemma scast_not_mask: "s < 32 \<Longrightarrow> (scast (NOT (2 ^ s - 1) :: 32 word) :: 64 word) = NOT (mask s)"
  unfolding mask_eq_exp_minus_1 [symmetric]
  by (rule bit_word_eqI) (auto simp: bit_simps min_def)

lemma offset_line:
  assumes "tags_geom t"
  shows "a AND scast (ts_blkSize t - 1) = a - blkAlign t a" "a AND scast (NOT (ts_blkSize t - 1)) = blkAlign t a"
    "a AND NOT (ucast (ts_blkSize t - 1)) = blkAlign t a"
proof -
  have s: "setShift t < 32" "ts_blkSize t = 2 ^ setShift t" "blkMask t = ts_blkSize t - 1" using assms by (auto simp: tags_geom_def)
  show "a AND scast (ts_blkSize t - 1) = a - blkAlign t a"
    using s by (simp add: line_off_take [OF assms] scast_mask take_bit_eq_mask)
  show "a AND scast (NOT (ts_blkSize t - 1)) = blkAlign t a"
    using s by (simp add: scast_not_mask blkAlign_def ucast_mask)
  show "a AND NOT (ucast (ts_blkSize t - 1)) = blkAlign t a" using s by (simp add: blkAlign_def)
qed

text \<open>A packet with a payload inside one line.\<close>

definition in_line :: "tags \<Rightarrow> 's packet \<Rightarrow> 8 word list \<Rightarrow> bool" where
  "in_line t p d \<longleftrightarrow> carries p d \<and> line_off t (pkt_addr p) + length d \<le> unat (ts_blkSize t)"

text \<open>The configuration of a cache next to a processor, with no miss outstanding.\<close>

definition static_ok :: "'x cache_scheme \<Rightarrow> bool" where
  "static_ok c \<longleftrightarrow> c_blkSize c = ts_blkSize (c_tags c) \<and> unat (c_blkSize c) < 2 ^ 31 \<and> c_maxMasters c = maxMasters (c_tags c) \<and> 0 < c_maxMasters c \<and>
     allocatedList (c_mshrQueue c) = [] \<and> isTopLevel c \<and> \<not> bypassCaches c"

text \<open>What serving the request \<open>p\<close> from memory contents \<open>v\<close> means: the contents afterwards and the packet.\<close>

definition serves :: "(addr \<Rightarrow> 8 word) \<Rightarrow> (addr \<Rightarrow> 8 word) \<Rightarrow> 's packet \<Rightarrow> 's packet \<Rightarrow> bool" where
  "serves v v' p p' \<longleftrightarrow>
     (let a = pkt_addr p; d = the (pkt_data p); old = mem_bytes v a (length d) in
      if pkt_cmd p = SwapReq then
        pkt_data p' = Some old \<and> (\<exists>b. swap_condition p old = Inr b \<and> v' = (if b then mem_write v a d else v))
      else if isRead (pkt_cmd p) then pkt_data p' = Some old \<and> v' = v
      else if isLLSC (pkt_cmd p) then
        req_extraData (pkt_req p') \<in> {0, 1} \<and> v' = (if req_extraData (pkt_req p') = 1 then mem_write v a d else v)
      else v' = mem_write v a d)"

definition swap_ok :: "'s packet \<Rightarrow> bool" where
  "swap_ok p \<longleftrightarrow> pkt_size p \<le> 8 \<and> (req_isCondSwap (pkt_req p) \<longrightarrow> extraDataValid (pkt_req p) \<and> pkt_size p \<in> {4, 8})"

section \<open>Serving a request from a block\<close>

lemma satisfy_enter:
  assumes "static_ok c" "tags_inv (c_tags c)" "in_line (c_tags c) p d" "isRequest (pkt_cmd p)" "blk_isValid (blk_at c bp)"
  shows "satisfyCpuSideRequest e c p (Some bp) dr pd =
     (if pkt_cmd p = SwapReq then cmpAndSwap e c bp p
      else if isWrite (pkt_cmd p) then satisfy_write c bp p
      else if isRead (pkt_cmd p) then satisfy_read e c bp dr pd p
      else
        bindE (assertE (isUpgrade (pkt_cmd p))) (\<lambda>_.
        bindE (assertE (bp \<noteq> Temp_Blk)) (\<lambda>_. bindE (give_up e c bp) (\<lambda>c. Inr (c, p)))))"
proof -
  note g = inv_geom [OF assms(2)]
  have c: "carries p d" "line_off (c_tags c) (pkt_addr p) + length d \<le> unat (ts_blkSize (c_tags c))"
    and bs: "c_blkSize c = ts_blkSize (c_tags c)" "isTopLevel c" using assms by (auto simp: in_line_def static_ok_def)
  have n: "length d = unat (pkt_size p)" using c(1) by (simp add: carries_def)
  let ?o = "pkt_addr p - blkAlign (c_tags c) (pkt_addr p)"
  have u: "unat (ucast (pkt_size p) :: addr) = unat (pkt_size p)" "unat (ucast (c_blkSize c) :: addr) = unat (c_blkSize c)"
    by (simp_all add: unat_ucast_up)
  have "unat (c_blkSize c) < 2 ^ 32" using unsigned_less [of "c_blkSize c", where 'a = nat] by simp
  then have "unat (?o + ucast (pkt_size p)) = unat ?o + unat (pkt_size p)" using c(2) n bs u by (simp add: unat_word_ariths)
  then have "?o + ucast (pkt_size p) \<le> ucast (c_blkSize c)" using c(2) n bs u by (simp add: word_le_nat_alt)
  then show ?thesis using assms(4,5) bs carries_access [OF c(1)] offset_line(1) [OF g]
    by (simp add: satisfyCpuSideRequest_def)
qed

lemma satisfy_read_law:
  assumes st: "static_ok c" and inv: "tags_inv (c_tags c)" and bl: "blocks_ok (c_tags c)"
    and f: "findBlock (c_tags c) (pkt_addr p) False = Some k" and il: "in_line (c_tags c) p d" and r: "req_ok (pkt_req p)"
    and cmd: "pkt_cmd p \<in> {ReadReq, SoftPFReq, LoadLockedReq}"
  shows "\<exists>b' fl. satisfyCpuSideRequest e c p (Some (Tag_Blk k)) False False =
     Inr (c\<lparr>c_tags := upd_blk (c_tags c) k (\<lambda>_. b')\<rparr>,
          p\<lparr>pkt_data := Some (take (length d) (drop (line_off (c_tags c) (pkt_addr p)) (blk_data (ts_blks (c_tags c) ! k)))), pkt_flags := fl\<rparr>) \<and>
     (\<exists>ls. b' = (ts_blks (c_tags c) ! k)\<lparr>lockList := ls\<rparr>)"
proof -
  let ?t = "c_tags c" and ?a = "pkt_addr p"
  let ?b = "ts_blks ?t ! k"
  note ff = found_facts [OF inv f] and g = inv_geom [OF inv]
  have c: "carries p d" "line_off ?t ?a + length d \<le> unat (ts_blkSize ?t)" using il by (auto simp: in_line_def)
  have bs: "c_blkSize c = ts_blkSize ?t" "isTopLevel c" using st by (auto simp: static_ok_def)
  have n: "length d = unat (pkt_size p)" using c(1) by (simp add: carries_def)
  have len: "length (blk_data ?b) = unat (ts_blkSize ?t)" by (rule found_len [OF inv bl f])
  have cs: "isRequest (pkt_cmd p)" "\<not> isWrite (pkt_cmd p)" "isRead (pkt_cmd p)" "pkt_cmd p \<noteq> SwapReq"
    "\<not> needsExclusive (pkt_cmd p)" using cmd by (auto simp: cmd_attrib_defs)
  define b' where "b' = (if isLLSC (pkt_cmd p) then ?b\<lparr>lockList := lock_of (pkt_req p) # lockList ?b\<rparr> else ?b)"
  define c1 where "c1 = c\<lparr>c_tags := upd_blk ?t k (\<lambda>_. b')\<rparr>"
  have tr: "(if isLLSC (pkt_cmd p) then bindE (trackLoadLocked (blk_at c (Tag_Blk k)) p) (\<lambda>b. Inr (upd_at c (Tag_Blk k) (\<lambda>_. b)))
      else Inr c) = Inr c1"
    using r by (auto simp: trackLoadLocked_def req_ok_lock c1_def b'_def)
  have d1: "blk_data (blk_at c1 (Tag_Blk k)) = blk_data ?b" using ff(1) by (simp add: c1_def b'_def)
  have bsz: "c_blkSize c1 = ts_blkSize ?t" "isTopLevel c1" using bs by (simp_all add: c1_def)
  have cp: "memcpy d 0 (blk_data ?b) (uint (?a - blkAlign ?t ?a)) (length d) =
      Inr (take (length d) (drop (line_off ?t ?a) (blk_data ?b)))"
    using c(2) len unfolding memcpy_def by auto
  define p1 where "p1 = p\<lparr>pkt_data := Some (take (length d) (drop (line_off ?t ?a) (blk_data ?b)))\<rparr>"
  have sd: "setDataFromBlock False p (blk_data (blk_at c1 (Tag_Blk k))) (c_blkSize c1) = Inr p1"
    using cp n carries_access [OF c(1)] offset_line(1) [OF g] unfolding d1 bsz
    by (simp add: setDataFromBlock_def setData_def p1_def)
  have sz: "getSize p1 = Inr (pkt_size p)" using c(1) by (simp add: p1_def getSize_def carries_def)
  have "\<exists>fl. (if pkt_size p = c_blkSize c1 then hand_over e c1 (Tag_Blk k) False False p1 else Inr (c1, p1)) =
      Inr (c1, p1\<lparr>pkt_flags := fl\<rparr>)"
  proof -
    have "(if pkt_size p = c_blkSize c1 then hand_over e c1 (Tag_Blk k) False False p1 else Inr (c1, p1))
        \<in> {Inr (c1, p1\<lparr>pkt_flags := pkt_flags p1\<rparr>), Inr (c1, p1\<lparr>pkt_flags := setFlag (pkt_flags p1) SHARED\<rparr>)}"
      using cs(5) bsz(2) by (simp add: hand_over_def Let_def p1_def assertShared_def)
    then show ?thesis by blast
  qed
  then obtain fl where "satisfy_read e c (Tag_Blk k) False False p = Inr (c1, p1\<lparr>pkt_flags := fl\<rparr>)"
    unfolding satisfy_read_def using tr sd sz by auto
  moreover have "satisfyCpuSideRequest e c p (Some (Tag_Blk k)) False False = satisfy_read e c (Tag_Blk k) False False p"
    using satisfy_enter [OF st inv il cs(1), of "Tag_Blk k"] ff(2) cs by simp
  moreover have "\<exists>ls. b' = ?b\<lparr>lockList := ls\<rparr>"
    by (cases "isLLSC (pkt_cmd p)") (auto simp: b'_def intro: exI [of _ "lockList ?b"])
  ultimately show ?thesis by (auto simp: c1_def p1_def)
qed

lemma block_write:
  assumes inv: "tags_inv t" and bl: "blocks_ok t" and f: "findBlock t a False = Some k"
    and n: "line_off t a + length d \<le> unat (ts_blkSize t)" and ov: "take (length d) w = d" "length d \<le> length w"
  shows "\<exists>D. memcpy (blk_data (ts_blks t ! k)) (int (line_off t a)) w 0 (length d) = Inr D \<and> length D = unat (ts_blkSize t) \<and>
     (\<forall>x m. blkAlign t x = blkAlign t a \<longrightarrow> D ! line_off t x = mem_write (view t m) a d x)"
proof -
  let ?B = "blk_data (ts_blks t ! k)"
  note g = inv_geom [OF inv] and len = found_len [OF inv bl f]
  define D where "D = take (line_off t a) ?B @ d @ drop (line_off t a + length d) ?B"
  have "memcpy ?B (int (line_off t a)) w 0 (length d) = Inr D"
    using n len ov by (auto simp: memcpy_def D_def)
  moreover have "length D = unat (ts_blkSize t)" using n len by (simp add: D_def)
  moreover have "D ! line_off t x = mem_write (view t m) a d x" if "blkAlign t x = blkAlign t a" for x m
  proof -
    have "view t m x = ?B ! line_off t x" using findBlock_line [OF g that, of False] f by (simp add: view_def)
    moreover have "line_off t x < unat (ts_blkSize t)" by (rule line_off_bound [OF g])
    ultimately show ?thesis using mem_write_line [OF g n, of "view t m" x] that len n
      by (auto simp: D_def nth_append)
  qed
  ultimately show ?thesis by blast
qed

text \<open>The outcome of serving a request from the line that holds its address: only the contents of that line may change.\<close>

definition served ::
    "(addr \<Rightarrow> bool) \<Rightarrow> 'x cache_scheme \<Rightarrow> 's packet \<Rightarrow> ('x cache_scheme \<times> 's packet) res \<Rightarrow> bool" where
  "served cov c p r \<longleftrightarrow>
     (\<exists>t p'. r = Inr (c\<lparr>c_tags := t\<rparr>, p') \<and> tags_inv t \<and> same_geom (c_tags c) t \<and> findBlock t = findBlock (c_tags c) \<and>
        blocks_ok t \<and> pkt_cmd p' = pkt_cmd p \<and> (\<forall>m. serves (view (c_tags c) m) (view t m) p p') \<and>
        (\<forall>m x. blkAlign (c_tags c) x \<noteq> blkAlign (c_tags c) (pkt_addr p) \<longrightarrow> line_at cov m t x = line_at cov m (c_tags c) x) \<and>
        (\<forall>m x. blkAlign (c_tags c) x = blkAlign (c_tags c) (pkt_addr p) \<longrightarrow> cov x \<longrightarrow>
           pkt_cmd p = WriteInvalidateReq \<or> line_at cov m (c_tags c) x \<longrightarrow> line_at cov m t x))"

lemma served_update:
  fixes c :: "'x cache_scheme" and p :: "'s packet"
  assumes inv: "tags_inv (c_tags c)" and bl: "blocks_ok (c_tags c)" and f: "findBlock (c_tags c) (pkt_addr p) False = Some k"
    and r: "r = Inr (c\<lparr>c_tags := upd_blk (c_tags c) k (\<lambda>_. b')\<rparr>, p')" "pkt_cmd p' = pkt_cmd p"
    and id: "blk_id b' = blk_id (ts_blks (c_tags c) ! k)" and len: "length (blk_data b') = unat (ts_blkSize (c_tags c))"
    and rd: "blk_isReadable b'"
    and keep: "blk_isDirty b' \<or> pkt_cmd p \<noteq> WriteInvalidateReq \<and> \<not> blk_isDirty (ts_blks (c_tags c) ! k) \<and>
        blk_data b' = blk_data (ts_blks (c_tags c) ! k)"
    and sv: "\<And>m v. \<lbrakk>\<And>x. v x = (if blkAlign (c_tags c) x = blkAlign (c_tags c) (pkt_addr p)
        then blk_data b' ! line_off (c_tags c) x else view (c_tags c) m x)\<rbrakk> \<Longrightarrow> serves (view (c_tags c) m) v p p'"
  shows "served cov c p r"
proof -
  let ?t = "c_tags c"
  define t where "t = ?t\<lparr>ts_blks := (ts_blks ?t)[k := b']\<rparr>"
  note u = line_update [OF inv bl f id len, folded t_def]
  have al: "blkAlign t = blkAlign ?t" by (rule same_geom_addr [OF u(2)])
  have "r = Inr (c\<lparr>c_tags := t\<rparr>, p')" using r by (simp add: t_def)
  moreover have "line_at cov m t x" if "blkAlign ?t x = blkAlign ?t (pkt_addr p)" "cov x"
      "pkt_cmd p = WriteInvalidateReq \<or> line_at cov m ?t x" for m x
    using that u(6) [of cov m x] keep rd findBlock_line [OF inv_geom [OF inv] that(1), of False] f
    by (auto simp: line_at_def)
  moreover have "serves (view ?t m) (view t m) p p'" for m by (rule sv [OF u(5)])
  ultimately show ?thesis unfolding served_def al using u(1,2,3,4,6) r(2)
    by (intro exI [of _ t] exI [of _ p'] conjI allI impI) simp_all
qed

lemma serve_read:
  assumes st: "static_ok c" and inv: "tags_inv (c_tags c)" and bl: "blocks_ok (c_tags c)"
    and f: "findBlock (c_tags c) (pkt_addr p) False = Some k" and il: "in_line (c_tags c) p d" and r: "req_ok (pkt_req p)"
    and cmd: "pkt_cmd p \<in> {ReadReq, SoftPFReq, LoadLockedReq}" and rd: "blk_isReadable (ts_blks (c_tags c) ! k)"
  shows "served cov c p (satisfyCpuSideRequest e c p (Some (Tag_Blk k)) False False)"
proof -
  let ?t = "c_tags c"
  let ?b = "ts_blks ?t ! k"
  have n: "line_off ?t (pkt_addr p) + length d \<le> unat (ts_blkSize ?t)" "pkt_data p = Some d"
    using il by (auto simp: in_line_def carries_def)
  note len = found_len [OF inv bl f]
  have cs: "isRead (pkt_cmd p)" "pkt_cmd p \<noteq> SwapReq" using cmd by (auto simp: cmd_attrib_defs)
  obtain fl ls where s: "satisfyCpuSideRequest e c p (Some (Tag_Blk k)) False False =
      Inr (c\<lparr>c_tags := upd_blk ?t k (\<lambda>_. ?b\<lparr>lockList := ls\<rparr>)\<rparr>,
           p\<lparr>pkt_data := Some (take (length d) (drop (line_off ?t (pkt_addr p)) (blk_data ?b))), pkt_flags := fl\<rparr>)"
    using satisfy_read_law [OF st inv bl f il r cmd] by blast
  show ?thesis
  proof (rule served_update [OF inv bl f s])
    show "blk_id (?b\<lparr>lockList := ls\<rparr>) = blk_id ?b" by (simp add: blk_id_def blk_isValid_def blk_isSecure_def)
    show "blk_isReadable (?b\<lparr>lockList := ls\<rparr>)" using rd by (simp add: blk_isReadable_def)
    show "blk_isDirty (?b\<lparr>lockList := ls\<rparr>) \<or> pkt_cmd p \<noteq> WriteInvalidateReq \<and> \<not> blk_isDirty ?b \<and>
        blk_data (?b\<lparr>lockList := ls\<rparr>) = blk_data ?b" using cmd by (auto simp: blk_isDirty_def)
    fix m v assume v: "\<And>x. v x = (if blkAlign ?t x = blkAlign ?t (pkt_addr p)
        then blk_data (?b\<lparr>lockList := ls\<rparr>) ! line_off ?t x else view ?t m x)"
    have "v x = view ?t m x" for x
      using v [of x] findBlock_line [OF inv_geom [OF inv], of x "pkt_addr p" False] f
      by (cases "blkAlign ?t x = blkAlign ?t (pkt_addr p)") (simp_all add: view_def)
    then have "v = view ?t m" by blast
    then show "serves (view ?t m) v p
        (p\<lparr>pkt_data := Some (take (length d) (drop (line_off ?t (pkt_addr p)) (blk_data ?b))), pkt_flags := fl\<rparr>)"
      using cs n view_bytes [OF inv f n(1) len, of m] by (simp add: serves_def Let_def)
  qed (use len in simp_all)
qed

lemma serve_write:
  assumes st: "static_ok c" and inv: "tags_inv (c_tags c)" and bl: "blocks_ok (c_tags c)"
    and f: "findBlock (c_tags c) (pkt_addr p) False = Some k" and il: "in_line (c_tags c) p d" and r: "req_ok (pkt_req p)"
    and cmd: "pkt_cmd p \<in> {WriteReq, WriteInvalidateReq, StoreCondReq}"
    and rd: "blk_isReadable (ts_blks (c_tags c) ! k)" "blk_isWritable (ts_blks (c_tags c) ! k)"
  shows "served cov c p (satisfyCpuSideRequest e c p (Some (Tag_Blk k)) False False)"
proof -
  let ?t = "c_tags c" and ?a = "pkt_addr p"
  let ?b = "ts_blks ?t ! k"
  note ff = found_facts [OF inv f] and g = inv_geom [OF inv]
  have c: "carries p d" "line_off ?t ?a + length d \<le> unat (ts_blkSize ?t)" using il by (auto simp: in_line_def)
  have bs: "c_blkSize c = ts_blkSize ?t" using st by (simp add: static_ok_def)
  have d: "length d = unat (pkt_size p)" "pkt_data p = Some d" using c(1) by (auto simp: carries_def)
  have cs: "isRequest (pkt_cmd p)" "isWrite (pkt_cmd p)" "\<not> isRead (pkt_cmd p)" "pkt_cmd p \<noteq> SwapReq"
    using cmd by (auto simp: cmd_attrib_defs)
  obtain D where D: "memcpy (blk_data ?b) (int (line_off ?t ?a)) d 0 (length d) = Inr D" "length D = unat (ts_blkSize ?t)"
    "\<And>x m. blkAlign ?t x = blkAlign ?t ?a \<Longrightarrow> D ! line_off ?t x = mem_write (view ?t m) ?a d x"
    using block_write [OF inv bl f c(2), of d] by auto
  define ok where "ok \<longleftrightarrow> (isLLSC (pkt_cmd p) \<longrightarrow> sc_ok ?b p)"
  define p' where "p' = (if isLLSC (pkt_cmd p) then p\<lparr>pkt_req := setExtraData (pkt_req p) (if sc_ok ?b p then 1 else 0)\<rparr> else p)"
  define b1 where "b1 = ?b\<lparr>lockList := filter (\<lambda>l. \<not> lock_hit l (pkt_req p)) (lockList ?b)\<rparr>"
  define b' where "b' = or_status BlkDirty (if ok then b1\<lparr>blk_data := D\<rparr> else b1)"
  have c': "carries p' d" "pkt_addr p' = ?a" using c(1) by (simp_all add: p'_def carries_def)
  have wr: "writeDataToBlock p' (blk_data b1) (c_blkSize c) = Inr D"
    using D(1) d carries_access [OF c'(1)] offset_line(1) [OF g] c' unfolding bs
    by (simp add: writeDataToBlock_def writeData_def b1_def carries_def)
  have "satisfyCpuSideRequest e c p (Some (Tag_Blk k)) False False = satisfy_write c (Tag_Blk k) p"
    using satisfy_enter [OF st inv il cs(1), of "Tag_Blk k"] ff(2) cs by simp
  also have "\<dots> = Inr (c\<lparr>c_tags := upd_blk ?t k (\<lambda>_. b')\<rparr>, p')"
    unfolding satisfy_write_def using rd(2) wr checkWrite_eq [OF r, of ?b]
    by (simp add: b'_def ok_def [symmetric] p'_def [symmetric] b1_def [symmetric])
  finally have s: "satisfyCpuSideRequest e c p (Some (Tag_Blk k)) False False = Inr (c\<lparr>c_tags := upd_blk ?t k (\<lambda>_. b')\<rparr>, p')" .
  show ?thesis
  proof (rule served_update [OF inv bl f s])
    show "pkt_cmd p' = pkt_cmd p" by (simp add: p'_def)
    have v: "blk_isValid b1" "blk_id b1 = blk_id ?b" "blk_id (b1\<lparr>blk_data := D\<rparr>) = blk_id ?b" "blk_isReadable b1"
      using ff(2) rd(1) by (simp_all add: b1_def blk_id_def blk_isValid_def blk_isReadable_def blk_isSecure_def)
    show "blk_id b' = blk_id ?b" unfolding b'_def using v
      by (subst or_status_id) (simp_all add: blk_isValid_def)
    show "length (blk_data b') = unat (ts_blkSize ?t)" using D(2) found_len [OF inv bl f] by (simp add: b'_def b1_def)
    show "blk_isReadable b'" unfolding b'_def using v(4) by (intro or_status_access) (simp add: blk_isReadable_def)
    show "blk_isDirty b' \<or> pkt_cmd p \<noteq> WriteInvalidateReq \<and> \<not> blk_isDirty ?b \<and> blk_data b' = blk_data ?b"
      by (simp add: b'_def or_status_bits)
    fix m v assume v: "\<And>x. v x = (if blkAlign ?t x = blkAlign ?t ?a then blk_data b' ! line_off ?t x else view ?t m x)"
    have "v x = (if ok then mem_write (view ?t m) ?a d x else view ?t m x)" for x
    proof (cases "blkAlign ?t x = blkAlign ?t ?a")
      case True
      then show ?thesis using v [of x] D(3) [OF True, of m] findBlock_line [OF g True, of False] f
        by (simp add: b'_def b1_def view_def)
    next
      case False
      then show ?thesis using v [of x] mem_write_line [OF g c(2), of "view ?t m" x] by simp
    qed
    then have v': "v = (if ok then mem_write (view ?t m) ?a d else view ?t m)" by (auto simp: fun_eq_iff)
    show "serves (view ?t m) v p p'"
      using cs d v' by (auto simp: serves_def Let_def ok_def p'_def setExtraData_def)
  qed
qed

lemma sint_offset:
  assumes "tags_geom t"
  shows "sint (extractBlkOffset t a) = int (line_off t a)"
proof -
  have s: "setShift t < 32" "ts_blkSize t = 2 ^ setShift t" using assms by (auto simp: tags_geom_def)
  have e: "extractBlkOffset t a = ucast (a - blkAlign t a)"
    using s by (simp add: extractBlkOffset_def line_off_take [OF assms] ucast_mask take_bit_eq_mask)
  have "line_off t a < 2 ^ setShift t" using line_off_bound [OF assms, of a] s by (simp add: unat_power2)
  also have "(2 :: nat) ^ setShift t \<le> 2 ^ 31" using s(1) by (intro power_increasing) simp_all
  finally have l: "line_off t a < 2 ^ 31" .
  then have u: "unat (extractBlkOffset t a) = line_off t a" unfolding e by (intro unat_ucast_small) simp
  show ?thesis using l u sint_small [of "extractBlkOffset t a"] by simp
qed

lemma swap_condition_total:
  assumes "swap_ok p" "carries p d"
  shows "\<exists>b. swap_condition p old = Inr b"
  using assms carries_access(2) [OF assms(2)] by (auto simp: swap_condition_def swap_ok_def getExtraData_def extraDataValid_def)

lemma swap_condition_data [simp]: "swap_condition (p\<lparr>pkt_data := x\<rparr>) old = swap_condition p old"
  by (simp add: swap_condition_def getSize_def)

lemma serve_swap:
  assumes st: "static_ok c" and inv: "tags_inv (c_tags c)" and bl: "blocks_ok (c_tags c)"
    and f: "findBlock (c_tags c) (pkt_addr p) False = Some k" and il: "in_line (c_tags c) p d"
    and cmd: "pkt_cmd p = SwapReq" and sw: "swap_ok p" and rd: "blk_isReadable (ts_blks (c_tags c) ! k)"
  shows "served cov c p (satisfyCpuSideRequest e c p (Some (Tag_Blk k)) False False)"
proof -
  let ?t = "c_tags c" and ?a = "pkt_addr p"
  let ?b = "ts_blks ?t ! k"
  note ff = found_facts [OF inv f] and g = inv_geom [OF inv] and len = found_len [OF inv bl f]
  have c: "carries p d" "line_off ?t ?a + length d \<le> unat (ts_blkSize ?t)" using il by (auto simp: in_line_def)
  have d: "unat (pkt_size p) = length d" "pkt_data p = Some d" using c(1) by (auto simp: carries_def)
  have n8: "length d \<le> 8" using sw d(1) by (simp add: swap_ok_def word_le_nat_alt)
  let ?old = "take (length d) (drop (line_off ?t ?a) (blk_data ?b))"
  have old: "?old = mem_bytes (view ?t m) ?a (length d)" for m by (rule view_bytes [OF inv f c(2) len])
  define w where "w = d @ drop (length d) (map (e_garbage e) [0..<8])"
  have w: "take (length d) w = d" "length d \<le> length w" by (simp_all add: w_def)
  obtain D where D: "memcpy (blk_data ?b) (int (line_off ?t ?a)) w 0 (length d) = Inr D" "length D = unat (ts_blkSize ?t)"
    "\<And>x m. blkAlign ?t x = blkAlign ?t ?a \<Longrightarrow> D ! line_off ?t x = mem_write (view ?t m) ?a d x"
    using block_write [OF inv bl f c(2) w] by auto
  obtain q where q: "swap_condition p ?old = Inr q" using swap_condition_total [OF sw c(1)] by blast
  define p' where "p' = p\<lparr>pkt_data := Some ?old\<rparr>"
  define b' where "b' = (if q then or_status BlkDirty (?b\<lparr>blk_data := D\<rparr>) else ?b)"
  have gw: "memcpy (map (e_garbage e) [0..<8]) 0 d 0 (length d) = Inr w"
    using n8 by (auto simp: memcpy_def w_def)
  have gr: "memcpy d 0 (blk_data ?b) (int (line_off ?t ?a)) (length d) = Inr ?old"
    using c(2) len by (auto simp: memcpy_def)
  have q': "swap_condition p' ?old = Inr q" using q by (simp add: p'_def)
  have "satisfyCpuSideRequest e c p (Some (Tag_Blk k)) False False = cmpAndSwap e c (Tag_Blk k) p"
    using satisfy_enter [OF st inv il, of "Tag_Blk k"] ff(2) cmd by (simp add: cmd_attrib_defs)
  also have "\<dots> = Inr (c\<lparr>c_tags := upd_blk ?t k (\<lambda>_. b')\<rparr>, p')"
    unfolding cmpAndSwap_def sint_offset [OF g]
    using carries_access [OF c(1)] d gw gr q' D(1) n8 cmd
    by (simp add: writeData_def setData_def p'_def [symmetric] b'_def cmd_attrib_defs)
  finally have s: "satisfyCpuSideRequest e c p (Some (Tag_Blk k)) False False = Inr (c\<lparr>c_tags := upd_blk ?t k (\<lambda>_. b')\<rparr>, p')" .
  show ?thesis
  proof (rule served_update [OF inv bl f s])
    show "pkt_cmd p' = pkt_cmd p" by (simp add: p'_def)
    have v: "blk_isValid (?b\<lparr>blk_data := D\<rparr>)" "blk_id (?b\<lparr>blk_data := D\<rparr>) = blk_id ?b" "blk_isReadable (?b\<lparr>blk_data := D\<rparr>)"
      using ff(2) rd by (simp_all add: blk_id_def blk_isValid_def blk_isReadable_def blk_isSecure_def)
    show "blk_id b' = blk_id ?b" unfolding b'_def using v by (simp add: or_status_id)
    show "length (blk_data b') = unat (ts_blkSize ?t)" using D(2) len by (simp add: b'_def)
    show "blk_isReadable b'" unfolding b'_def using v(3) rd or_status_access(1) by simp
    show "blk_isDirty b' \<or> pkt_cmd p \<noteq> WriteInvalidateReq \<and> \<not> blk_isDirty ?b \<and> blk_data b' = blk_data ?b"
      using cmd by (auto simp: b'_def or_status_bits)
    fix m v assume v: "\<And>x. v x = (if blkAlign ?t x = blkAlign ?t ?a then blk_data b' ! line_off ?t x else view ?t m x)"
    have "v x = (if q then mem_write (view ?t m) ?a d x else view ?t m x)" for x
    proof (cases "blkAlign ?t x = blkAlign ?t ?a")
      case True
      then show ?thesis using v [of x] D(3) [OF True, of m] findBlock_line [OF g True, of False] f
        by (simp add: b'_def view_def)
    next
      case False
      then show ?thesis using v [of x] mem_write_line [OF g c(2), of "view ?t m" x] by simp
    qed
    then have "v = (if q then mem_write (view ?t m) ?a d else view ?t m)" by (auto simp: fun_eq_iff)
    then show "serves (view ?t m) v p p'" using cmd d q old [of m] by (simp add: serves_def Let_def p'_def)
  qed
qed

lemma serve_law:
  assumes st: "static_ok c" and inv: "tags_inv (c_tags c)" and bl: "blocks_ok (c_tags c)"
    and f: "findBlock (c_tags c) (pkt_addr p) False = Some k" and il: "in_line (c_tags c) p d" and r: "req_ok (pkt_req p)"
    and cmd: "cpu_cmd (pkt_cmd p) \<or> pkt_cmd p = WriteInvalidateReq" and sw: "pkt_cmd p = SwapReq \<Longrightarrow> swap_ok p"
    and rd: "blk_isReadable (ts_blks (c_tags c) ! k)"
    and wr: "needsExclusive (pkt_cmd p) \<Longrightarrow> blk_isWritable (ts_blks (c_tags c) ! k)"
  shows "served cov c p (satisfyCpuSideRequest e c p (Some (Tag_Blk k)) False False)"
proof -
  consider "pkt_cmd p \<in> {ReadReq, SoftPFReq, LoadLockedReq}" | "pkt_cmd p \<in> {WriteReq, WriteInvalidateReq, StoreCondReq}"
    | "pkt_cmd p = SwapReq" using cmd by (auto simp: cpu_cmd_def)
  then show ?thesis
  proof cases
    case 1
    then show ?thesis by (rule serve_read [OF st inv bl f il r _ rd])
  next
    case 2
    then have "needsExclusive (pkt_cmd p)" by (auto simp: cmd_attrib_defs)
    then show ?thesis using 2 by (intro serve_write [OF st inv bl f il r _ rd wr])
  next
    case 3
    then show ?thesis using sw by (intro serve_swap [OF st inv bl f il _ _ rd])
  qed
qed

end
