(* ===== verification/Cache_Fill.thy ===== *)
theory Cache_Fill
  imports Cache_Serve
begin

text \<open>
  Replacement, fill and access of the cache, seen through the bytes the cache shows. A victim that is dirty leaves a
  write-back that carries its line; filling a line, with data or only with permissions, keeps what the cache shows once the
  write-backs have reached memory; a request that finds its line is served at once, and one that does not leaves the cache
  as it was.
\<close>

section \<open>Configuration\<close>

text \<open>What stays of a cache while it serves requests.\<close>

definition same_cache :: "'x cache_scheme \<Rightarrow> 'x cache_scheme \<Rightarrow> bool" where
  "same_cache c c' \<longleftrightarrow> same_geom (c_tags c) (c_tags c') \<and> c_repl c' = c_repl c \<and> c_mshrQueue c' = c_mshrQueue c \<and>
     c_blkSize c' = c_blkSize c \<and> isTopLevel c' = isTopLevel c \<and> doFastWrites c' = doFastWrites c \<and>
     bypassCaches c' = bypassCaches c \<and> c_maxMasters c' = c_maxMasters c"

lemma same_cache_refl [simp]: "same_cache c c"
  by (simp add: same_cache_def)

lemma same_cache_trans: "same_cache c c' \<Longrightarrow> same_cache c' c'' \<Longrightarrow> same_cache c c''"
  by (auto simp: same_cache_def intro: same_geom_trans)

lemma same_cache_geom: "same_cache c c' \<Longrightarrow> same_geom (c_tags c) (c_tags c')"
  by (simp add: same_cache_def)

lemma same_cache_tags: "same_geom (c_tags c) t \<Longrightarrow> same_cache c (c\<lparr>c_tags := t\<rparr>)"
  by (simp add: same_cache_def)

lemma same_cache_stats [simp]:
  "same_cache c (c'\<lparr>c_hits := x\<rparr>) = same_cache c c'" "same_cache c (c'\<lparr>c_misses := x\<rparr>) = same_cache c c'"
  "same_cache c (c'\<lparr>c_writebacks := w\<rparr>) = same_cache c c'" "same_cache c (c'\<lparr>missCount := mc\<rparr>) = same_cache c c'"
  "same_cache c (c'\<lparr>c_exit := b\<rparr>) = same_cache c c'"
  by (simp_all add: same_cache_def)

lemma same_cache_static: "same_cache c c' \<Longrightarrow> static_ok c \<Longrightarrow> static_ok c'"
  by (auto simp: same_cache_def static_ok_def same_geom_def)

section \<open>Write-backs\<close>

text \<open>What memory holds after a list of write-backs.\<close>

fun drains :: "(addr \<Rightarrow> bool) \<Rightarrow> 's packet list \<Rightarrow> (addr \<Rightarrow> 8 word) \<Rightarrow> (addr \<Rightarrow> 8 word) \<Rightarrow> bool" where
  "drains cov [] m m' \<longleftrightarrow> m' = m"
| "drains cov (wb # wbs) m m' \<longleftrightarrow> (\<exists>d. plain_request cov 1 wb d \<and> pkt_cmd wb = Writeback \<and> \<not> req_isInstFetch (pkt_req wb) \<and>
     drains cov wbs (mem_write m (pkt_addr wb) d) m')"

lemma set_taskId_simps [simp]:
  "req_paddr (set_taskId r i) = req_paddr r" "req_size (set_taskId r i) = req_size r" "req_flags (set_taskId r i) = req_flags r"
  "hasPaddr (set_taskId r i) = hasPaddr r" "hasSize (set_taskId r i) = hasSize r" "req_masterId (set_taskId r i) = req_masterId r"
  by (simp_all add: set_taskId_def hasPaddr_def hasSize_def)

lemma line_end:
  assumes "tags_geom t" "blkAlign t a = a"
  shows "unat a + unat (ts_blkSize t) \<le> 2 ^ 64"
proof -
  have p: "0 < unat (ts_blkSize t)" using line_off_bound [OF assms(1), of a] by simp
  then have "unat (a + of_nat (unat (ts_blkSize t) - 1)) = unat a + (unat (ts_blkSize t) - 1)"
    by (intro aligned_add(1) [OF assms]) simp
  then show ?thesis using unsigned_less [of "a + of_nat (unat (ts_blkSize t) - 1)", where ?'a = nat] p by simp
qed

lemma line_end_le: "tags_geom t \<Longrightarrow> unat (blkAlign t a) + unat (ts_blkSize t) \<le> 2 ^ 64"
  by (intro line_end) (simp_all add: blkAlign_self)

text \<open>The packet of a write-back, apart from its flags.\<close>

lemma wb_request:
  fixes a :: addr and n i now tid
  defines "r \<equiv> set_taskId (new_Request_phys a n 0 i now) tid"
  shows "hasPaddr r" "hasSize r" "req_paddr r = a" "req_size r = n" "req_masterId r = i" "\<not> req_isInstFetch r" "\<not> req_isSecure r"
  by (simp_all add: r_def new_Request_phys_def setPhys_def new_Request_def hasPaddr_def hasSize_def req_isInstFetch_def
      req_isSecure_def set_taskId_def)

lemma clear_dirty:
  "blk_data (clear_status BlkDirty b) = blk_data b" "\<not> blk_isDirty (clear_status BlkDirty b)"
  "blk_isReadable (clear_status BlkDirty b) = blk_isReadable b" "blk_isValid (clear_status BlkDirty b) = blk_isValid b"
  "blk_isValid b \<Longrightarrow> blk_id (clear_status BlkDirty b) = blk_id b"
proof -
  have a: "(blk_status b AND NOT BlkDirty) AND k = blk_status b AND k" if "k AND BlkDirty = 0" for k :: "32 word"
  proof -
    have "NOT BlkDirty AND k = k" using that by (simp add: bit_eq_iff bit_simps) blast
    then show ?thesis by (simp add: and.assoc)
  qed
  have k: "BlkValid AND BlkDirty = (0 :: 32 word)" "(BlkReadable OR BlkValid) AND BlkDirty = (0 :: 32 word)" "BlkSecure AND BlkDirty = (0 :: 32 word)"
    by simp_all
  show "blk_data (clear_status BlkDirty b) = blk_data b" by (simp add: clear_status_def)
  show "\<not> blk_isDirty (clear_status BlkDirty b)" by (simp add: clear_status_def blk_isDirty_def and.assoc)
  show v: "blk_isValid (clear_status BlkDirty b) = blk_isValid b" using a [OF k(1)] by (simp add: clear_status_def blk_isValid_def)
  show "blk_isReadable (clear_status BlkDirty b) = blk_isReadable b" using a [OF k(2)] by (simp add: clear_status_def blk_isReadable_def)
  have "blk_isSecure (clear_status BlkDirty b) = blk_isSecure b" using a [OF k(3)] by (simp add: clear_status_def blk_isSecure_def)
  then show "blk_id (clear_status BlkDirty b) = blk_id b" if "blk_isValid b"
    using that v by (simp add: blk_id_def) (simp add: clear_status_def)
qed


lemma writeback_law:
  assumes st: "static_ok c" and ok: "lines_ok cov m (c_tags c)" and f: "findBlock (c_tags c) a False = Some k"
    and dirty: "blk_isDirty (ts_blks (c_tags c) ! k)"
  shows "\<exists>wb b' w. writebackBlk e c (Tag_Blk k) = Inr (wb, c\<lparr>c_writebacks := w, c_tags := upd_blk (c_tags c) k (\<lambda>_. b')\<rparr>) \<and>
     plain_request cov 1 wb (blk_data (ts_blks (c_tags c) ! k)) \<and> pkt_cmd wb = Writeback \<and> \<not> req_isInstFetch (pkt_req wb) \<and>
     pkt_addr wb = blkAlign (c_tags c) a \<and> blk_data b' = blk_data (ts_blks (c_tags c) ! k) \<and>
     blk_id b' = blk_id (ts_blks (c_tags c) ! k) \<and> \<not> blk_isDirty b' \<and> blk_isReadable b'"
proof -
  let ?t = "c_tags c" and ?n = "c_blkSize c"
  let ?b = "ts_blks ?t ! k"
  have inv: "tags_inv ?t" and bl: "blocks_ok ?t" and at: "\<And>x. line_at cov m ?t x" using ok by (auto simp: lines_ok_def)
  note ff = found_facts [OF inv f] and g = inv_geom [OF inv] and len = found_len [OF inv bl f]
  have bs: "?n = ts_blkSize ?t" "unat ?n < 2 ^ 31" using st by (auto simp: static_ok_def)
  have pos: "0 < unat ?n" using line_off_bound [OF g, of a] bs(1) by simp
  define r where "r = set_taskId (new_Request_phys (blkAlign ?t a) ?n 0 0 (e_now e)) (blk_task_id ?b)"
  note rq = wb_request [of "blkAlign ?t a" ?n 0 "e_now e" "blk_task_id ?b", folded r_def]
  define w0 :: "sender packet" where "w0 = (if blk_isWritable ?b then setSupplyExclusive (new_Packet r Writeback) else new_Packet r Writeback)"
  have w0: "pkt_addr w0 = blkAlign ?t a" "pkt_size w0 = ?n" "pkt_cmd w0 = Writeback" "pkt_req w0 = r"
    "noneSet (pkt_flags w0) (STATIC_DATA OR DYNAMIC_DATA)" "isSet (pkt_flags w0) VALID_ADDR" "isSet (pkt_flags w0) VALID_SIZE"
    "\<not> isSet (pkt_flags w0) MEM_INHIBIT"
    using rq by (simp_all add: w0_def new_Packet_def setSupplyExclusive_def noneSet_def setFlag_def)
  define b1 where "b1 = ?b\<lparr>blk_task_id := task_Unknown, tickInserted := e_now e\<rparr>"
  define wb where "wb = w0\<lparr>pkt_flags := setFlag (pkt_flags w0) DYNAMIC_DATA, pkt_data := Some (blk_data ?b)\<rparr>"
  have cp: "memcpy (map (e_garbage e) [0..<unat ?n]) 0 (blk_data ?b) 0 (unat ?n) = Inr (blk_data ?b)"
    using len bs(1) by (auto simp: memcpy_def)
  have "writebackBlk e c (Tag_Blk k) = Inr (wb, c\<lparr>c_writebacks := c_writebacks c + 1, c_tags := upd_blk ?t k (\<lambda>_. clear_status BlkDirty b1)\<rparr>)"
    using ff dirty cp w0 unfolding wb_def w0_def
    by (cases "blk_isWritable ?b")
       (simp_all add: writebackBlk_def Let_def r_def [symmetric] allocate_def getSize_def getPtr_def b1_def [symmetric])
  moreover have "carries wb (blk_data ?b)"
    using w0 len bs pos line_end_le [OF g, of a] by (simp add: carries_def wb_def)
  moreover have "cov (blkAlign ?t a + of_nat i)" if "i < length (blk_data ?b)" for i
  proof -
    have "blkAlign ?t (blkAlign ?t a + of_nat i) = blkAlign ?t a"
      using that len by (intro aligned_add(2) [OF g blkAlign_self [OF g]]) simp
    then show ?thesis using at findBlock_line [OF g, of "blkAlign ?t a + of_nat i" a False] f by (auto simp: line_at_def)
  qed
  moreover have "blk_isReadable b1" "blk_id b1 = blk_id ?b" "blk_isValid b1"
    using at [of a] f ff(2) by (auto simp: line_at_def b1_def blk_isReadable_def blk_id_def blk_isValid_def blk_isSecure_def)
  ultimately show ?thesis using w0 rq clear_dirty [of b1]
    by (intro exI [of _ wb] exI [of _ "clear_status BlkDirty b1"] exI [of _ "c_writebacks c + 1"])
       (simp add: plain_request_def memInhibitAsserted_def wb_def b1_def)
qed


text \<open>A block that has been written back: memory has its contents, nothing else has changed.\<close>

lemma line_clean:
  fixes t k b'
  defines "t' \<equiv> t\<lparr>ts_blks := (ts_blks t)[k := b']\<rparr>"
  assumes ok: "lines_ok cov m t" and f: "findBlock t a False = Some k"
    and b: "blk_id b' = blk_id (ts_blks t ! k)" "blk_data b' = blk_data (ts_blks t ! k)" "blk_isReadable b'"
  shows "lines_ok cov (spill t k m) t'" "view t' (spill t k m) = view t m" "findBlock t' = findBlock t" "same_geom t t'"
proof -
  have inv: "tags_inv t" and bl: "blocks_ok t" and at: "\<And>x. line_at cov m t x" using ok by (auto simp: lines_ok_def)
  have len: "length (blk_data b') = unat (ts_blkSize t)" using found_len [OF inv bl f] b(2) by simp
  note u = line_update [OF inv bl f b(1) len, folded t'_def]
  note sp = spill_line [OF inv bl f, of m]
  have v: "view t' (spill t k m) x = view t m x" for x
    using u(5) [of "spill t k m" x] sp [of x] b(2) findBlock_line [OF inv_geom [OF inv], of x a False] f
    by (cases "findBlock t x False") (auto simp: view_def)
  then show "view t' (spill t k m) = view t m" by blast
  have "line_at cov (spill t k m) t' x" for x
  proof (cases "blkAlign t x = blkAlign t a")
    case True
    then show ?thesis using u(6) [of cov "spill t k m" x] sp [of x] b at [of x] findBlock_line [OF inv_geom [OF inv] True, of False] f
      by (auto simp: line_at_def)
  next
    case False
    then show ?thesis using u(6) [of cov "spill t k m" x] sp [of x] at [of x] by (simp add: line_at_def)
  qed
  then show "lines_ok cov (spill t k m) t'" using u(1,4) by (simp add: lines_ok_def)
  show "findBlock t' = findBlock t" "same_geom t t'" by (fact u)+
qed

lemma plain_data: "plain_request cov n p d \<Longrightarrow> pkt_data p = Some d"
  by (simp add: plain_request_def carries_def)

text \<open>Finding room for a line: the victim, if it is dirty, is queued for write-back, and has become clean.\<close>

lemma allocate_law:
  assumes st: "static_ok c" and ok: "lines_ok cov m (c_tags c)"
  shows "\<exists>k c' wbs' m'. allocateBlock e h c a wbs = Inr (Some k, c', wbs @ wbs') \<and> k \<in> set (the_set (c_tags c') a) \<and>
     same_cache c c' \<and> findBlock (c_tags c') = findBlock (c_tags c) \<and> drains cov wbs' m m' \<and>
     lines_ok cov m' (c_tags c') \<and> view (c_tags c') m' = view (c_tags c) m \<and> spill (c_tags c') k m' = m'"
proof -
  let ?t = "c_tags c"
  have inv: "tags_inv ?t" and bl: "blocks_ok ?t" using ok by (auto simp: lines_ok_def)
  obtain k where k: "tags_findVictim e c a = Inr k" "k \<in> set (the_set ?t a)" using tags_victim_law [OF inv] by blast
  have kl: "k < length (ts_blks ?t)" using the_set_bound [OF _ k(2)] inv by (simp add: tags_inv_def)
  let ?b = "ts_blks ?t ! k"
  have nm: "findMatch h (c_mshrQueue c) x s = None" for x s using st by (simp add: static_ok_def findMatch_def)
  show ?thesis
  proof (cases "blk_isValid ?b \<and> blk_isDirty ?b")
    case False
    then have "allocateBlock e h c a wbs = Inr (Some k, c, wbs @ [])" using k(1) nm by (auto simp: allocateBlock_def Let_def)
    moreover have "spill ?t k m = m"
      using False spill_clean [OF ok kl] by (cases "blk_isValid ?b") (simp_all add: spill_def)
    ultimately show ?thesis using k(2) ok by (intro exI [of _ k] exI [of _ c] exI [of _ "[]"] exI [of _ m]) simp
  next
    case True
    then obtain x where x: "findBlock ?t x False = Some k" using bl kl by (auto simp: blocks_ok_def)
    obtain wb b' w where w: "writebackBlk e c (Tag_Blk k) = Inr (wb, c\<lparr>c_writebacks := w, c_tags := upd_blk ?t k (\<lambda>_. b')\<rparr>)"
      "plain_request cov 1 wb (blk_data ?b)" "pkt_cmd wb = Writeback" "\<not> req_isInstFetch (pkt_req wb)"
      "pkt_addr wb = blkAlign ?t x" "blk_data b' = blk_data ?b" "blk_id b' = blk_id ?b" "\<not> blk_isDirty b'" "blk_isReadable b'"
      using writeback_law [OF st ok x] True by blast
    define t' where "t' = upd_blk ?t k (\<lambda>_. b')"
    define c' where "c' = c\<lparr>c_writebacks := w, c_tags := t'\<rparr>"
    note l = line_clean [OF ok x w(7,6,9), folded t'_def]
    have "allocateBlock e h c a wbs = Inr (Some k, c', wbs @ [wb])"
      using k(1) nm True w(1) by (simp add: allocateBlock_def Let_def c'_def t'_def)
    moreover have "drains cov [wb] m (spill ?t k m)"
      using w(2-5) True found_facts(6) [OF inv x] by (auto simp: spill_def)
    moreover have "spill t' k (spill ?t k m) = spill ?t k m"
      using w(8) kl by (intro spill_clean [OF l(1)]) (simp_all add: t'_def)
    moreover have "the_set t' a = the_set ?t a" by (simp add: t'_def extractSet_def)
    ultimately show ?thesis using k(2) l
      by (intro exI [of _ k] exI [of _ c'] exI [of _ "[wb]"] exI [of _ "spill ?t k m"])
         (simp add: c'_def same_cache_def)
  qed
qed


section \<open>Fills\<close>

text \<open>A fill without a block, once the block \<open>k\<close> has been put into the tag store \<open>t\<close>.\<close>

definition filled :: "64 word \<Rightarrow> 8 word list \<Rightarrow> cache_blk \<Rightarrow> cache_blk" where
  "filled w d b = (or_status BlkWritable (or_status (BlkValid OR BlkReadable) b))\<lparr>blk_data := d, whenReady := w\<rparr>"

lemma filled_facts:
  "blk_data (filled w d b) = d" "blk_isReadable (filled w d b)" "blk_isWritable (filled w d b)"
  "blk_id (filled w d b) = blk_id (b\<lparr>blk_status := blk_status b OR (BlkValid OR BlkReadable OR BlkWritable)\<rparr>)"
proof -
  let ?r = "BlkReadable OR BlkValid :: 32 word" and ?w = "BlkWritable OR BlkValid :: 32 word"
  let ?m = "BlkValid OR BlkReadable OR BlkWritable :: 32 word"
  have s: "blk_status (filled w d b) = blk_status b OR ?m"
    by (simp add: filled_def or_status_def or.assoc)
  have "?m AND ?r = ?r" "?m AND ?w = ?w" by simp_all
  then have "(blk_status b OR ?m) AND ?r = ?r" "(blk_status b OR ?m) AND ?w = ?w" by (intro and_or_absorb; simp)+
  then show "blk_isReadable (filled w d b)" "blk_isWritable (filled w d b)"
    unfolding blk_isReadable_def blk_isWritable_def s .
  show "blk_data (filled w d b) = d" by (simp add: filled_def)
  have u: "blk_status (b\<lparr>blk_status := x\<rparr>) = x" for x by simp
  have "blk_isValid (filled w d b) = blk_isValid (b\<lparr>blk_status := blk_status b OR ?m\<rparr>)"
    "blk_isSecure (filled w d b) = blk_isSecure (b\<lparr>blk_status := blk_status b OR ?m\<rparr>)"
    unfolding blk_isValid_def blk_isSecure_def s u by (rule refl)+
  then show "blk_id (filled w d b) = blk_id (b\<lparr>blk_status := blk_status b OR ?m\<rparr>)"
    unfolding blk_id_def by (simp add: s) (simp add: filled_def)
qed


text \<open>A packet that fills a line for the processor: a response with the line, or a request that will overwrite all of it.\<close>

definition fill_packet :: "'x cache_scheme \<Rightarrow> 's packet \<Rightarrow> 8 word list \<Rightarrow> bool" where
  "fill_packet c p d \<longleftrightarrow> carries p d \<and> pkt_size p = c_blkSize c \<and> \<not> pkt_isSecure p \<and> \<not> sharedAsserted p \<and>
     \<not> memInhibitAsserted p \<and> unat (req_masterId (pkt_req p)) < c_maxMasters c \<and>
     pkt_cmd p \<in> {ReadResp, ReadExResp, UpgradeResp, WriteInvalidateReq}"

lemma fill_cmd:
  assumes "fill_packet c p d"
  shows "isResponse (pkt_cmd p) \<or> isWriteInvalidate (pkt_cmd p)" "isRead (pkt_cmd p) \<longleftrightarrow> pkt_cmd p \<in> {ReadResp, ReadExResp}"
    "isRead (pkt_cmd p) \<Longrightarrow> hasData (pkt_cmd p)" "pkt_cmd p = WriteInvalidateReq \<Longrightarrow> hasData (pkt_cmd p)"
  using assms by (auto simp: fill_packet_def cmd_attrib_defs)

lemma fill_tail:
  assumes fp: "fill_packet c p d" and k: "k < length (ts_blks (c_tags c1))" and bs: "c_blkSize c1 = c_blkSize c"
    and len: "length (blk_data (ts_blks (c_tags c1) ! k)) = unat (c_blkSize c)"
    and r: "(case blk of None \<Rightarrow> fill_target e h c p []
       | Some bp \<Rightarrow>
           bindE (assertE (blk_tag (blk_at c bp) = extractTag (c_tags c) (pkt_addr p))) (\<lambda>_.
           bindE (assertE (hasData (pkt_cmd p) \<or> blk_isValid (blk_at c bp))) (\<lambda>_. Inr (bp, c, [])))) = Inr (Tag_Blk k, c1, wbs)"
  shows "\<exists>w. handleFill e h c p blk [] = Inr (Tag_Blk k,
     c1\<lparr>c_tags := upd_blk (c_tags c1) k (\<lambda>b. filled w (if isRead (pkt_cmd p) then d else blk_data b) b)\<rparr>, wbs)"
proof -
  let ?b = "ts_blks (c_tags c1) ! k"
  let ?b1 = "or_status BlkWritable (or_status (BlkValid OR BlkReadable) ?b)"
  let ?w = "e_clockEdge e 0 + fillLatency c1 * e_clockPeriod e + ucast (payloadDelay p)"
  have f: "carries p d" "\<not> pkt_isSecure p" "\<not> sharedAsserted p" "\<not> memInhibitAsserted p" "pkt_size p = c_blkSize c"
    and dl: "unat (c_blkSize c) = length d" using fp by (auto simp: fill_packet_def carries_def)
  have s: "isSecure p = Inr False" using f by (simp add: isSecure_def carries_def)
  note ca = carries_access [OF f(1)]
  have cp: "memcpy (blk_data ?b) 0 d 0 (length d) = Inr d" using len dl by (auto simp: memcpy_def)
  show ?thesis
  proof (cases "isRead (pkt_cmd p)")
    case True
    then have "handleFill e h c p blk [] = Inr (Tag_Blk k, c1\<lparr>c_tags := upd_blk (c_tags c1) k (\<lambda>b. filled ?w d b)\<rparr>, wbs)"
      unfolding handleFill_def using fill_cmd [OF fp] ca s r f k cp dl bs by (simp add: filled_def)
    then show ?thesis using True by auto
  next
    case False
    have "handleFill e h c p blk [] = Inr (Tag_Blk k, c1\<lparr>c_tags := upd_blk (c_tags c1) k (\<lambda>b. ?b1\<lparr>whenReady := ?w\<rparr>)\<rparr>, wbs)"
      unfolding handleFill_def using fill_cmd(1) [OF fp] False ca s r f k by simp
    moreover have "?b1\<lparr>whenReady := ?w\<rparr> = filled ?w (blk_data ?b) ?b" by (simp add: filled_def or_status_def)
    ultimately show ?thesis using False by auto
  qed
qed


text \<open>
  The outcome of a fill: write-backs that keep what the cache shows, and a block in which the request can be served. A
  line that is about to be overwritten as a whole need not be in order yet.
\<close>

definition fill_outcome ::
    "(addr \<Rightarrow> bool) \<Rightarrow> 'x cache_scheme \<Rightarrow> (addr \<Rightarrow> 8 word) \<Rightarrow> addr \<Rightarrow> bool \<Rightarrow>
     (blk_ptr \<times> 'x cache_scheme \<times> sender packet list) res \<Rightarrow> bool" where
  "fill_outcome cov c m a whole r \<longleftrightarrow>
     (\<exists>k c' wbs m'. r = Inr (Tag_Blk k, c', wbs) \<and> same_cache c c' \<and> drains cov wbs m m' \<and>
        tags_inv (c_tags c') \<and> blocks_ok (c_tags c') \<and> findBlock (c_tags c') a False = Some k \<and>
        blk_isReadable (ts_blks (c_tags c') ! k) \<and> blk_isWritable (ts_blks (c_tags c') ! k) \<and>
        (\<forall>x. whole \<and> blkAlign (c_tags c) x = blkAlign (c_tags c) a \<or>
           line_at cov m' (c_tags c') x \<and> view (c_tags c') m' x = view (c_tags c) m x))"

text \<open>A block taken over for a line and made readable and writable.\<close>

lemma insert_filled:
  assumes inv: "tags_inv (c_tags c)" and k: "k \<in> set (the_set (c_tags c) (pkt_addr p))" and pk: "isSet (pkt_flags p) VALID_ADDR"
    and m: "unat (req_masterId (pkt_req p)) < maxMasters (c_tags c)" and miss: "findBlock (c_tags c) (pkt_addr p) False = None"
  shows "\<exists>t. tags_insertBlock e c p k = Inr (c\<lparr>c_tags := t\<rparr>) \<and> same_geom (c_tags c) t \<and>
     ts_blks t = (ts_blks (c_tags c))[k := inserted_blk (e_now e) (c_tags c) p (ts_blks (c_tags c) ! k)] \<and>
     (\<forall>w d. tags_inv (upd_blk t k (filled w d)) \<and>
        (\<forall>x s. findBlock (upd_blk t k (filled w d)) x s =
           (if blkAlign (c_tags c) x = blkAlign (c_tags c) (pkt_addr p) \<and> s = False then Some k
            else if findBlock (c_tags c) x s = Some k then None else findBlock (c_tags c) x s)))"
proof -
  let ?ins = "inserted_blk (e_now e) (c_tags c) p (ts_blks (c_tags c) ! k)"
  let ?s = "BlkValid OR BlkReadable OR BlkWritable :: 32 word"
  have kl: "k < length (ts_blks (c_tags c))" using the_set_bound [OF _ k] inv by (simp add: tags_inv_def)
  have q: "isSet ?s BlkValid" "\<not> isSet ?s BlkSecure" by (simp_all add: isSet_def)
  obtain t where t: "tags_insertBlock e c p k = Inr (c\<lparr>c_tags := t\<rparr>)" "same_geom (c_tags c) t"
    "ts_blks t = (ts_blks (c_tags c))[k := ?ins]" "tags_inv (set_status t k ?s)"
    "\<And>x s. findBlock (set_status t k ?s) x s = (if blkAlign (c_tags c) x = blkAlign (c_tags c) (pkt_addr p) \<and> s = False then Some k
       else if findBlock (c_tags c) x s = Some k then None else findBlock (c_tags c) x s)"
    using tags_insert_law [OF inv k pk m, of e] q miss by auto
  have "tags_inv (upd_blk t k (filled w d))" "findBlock (upd_blk t k (filled w d)) = findBlock (set_status t k ?s)" for w d
  proof -
    have "map blk_id (ts_blks (upd_blk t k (filled w d))) = map blk_id (ts_blks (set_status t k ?s))"
      using kl t(3) filled_facts(4) [of w d ?ins] by (simp add: set_status_def map_update)
    moreover have "same_frame (set_status t k ?s) (upd_blk t k (filled w d))" by (simp add: same_frame_def set_status_def)
    ultimately show "tags_inv (upd_blk t k (filled w d))" "findBlock (upd_blk t k (filled w d)) = findBlock (set_status t k ?s)"
      using inv_blk_id [OF t(4), of "upd_blk t k (filled w d)"] by (simp_all add: set_status_def)
  qed
  then show ?thesis using t(1-3,5) by (intro exI [of _ t]) simp
qed

lemma fill_new:
  assumes st: "static_ok c" and ok: "lines_ok cov m (c_tags c)" and miss: "findBlock (c_tags c) (pkt_addr p) False = None"
    and fp: "fill_packet c p d" and cmd: "pkt_cmd p \<noteq> UpgradeResp"
    and cov: "\<And>x. blkAlign (c_tags c) x = blkAlign (c_tags c) (pkt_addr p) \<Longrightarrow> cov x"
    and d: "\<And>x. isRead (pkt_cmd p) \<Longrightarrow> blkAlign (c_tags c) x = blkAlign (c_tags c) (pkt_addr p) \<Longrightarrow> d ! line_off (c_tags c) x = m x"
  shows "fill_outcome cov c m (pkt_addr p) (pkt_cmd p = WriteInvalidateReq) (handleFill e h c p None [])"
proof -
  let ?a = "pkt_addr p"
  have inv: "tags_inv (c_tags c)" using ok by (simp add: lines_ok_def)
  obtain k c1 wbs m1 where al: "allocateBlock e h c ?a [] = Inr (Some k, c1, [] @ wbs)" "k \<in> set (the_set (c_tags c1) ?a)"
    "same_cache c c1" "findBlock (c_tags c1) = findBlock (c_tags c)" "drains cov wbs m m1"
    "lines_ok cov m1 (c_tags c1)" "view (c_tags c1) m1 = view (c_tags c) m" "spill (c_tags c1) k m1 = m1"
    using allocate_law [OF st ok] by blast
  have inv1: "tags_inv (c_tags c1)" and bl1: "blocks_ok (c_tags c1)" using al(6) by (auto simp: lines_ok_def)
  note st1 = same_cache_static [OF al(3) st]
  have geo: "ts_blkSize (c_tags c1) = ts_blkSize (c_tags c)" "maxMasters (c_tags c1) = maxMasters (c_tags c)"
    "blkAlign (c_tags c1) = blkAlign (c_tags c)" "c_blkSize c1 = c_blkSize c"
    using same_cache_geom [OF al(3)] same_geom_addr [OF same_cache_geom [OF al(3)]] al(3) by (auto simp: same_geom_def same_cache_def)
  have kl: "k < length (ts_blks (c_tags c1))" using the_set_bound [OF _ al(2)] inv1 by (simp add: tags_inv_def)
  have mm: "unat (req_masterId (pkt_req p)) < maxMasters (c_tags c1)" "isSet (pkt_flags p) VALID_ADDR"
    using fp st geo by (auto simp: fill_packet_def static_ok_def carries_def)
  let ?ins = "inserted_blk (e_now e) (c_tags c1) p (ts_blks (c_tags c1) ! k)"
  obtain t2 where t2: "tags_insertBlock e c1 p k = Inr (c1\<lparr>c_tags := t2\<rparr>)" "same_geom (c_tags c1) t2"
    "ts_blks t2 = (ts_blks (c_tags c1))[k := ?ins]" "\<And>w D. tags_inv (upd_blk t2 k (filled w D))"
    "\<And>w D x s. findBlock (upd_blk t2 k (filled w D)) x s =
       (if blkAlign (c_tags c) x = blkAlign (c_tags c) ?a \<and> s = False then Some k
        else if findBlock (c_tags c) x s = Some k then None else findBlock (c_tags c) x s)"
    using insert_filled [OF inv1 al(2) mm(2,1), of e] miss unfolding al(4) geo by blast
  have nv: "\<not> blk_isValid ?ins" by (simp add: inserted_blk_def blk_isValid_def)
  have ftc: "fill_target e h c p [] = Inr (Tag_Blk k, c1\<lparr>c_tags := t2\<rparr>, wbs)"
  proof -
    have c: "carries p d" "isRead (pkt_cmd p) \<or> isWriteInvalidate (pkt_cmd p)" "hasData (pkt_cmd p)"
      using fp cmd by (auto simp: fill_packet_def cmd_attrib_defs)
    then show ?thesis using al(1) t2(1,3) kl nv carries_access(1) [OF c(1)] by (simp add: fill_target_def)
  qed
  define D where "D = (if isRead (pkt_cmd p) then d else blk_data ?ins)"
  have Dl: "length D = unat (ts_blkSize (c_tags c1))" "length (blk_data ?ins) = unat (c_blkSize c)"
    using blocks_len [OF bl1 kl] fp st geo by (auto simp: D_def fill_packet_def carries_def static_ok_def inserted_blk_def)
  obtain w where hf: "handleFill e h c p None [] = Inr (Tag_Blk k, c1\<lparr>c_tags := upd_blk t2 k (\<lambda>b. filled w D b)\<rparr>, wbs)"
    using fill_tail [OF fp, of k "c1\<lparr>c_tags := t2\<rparr>", where blk = None and e = e and h = h and wbs = wbs] ftc kl t2(3) geo Dl(2) by (auto simp: D_def cong: if_cong)
  define t' where "t' = upd_blk t2 k (\<lambda>b. filled w D b)"
  have b': "ts_blks t' = (ts_blks (c_tags c1))[k := filled w D ?ins]" using t2(3) kl by (simp add: t'_def)
  note inv' = t2(4) [of w D, folded t'_def] and f' = t2(5) [of w D, folded t'_def]
  have g': "same_geom (c_tags c1) t'" using t2(2) by (simp add: t'_def)
  have len: "length (blk_data (filled w D ?ins)) = unat (ts_blkSize (c_tags c1))" using Dl(1) by (simp add: filled_facts)
  note li = line_install [OF al(6) inv' g' kl _ _ b' len, of ?a, unfolded al(4,7,8) geo filled_facts, OF miss f']
  have sc: "same_cache c (c1\<lparr>c_tags := t'\<rparr>)" by (rule same_cache_trans [OF al(3) same_cache_tags [OF g']])
  have nth: "ts_blks t' ! k = filled w D ?ins" using b' kl by simp
  have "pkt_cmd p = WriteInvalidateReq \<and> blkAlign (c_tags c) x = blkAlign (c_tags c) ?a \<or>
      line_at cov m1 t' x \<and> view t' m1 x = view (c_tags c) m x" for x
  proof (cases "blkAlign (c_tags c) x = blkAlign (c_tags c) ?a")
    case False
    then show ?thesis using li(3,4) by simp
  next
    case True
    show ?thesis
    proof (cases "isRead (pkt_cmd p)")
      case False
      then show ?thesis using True fp fill_cmd(2) [OF fp] cmd by (auto simp: fill_packet_def)
    next
      case read: True
      have none: "findBlock (c_tags c) x False = None" using findBlock_line [OF inv_geom [OF inv] True, of False] miss by simp
      then have "m1 x = m x" using fun_cong [OF al(7), of x] al(4) by (simp add: view_def)
      moreover have "D ! line_off (c_tags c) x = m x" using d [OF read True] read by (simp add: D_def)
      moreover have "findBlock t' x False = Some k" using f' [of x False] True by simp
      ultimately show ?thesis using li(3) [of x] True none nth cov [OF True] filled_facts(1,2)
        same_geom_addr(3) [OF g'] geo(3) by (simp add: line_at_def view_def)
    qed
  qed
  then show ?thesis unfolding fill_outcome_def using hf [folded t'_def] al(5) sc inv' li(1,2) nth filled_facts(2,3)
    by (intro exI [of _ k] exI [of _ "c1\<lparr>c_tags := t'\<rparr>"] exI [of _ wbs] exI [of _ m1]) simp
qed


lemma filled_valid:
  assumes "blk_isValid b"
  shows "blk_id (filled w d b) = blk_id b" "blk_isDirty (filled w d b) = blk_isDirty b"
proof -
  let ?b = "or_status BlkWritable (or_status (BlkValid OR BlkReadable) b)"
  have e: "filled w d b = ?b\<lparr>blk_data := d, whenReady := w\<rparr>" by (simp add: filled_def)
  have "blk_id ?b = blk_id b" using assms by (simp add: or_status_id or_status_bits)
  moreover have "blk_id (?b\<lparr>blk_data := d, whenReady := w\<rparr>) = blk_id ?b" by (simp add: blk_id_def blk_isValid_def blk_isSecure_def)
  ultimately show "blk_id (filled w d b) = blk_id b" unfolding e by simp
  show "blk_isDirty (filled w d b) = blk_isDirty b"
    using or_status_bits(3) [of BlkWritable "or_status (BlkValid OR BlkReadable) b"] or_status_bits(3) [of "BlkValid OR BlkReadable" b]
    unfolding e by (simp add: blk_isDirty_def)
qed

lemma fill_found:
  assumes st: "static_ok c" and ok: "lines_ok cov m (c_tags c)" and f: "findBlock (c_tags c) (pkt_addr p) False = Some k"
    and fp: "fill_packet c p d" and cmd: "\<not> isRead (pkt_cmd p)"
  shows "fill_outcome cov c m (pkt_addr p) False (handleFill e h c p (Some (Tag_Blk k)) [])"
proof -
  let ?t = "c_tags c"
  let ?b = "ts_blks ?t ! k"
  have inv: "tags_inv ?t" and bl: "blocks_ok ?t" and at: "\<And>x. line_at cov m ?t x" using ok by (auto simp: lines_ok_def)
  note ff = found_facts [OF inv f] and len = found_len [OF inv bl f]
  have bs: "c_blkSize c = ts_blkSize ?t" using st by (simp add: static_ok_def)
  obtain w where hf: "handleFill e h c p (Some (Tag_Blk k)) [] =
      Inr (Tag_Blk k, c\<lparr>c_tags := upd_blk ?t k (\<lambda>b. filled w (blk_data b) b)\<rparr>, [])"
    using fill_tail [OF fp ff(1), where blk = "Some (Tag_Blk k)" and e = e and h = h and wbs = "[]"] cmd ff len bs by auto
  define t' where "t' = upd_blk ?t k (\<lambda>b. filled w (blk_data b) b)"
  have len': "length (blk_data (filled w (blk_data ?b) ?b)) = unat (ts_blkSize ?t)" using len by (simp add: filled_facts)
  note u = line_update [OF inv bl f filled_valid(1) [OF ff(2)] len', folded t'_def, unfolded filled_facts filled_valid [OF ff(2)]]
  have "line_at cov m t' x \<and> view t' m x = view ?t m x" for x
    using u(5) [of m x] u(6) [of cov m x] at [of x] findBlock_line [OF inv_geom [OF inv], of x "pkt_addr p" False] f filled_facts(2)
    by (cases "blkAlign ?t x = blkAlign ?t (pkt_addr p)") (auto simp: line_at_def view_def)
  moreover have "ts_blks t' ! k = filled w (blk_data ?b) ?b" using ff(1) by (simp add: t'_def)
  ultimately show ?thesis unfolding fill_outcome_def using hf [folded t'_def] u(1-4) f filled_facts(2,3)
    by (intro exI [of _ k] exI [of _ "c\<lparr>c_tags := t'\<rparr>"] exI [of _ "[]"] exI [of _ m]) (simp add: same_cache_tags)
qed


section \<open>Requests\<close>

text \<open>A request of the processor inside a line that memory covers.\<close>

definition request_ok :: "'x cache_scheme \<Rightarrow> (addr \<Rightarrow> bool) \<Rightarrow> 's packet \<Rightarrow> 8 word list \<Rightarrow> bool" where
  "request_ok c cov p d \<longleftrightarrow> in_line (c_tags c) p d \<and> (cpu_cmd (pkt_cmd p) \<or> pkt_cmd p = WriteInvalidateReq) \<and>
     req_ok (pkt_req p) \<and> req_paddr (pkt_req p) = pkt_addr p \<and> \<not> pkt_isSecure p \<and> \<not> req_isSecure (pkt_req p) \<and>
     \<not> memInhibitAsserted p \<and> \<not> sharedAsserted p \<and> unat (req_masterId (pkt_req p)) < c_maxMasters c \<and>
     (pkt_cmd p = SwapReq \<longrightarrow> swap_ok p) \<and> (pkt_cmd p = WriteInvalidateReq \<longrightarrow> pkt_size p = c_blkSize c) \<and>
     (\<forall>i < unat (c_blkSize c). cov (blkAlign (c_tags c) (pkt_addr p) + of_nat i))"

lemma request_cov:
  assumes "static_ok c" "tags_inv (c_tags c)" "request_ok c cov p d" "blkAlign (c_tags c) x = blkAlign (c_tags c) (pkt_addr p)"
  shows "cov x"
proof -
  let ?i = "line_off (c_tags c) x"
  have "?i < unat (c_blkSize c)" using line_off_bound [OF inv_geom [OF assms(2)], of x] assms(1) by (simp add: static_ok_def)
  then have "cov (blkAlign (c_tags c) (pkt_addr p) + of_nat ?i)" using assms(3) unfolding request_ok_def by blast
  then show ?thesis using assms(4) by simp
qed

lemma request_config: "same_cache c c' \<Longrightarrow> request_ok c' cov p d = request_ok c cov p d"
  using same_geom_addr(3) [OF same_cache_geom, of c c']
  by (auto simp: request_ok_def in_line_def same_cache_def same_geom_def)

text \<open>A request for a whole line overwrites all of it, so what the line held does not matter.\<close>

lemma serves_whole:
  assumes g: "tags_geom t" and il: "in_line t p d" and n: "length d = unat (ts_blkSize t)" and cmd: "pkt_cmd p = WriteInvalidateReq"
    and v: "\<And>x. blkAlign t x \<noteq> blkAlign t (pkt_addr p) \<Longrightarrow> v x = u x" and s: "serves v v' p p'"
  shows "serves u v' p p'"
proof -
  have d: "pkt_data p = Some d" "line_off t (pkt_addr p) = 0" "line_off t (pkt_addr p) + length d \<le> unat (ts_blkSize t)"
    using il n by (auto simp: in_line_def carries_def)
  have "mem_write v (pkt_addr p) d x = mem_write u (pkt_addr p) d x" for x
    using mem_write_line [OF g d(3), of _ x] v [of x] line_off_bound [OF g, of x] n d(2) by auto
  then have "mem_write v (pkt_addr p) d = mem_write u (pkt_addr p) d" by blast
  then show ?thesis using s cmd d(1) by (simp add: serves_def cmd_attrib_defs)
qed

text \<open>The request is served once the line is there.\<close>

definition atomic_outcome ::
    "(addr \<Rightarrow> bool) \<Rightarrow> 'x cache_scheme \<Rightarrow> (addr \<Rightarrow> 8 word) \<Rightarrow> sender packet \<Rightarrow>
     ('x cache_scheme \<times> sender packet \<times> sender packet list) res \<Rightarrow> bool" where
  "atomic_outcome cov c m p r \<longleftrightarrow>
     (\<exists>c' p' wbs m'. r = Inr (c', p', wbs) \<and> same_cache c c' \<and> drains cov wbs m m' \<and> lines_ok cov m' (c_tags c') \<and>
        (pkt_cmd p' = pkt_cmd p \<or> isResponse (pkt_cmd p')) \<and> serves (view (c_tags c) m) (view (c_tags c') m') p p')"

lemma fill_serve:
  assumes st: "static_ok c" and inv: "tags_inv (c_tags c)" and rq: "request_ok c cov p d"
    and fo: "fill_outcome cov c m a (pkt_cmd p = WriteInvalidateReq) r"
    and a: "blkAlign (c_tags c) (pkt_addr p) = blkAlign (c_tags c) a"
  shows "atomic_outcome cov c m p
     (bindE r (\<lambda>(bp, c, wbs). bindE (satisfyCpuSideRequest e c p (Some bp) False False) (\<lambda>(c, pkt). Inr (c, pkt, wbs))))"
proof -
  let ?t = "c_tags c"
  obtain k c1 wbs m1 where f: "r = Inr (Tag_Blk k, c1, wbs)" "same_cache c c1" "drains cov wbs m m1" "tags_inv (c_tags c1)"
    "blocks_ok (c_tags c1)" "findBlock (c_tags c1) a False = Some k" "blk_isReadable (ts_blks (c_tags c1) ! k)"
    "blk_isWritable (ts_blks (c_tags c1) ! k)"
    "\<And>x. pkt_cmd p = WriteInvalidateReq \<and> blkAlign ?t x = blkAlign ?t a \<or>
        line_at cov m1 (c_tags c1) x \<and> view (c_tags c1) m1 x = view ?t m x"
    using fo unfolding fill_outcome_def by blast
  note st1 = same_cache_static [OF f(2) st] and al = same_geom_addr(3) [OF same_cache_geom [OF f(2)]]
  have rq1: "request_ok c1 cov p d" using rq request_config [OF f(2)] by blast
  then have r1: "in_line (c_tags c1) p d" "req_ok (pkt_req p)" "cpu_cmd (pkt_cmd p) \<or> pkt_cmd p = WriteInvalidateReq"
    "pkt_cmd p = SwapReq \<Longrightarrow> swap_ok p" by (auto simp: request_ok_def)
  have k: "findBlock (c_tags c1) (pkt_addr p) False = Some k"
    using findBlock_line [OF inv_geom [OF f(4)], of "pkt_addr p" a False] a al f(6) by simp
  obtain t2 p' where s: "satisfyCpuSideRequest e c1 p (Some (Tag_Blk k)) False False = Inr (c1\<lparr>c_tags := t2\<rparr>, p')"
    "tags_inv t2" "same_geom (c_tags c1) t2" "blocks_ok t2" "pkt_cmd p' = pkt_cmd p" "serves (view (c_tags c1) m1) (view t2 m1) p p'"
    "\<And>x. blkAlign ?t x \<noteq> blkAlign ?t (pkt_addr p) \<Longrightarrow> line_at cov m1 t2 x = line_at cov m1 (c_tags c1) x"
    "\<And>x. blkAlign ?t x = blkAlign ?t (pkt_addr p) \<Longrightarrow> cov x \<Longrightarrow> pkt_cmd p = WriteInvalidateReq \<or> line_at cov m1 (c_tags c1) x \<Longrightarrow>
       line_at cov m1 t2 x"
    using serve_law [OF st1 f(4,5) k r1 f(7,8), of cov e] unfolding served_def al by blast
  have "line_at cov m1 t2 x" for x
    using s(7,8) [of x] f(9) [of x] a request_cov [OF st inv rq, of x] by (cases "blkAlign ?t x = blkAlign ?t a") auto
  then have "lines_ok cov m1 t2" using s(2,4) by (simp add: lines_ok_def)
  moreover have "serves (view ?t m) (view t2 m1) p p'"
  proof (cases "pkt_cmd p = WriteInvalidateReq")
    case True
    have "view (c_tags c1) m1 x = view ?t m x" if "blkAlign ?t x \<noteq> blkAlign ?t (pkt_addr p)" for x
      using f(9) [of x] that a by simp
    moreover have "length d = unat (ts_blkSize ?t)" "in_line ?t p d"
      using True rq st by (auto simp: request_ok_def static_ok_def in_line_def carries_def)
    ultimately show ?thesis using serves_whole [OF inv_geom [OF inv] _ _ True _ s(6)] by blast
  next
    case False
    then have "view (c_tags c1) m1 = view ?t m" using f(9) by blast
    then show ?thesis using s(6) by simp
  qed
  moreover have "same_cache c (c1\<lparr>c_tags := t2\<rparr>)" by (rule same_cache_trans [OF f(2) same_cache_tags [OF s(3)]])
  ultimately show ?thesis unfolding atomic_outcome_def using f(1,3) s(1,5)
    by (intro exI [of _ "c1\<lparr>c_tags := t2\<rparr>"] exI [of _ p'] exI [of _ wbs] exI [of _ m1]) simp
qed


section \<open>Access\<close>

lemma request_deeper [simp]:
  "request_ok c cov (p\<lparr>pkt_req := incAccessDepth (pkt_req p)\<rparr>) d = request_ok c cov p d"
  "serves v v' (p\<lparr>pkt_req := incAccessDepth (pkt_req p)\<rparr>) p' = serves v v' p p'"
  by (simp_all add: request_ok_def incAccessDepth_def in_line_def carries_def req_ok_def req_isSecure_def memInhibitAsserted_def
      sharedAsserted_def swap_ok_def req_isCondSwap_def extraDataValid_def serves_def Let_def swap_condition_def getSize_def
      getExtraData_def)

lemma incMissCount_law:
  assumes "request_ok c cov p d"
  shows "\<exists>c'. incMissCount c p = Inr (c', p\<lparr>pkt_req := incAccessDepth (pkt_req p)\<rparr>) \<and> same_cache c c' \<and> c_tags c' = c_tags c"
  using assms by (simp add: incMissCount_def request_ok_def Let_def)

lemma access_lines:
  assumes ok: "lines_ok cov m (c_tags c)"
  shows "\<exists>lt c'. tags_accessBlock e c a False = Inr (findBlock (c_tags c) a False, lt, c') \<and> same_cache c c' \<and>
     findBlock (c_tags c') = findBlock (c_tags c) \<and> lines_ok cov m (c_tags c') \<and> view (c_tags c') m = view (c_tags c) m"
proof -
  let ?t = "c_tags c"
  have inv: "tags_inv ?t" using ok by (simp add: lines_ok_def)
  obtain lt t where t: "tags_accessBlock e c a False = Inr (findBlock ?t a False, lt, c\<lparr>c_tags := t\<rparr>)" "tags_inv t"
    "same_geom ?t t" "findBlock t = findBlock ?t" "map uncounted (ts_blks t) = map uncounted (ts_blks ?t)"
    using tags_access_law [OF inv, of e a False] by blast
  have len: "length (ts_blks t) = length (ts_blks ?t)" using t(5) by (metis length_map)
  have "blk_data (ts_blks t ! k) = blk_data (ts_blks ?t ! k) \<and> blk_status (ts_blks t ! k) = blk_status (ts_blks ?t ! k)"
    if "k < length (ts_blks ?t)" for k
  proof -
    have "uncounted (ts_blks t ! k) = uncounted (ts_blks ?t ! k)" using t(5) len that by (metis nth_map)
    from arg_cong [OF this, of blk_data] arg_cong [OF this, of blk_status] show ?thesis by (simp add: uncounted_def)
  qed
  note ls = lines_same [OF t(2-4) len this inv]
  show ?thesis using t ls ok by (intro exI [of _ lt] exI [of _ "c\<lparr>c_tags := t\<rparr>"]) (simp add: lines_ok_def same_cache_tags)
qed

lemma serve_hit:
  assumes st: "static_ok c" and ok: "lines_ok cov m (c_tags c)" and rq: "request_ok c cov p d"
    and k: "findBlock (c_tags c) (pkt_addr p) False = Some k" "needsExclusive (pkt_cmd p) \<Longrightarrow> blk_isWritable (ts_blks (c_tags c) ! k)"
  shows "\<exists>t p'. satisfyCpuSideRequest e c p (Some (Tag_Blk k)) False False = Inr (c\<lparr>c_tags := t\<rparr>, p') \<and> same_geom (c_tags c) t \<and>
     lines_ok cov m t \<and> pkt_cmd p' = pkt_cmd p \<and> serves (view (c_tags c) m) (view t m) p p'"
proof -
  let ?t = "c_tags c" and ?a = "pkt_addr p"
  have inv: "tags_inv ?t" and bl: "blocks_ok ?t" and at: "\<And>x. line_at cov m ?t x" using ok by (auto simp: lines_ok_def)
  have r: "in_line ?t p d" "req_ok (pkt_req p)" "cpu_cmd (pkt_cmd p) \<or> pkt_cmd p = WriteInvalidateReq"
    "pkt_cmd p = SwapReq \<Longrightarrow> swap_ok p" using rq by (auto simp: request_ok_def)
  have rd: "blk_isReadable (ts_blks ?t ! k)" using at [of ?a] k(1) by (simp add: line_at_def)
  obtain t p' where s: "satisfyCpuSideRequest e c p (Some (Tag_Blk k)) False False = Inr (c\<lparr>c_tags := t\<rparr>, p')"
    "tags_inv t" "same_geom ?t t" "blocks_ok t" "pkt_cmd p' = pkt_cmd p" "serves (view ?t m) (view t m) p p'"
    "\<And>x. blkAlign ?t x \<noteq> blkAlign ?t ?a \<Longrightarrow> line_at cov m t x = line_at cov m ?t x"
    "\<And>x. blkAlign ?t x = blkAlign ?t ?a \<Longrightarrow> cov x \<Longrightarrow> pkt_cmd p = WriteInvalidateReq \<or> line_at cov m ?t x \<Longrightarrow> line_at cov m t x"
    using serve_law [OF st inv bl k(1) r rd k(2), of cov e] unfolding served_def by blast
  have "line_at cov m t x" for x
    using s(7,8) [of x] at [of x] request_cov [OF st inv rq, of x] by (cases "blkAlign ?t x = blkAlign ?t ?a") auto
  then show ?thesis using s(1-6) by (auto simp: lines_ok_def)
qed

lemma access_law:
  assumes st: "static_ok c" and ok: "lines_ok cov m (c_tags c)" and rq: "request_ok c cov p d"
    and cachable: "\<not> req_isUncacheable (pkt_req p)"
  shows "\<exists>sat blk lt c' p'. access e h c p lat [] = Inr (sat, blk, lt, c', p', []) \<and> same_cache c c' \<and> lines_ok cov m (c_tags c') \<and>
     (sat \<and> pkt_cmd p' = pkt_cmd p \<and> serves (view (c_tags c) m) (view (c_tags c') m) p p' \<or>
      \<not> sat \<and> p' = p\<lparr>pkt_req := incAccessDepth (pkt_req p)\<rparr> \<and> view (c_tags c') m = view (c_tags c) m \<and>
      blk = map_option Tag_Blk (findBlock (c_tags c') (pkt_addr p) False) \<and>
      (\<forall>k. findBlock (c_tags c') (pkt_addr p) False = Some k \<longrightarrow> needsExclusive (pkt_cmd p) \<and> \<not> blk_isWritable (ts_blks (c_tags c') ! k)))"
proof -
  let ?t = "c_tags c" and ?a = "pkt_addr p"
  obtain lt c1 where c1: "tags_accessBlock e c ?a False = Inr (findBlock ?t ?a False, lt, c1)" "same_cache c c1"
    "findBlock (c_tags c1) = findBlock ?t" "lines_ok cov m (c_tags c1)" "view (c_tags c1) m = view ?t m"
    using access_lines [OF ok] by blast
  have rd: "blk_isReadable (ts_blks (c_tags c1) ! k)" if "findBlock ?t ?a False = Some k" for k
    using c1(4) that c1(3) by (simp add: lines_ok_def line_at_def)
  note st1 = same_cache_static [OF c1(2) st]
  have rq1: "request_ok c1 cov p d" using rq request_config [OF c1(2)] by blast
  have r: "cpu_cmd (pkt_cmd p) \<or> pkt_cmd p = WriteInvalidateReq"  "carries p d" "\<not> pkt_isSecure p" "unat (req_masterId (pkt_req p)) < c_maxMasters c1"
    using rq1 by (auto simp: request_ok_def in_line_def)
  have cs: "isRequest (pkt_cmd p)" "pkt_cmd p \<noteq> Writeback" using r(1) by (auto simp: cpu_cmd_def cmd_attrib_defs)
  have sec: "isSecure p = Inr False" using r(2,3) by (simp add: isSecure_def carries_def)
  note ca = carries_access(1) [OF r(2)]
  define hit where "hit \<longleftrightarrow> (case findBlock ?t ?a False of None \<Rightarrow> False | Some k \<Rightarrow>
      if needsExclusive (pkt_cmd p) then blk_isWritable (ts_blks (c_tags c1) ! k) else blk_isReadable (ts_blks (c_tags c1) ! k))"
  show ?thesis
  proof (cases hit)
    case True
    then obtain k where k: "findBlock ?t ?a False = Some k" "needsExclusive (pkt_cmd p) \<Longrightarrow> blk_isWritable (ts_blks (c_tags c1) ! k)"
      by (auto simp: hit_def split: option.splits)
    define c2 where "c2 = c1\<lparr>c_hits := bump (c_hits c1) p\<rparr>"
    have c2: "c_tags c2 = c_tags c1" "same_cache c1 c2" "incHitCount c1 p = Inr c2"
      using r(4) by (simp_all add: c2_def incHitCount_def)
    have rq2: "request_ok c2 cov p d" using rq1 request_config [OF c2(2)] by blast
    obtain t2 p' where s: "satisfyCpuSideRequest e c2 p (Some (Tag_Blk k)) False False = Inr (c2\<lparr>c_tags := t2\<rparr>, p')"
      "same_geom (c_tags c2) t2" "lines_ok cov m t2" "pkt_cmd p' = pkt_cmd p" "serves (view (c_tags c2) m) (view t2 m) p p'"
      using serve_hit [OF same_cache_static [OF c2(2) st1] _ rq2, of m k e] k c1(3,4) c2(1) by auto
    have "access e h c p lat [] = Inr (True, Some (Tag_Blk k), lt, c2\<lparr>c_tags := t2\<rparr>, p', [])"
      using cs cachable ca sec c1(1) k rd [OF k(1)] c2(3) s(1) by (simp add: access_def)
    moreover have "same_cache c (c2\<lparr>c_tags := t2\<rparr>)"
      by (rule same_cache_trans [OF same_cache_trans [OF c1(2) c2(2)] same_cache_tags [OF s(2)]])
    ultimately show ?thesis using s(3-5) c1(5) c2(1) by simp blast
  next
    case False
    obtain c2 where c2: "incMissCount c1 p = Inr (c2, p\<lparr>pkt_req := incAccessDepth (pkt_req p)\<rparr>)" "same_cache c1 c2" "c_tags c2 = c_tags c1"
      using incMissCount_law [OF rq1] by blast
    have sc: "same_cache c c2" by (rule same_cache_trans [OF c1(2) c2(2)])
    have acc: "access e h c p lat [] =
       (if map_option Tag_Blk (findBlock ?t ?a False) = None \<and> isLLSC (pkt_cmd p) \<and> isWrite (pkt_cmd p)
        then Inr (True, map_option Tag_Blk (findBlock ?t ?a False), lt, c2,
               p\<lparr>pkt_req := setExtraData (incAccessDepth (pkt_req p)) 0\<rparr>, [])
        else Inr (False, map_option Tag_Blk (findBlock ?t ?a False), lt, c2, p\<lparr>pkt_req := incAccessDepth (pkt_req p)\<rparr>, []))"
      using cs cachable ca sec c1(1) False c2(1)
      by (cases "findBlock ?t ?a False") (auto simp: access_def hit_def Let_def split: if_splits)
    show ?thesis
    proof (cases "findBlock ?t ?a False = None \<and> isLLSC (pkt_cmd p) \<and> isWrite (pkt_cmd p)")
      case True
      have "pkt_cmd p = StoreCondReq" using True r(1) by (auto simp: cpu_cmd_def cmd_attrib_defs)
      then have "serves (view ?t m) (view (c_tags c2) m) p (p\<lparr>pkt_req := setExtraData (incAccessDepth (pkt_req p)) 0\<rparr>)"
        using c1(5) c2(3) by (simp add: serves_def Let_def setExtraData_def cmd_attrib_defs)
      then show ?thesis using acc True sc c1(4) c2(3) by simp blast
    next
      case miss: False
      have "needsExclusive (pkt_cmd p) \<and> \<not> blk_isWritable (ts_blks (c_tags c2) ! k)" if "findBlock ?t ?a False = Some k" for k
        using False that rd [OF that] c2(3) by (auto simp: hit_def split: if_splits)
      moreover have "access e h c p lat [] =
          Inr (False, map_option Tag_Blk (findBlock ?t ?a False), lt, c2, p\<lparr>pkt_req := incAccessDepth (pkt_req p)\<rparr>, [])"
        using acc miss by auto
      ultimately show ?thesis using sc c1(3-5) c2(3) by simp blast
    qed
  qed
qed

end
