(* ===== verification/Simple_Memory.thy ===== *)
theory Simple_Memory
  imports Abstract_Memory Sim_Event Complex_Main
begin

text \<open>
  The single-ported memory controller of \<open>src/gem5_src/mem/simple_mem.hh\<close> and \<open>simple_mem.cc\<close>. Its record extends the
  abstract memory. A request is served when it is accepted; its response waits in a queue for the latency, and the bandwidth
  is a busy period after each request. The random part of the latency and the answer of the port's peer are arguments. While
  it takes a response the peer may send requests of its own, so its answer also says what it does to the controller.
  The bandwidth, ticks per byte, is a rational number.
\<close>

section \<open>State\<close>

record 's deferred =
  d_tick :: tick
  d_pkt :: "'s packet"

record 's simple_mem = abstract_mem +
  sm_latency :: tick
  sm_latency_var :: tick
  sm_packetQueue :: "'s deferred list"
  bandwidth :: rat
  isBusy :: bool
  retryReq :: bool
  retryResp :: bool
  releaseEvent :: event
  dequeueEvent :: event
  sm_pendingDelete :: "'s packet list"
  sm_drainManager :: bool
  sm_drainState :: drain_state
  sm_drainSignals :: nat

definition new_SimpleMemory :: "addr_range \<Rightarrow> nat \<Rightarrow> tick \<Rightarrow> tick \<Rightarrow> rat \<Rightarrow> 's simple_mem" where
  "new_SimpleMemory r masters lat lat_var bw =
     abstract_mem.extend (new_AbstractMemory r masters)
       (simple_mem.fields lat lat_var [] bw False False False None None [] False Running 0)"

section \<open>Accesses\<close>

definition sm_getLatency :: "tick \<Rightarrow> 's simple_mem \<Rightarrow> tick" where
  "sm_getLatency draw m = sm_latency m + (if sm_latency_var m \<noteq> 0 then draw else 0)"

definition sm_recvAtomic :: "tick \<Rightarrow> 's simple_mem \<Rightarrow> 's packet \<Rightarrow> (tick \<times> 's simple_mem \<times> 's packet) res" where
  "sm_recvAtomic draw m pkt =
     bindE (am_access m pkt) (\<lambda>(m, pkt).
     Inr (if memInhibitAsserted pkt then 0 else sm_getLatency draw m, m, pkt))"

fun check_queue :: "'s packet \<Rightarrow> 's deferred list \<Rightarrow> (bool \<times> 's packet \<times> 's deferred list) res" where
  "check_queue pkt [] = Inr (False, pkt, [])"
| "check_queue pkt (q # qs) =
     bindE (checkFunctional_packet pkt (d_pkt q)) (\<lambda>(done, pkt, qp).
     if done then Inr (True, pkt, q\<lparr>d_pkt := qp\<rparr> # qs)
     else bindE (check_queue pkt qs) (\<lambda>(done, pkt, qs). Inr (done, pkt, q\<lparr>d_pkt := qp\<rparr> # qs)))"

definition sm_recvFunctional ::
    "('s \<Rightarrow> bool) \<Rightarrow> 's simple_mem \<Rightarrow> 's packet \<Rightarrow> ('s simple_mem \<times> 's packet) res" where
  "sm_recvFunctional isPrintState m pkt =
     bindE (am_functionalAccess isPrintState m pkt) (\<lambda>(m, pkt).
     bindE (check_queue pkt (sm_packetQueue m)) (\<lambda>(_, pkt, qs). Inr (m\<lparr>sm_packetQueue := qs\<rparr>, pkt)))"

text \<open>The busy period of a request.\<close>

definition sm_duration :: "'s simple_mem \<Rightarrow> 32 word \<Rightarrow> tick" where
  "sm_duration m n = of_int \<lfloor>of_nat (unat n) * bandwidth m\<rfloor>"

definition sm_occupy :: "tick \<Rightarrow> 's simple_mem \<Rightarrow> 's packet \<Rightarrow> 's simple_mem res" where
  "sm_occupy now m pkt =
     (if isRead (pkt_cmd pkt) \<or> isWrite (pkt_cmd pkt) then
        bindE (getSize pkt) (\<lambda>n.
        (let duration = sm_duration m n in
         if duration \<noteq> 0 then
           bindE (ev_schedule now (releaseEvent m) (now + duration)) (\<lambda>ev.
           Inr (m\<lparr>releaseEvent := ev, isBusy := True\<rparr>))
         else Inr m))
      else Inr m)"

definition sm_enqueue :: "tick \<Rightarrow> tick \<Rightarrow> 's simple_mem \<Rightarrow> 's packet \<Rightarrow> 's simple_mem res" where
  "sm_enqueue now draw m pkt =
     (let t = now + sm_getLatency draw m;
          m = m\<lparr>sm_packetQueue := sm_packetQueue m @ [\<lparr>d_tick = t, d_pkt = pkt\<rparr>]\<rparr>
      in if \<not> retryResp m \<and> dequeueEvent m = None
         then bindE (ev_schedule now (dequeueEvent m) t) (\<lambda>ev. Inr (m\<lparr>dequeueEvent := ev\<rparr>))
         else Inr m)"

text \<open>The two draws are those of the access and of the response.\<close>

definition sm_recvTimingReq :: "tick \<Rightarrow> tick \<Rightarrow> tick \<Rightarrow> 's simple_mem \<Rightarrow> 's packet \<Rightarrow> (bool \<times> 's simple_mem) res" where
  "sm_recvTimingReq now draw1 draw2 m pkt =
     (let m = m\<lparr>sm_pendingDelete := []\<rparr> in
      if memInhibitAsserted pkt then Inr (True, m\<lparr>sm_pendingDelete := [pkt]\<rparr>)
      else if retryReq m then Inr (False, m)
      else if isBusy m then Inr (False, m\<lparr>retryReq := True\<rparr>)
      else
        (let pkt = pkt\<lparr>headerDelay := 0, payloadDelay := 0\<rparr>; needs = needsResponse (pkt_cmd pkt) in
         bindE (sm_occupy now m pkt) (\<lambda>m.
         bindE (sm_recvAtomic draw1 m pkt) (\<lambda>(_, m, pkt).
         if needs then
           bindE (assertE (isResponse (pkt_cmd pkt))) (\<lambda>_.
           bindE (sm_enqueue now draw2 m pkt) (\<lambda>m. Inr (True, m)))
         else Inr (True, m\<lparr>sm_pendingDelete := sm_pendingDelete m @ [pkt]\<rparr>)))))"

text \<open>The flag says that the peer is told to retry, the last thing the controller does.\<close>

definition sm_release :: "'s simple_mem \<Rightarrow> (bool \<times> 's simple_mem) res" where
  "sm_release m =
     bindE (assertE (isBusy m)) (\<lambda>_.
     Inr (retryReq m, m\<lparr>isBusy := False, retryReq := False\<rparr>))"

definition sm_dequeue ::
    "tick \<Rightarrow> ('s simple_mem \<Rightarrow> 's packet \<Rightarrow> (bool \<times> 's simple_mem) res) \<Rightarrow> 's simple_mem \<Rightarrow> (bool \<times> 's simple_mem) res" where
  "sm_dequeue now peer m =
     (case sm_packetQueue m of
        [] \<Rightarrow> Inl Assert_Failed
      | q # _ \<Rightarrow>
          bindE (peer m (d_pkt q)) (\<lambda>(taken, m).
          (let m = m\<lparr>retryResp := \<not> taken\<rparr> in
           if taken then
             (let m = m\<lparr>sm_packetQueue := tl (sm_packetQueue m)\<rparr> in
              case sm_packetQueue m of
                n # _ \<Rightarrow>
                  bindE (ev_reschedule now (dequeueEvent m) (max (d_tick n) now) True) (\<lambda>ev.
                  Inr (taken, m\<lparr>dequeueEvent := ev\<rparr>))
              | [] \<Rightarrow>
                  Inr (taken, if sm_drainManager m
                              then m\<lparr>sm_drainSignals := sm_drainSignals m + 1, sm_drainManager := False\<rparr> else m))
           else Inr (taken, m))))"

definition sm_recvRespRetry ::
    "tick \<Rightarrow> ('s simple_mem \<Rightarrow> 's packet \<Rightarrow> (bool \<times> 's simple_mem) res) \<Rightarrow> 's simple_mem \<Rightarrow> (bool \<times> 's simple_mem) res" where
  "sm_recvRespRetry now peer m = bindE (assertE (retryResp m)) (\<lambda>_. sm_dequeue now peer m)"

definition sm_drain :: "'s simple_mem \<Rightarrow> nat \<times> 's simple_mem" where
  "sm_drain m =
     (if sm_packetQueue m \<noteq> [] then (1, m\<lparr>sm_drainManager := True, sm_drainState := Draining\<rparr>)
      else (0, m\<lparr>sm_drainState := Drained\<rparr>))"

section \<open>The memory interface\<close>

definition sm_idle :: "'s simple_mem \<Rightarrow> bool" where
  "sm_idle m \<longleftrightarrow> am_ok m \<and> sm_packetQueue m = []"

interpretation simple_functional: functional_memory sm_idle am_covers am_at "sm_recvFunctional ips :: 'a simple_mem \<Rightarrow> 'a packet \<Rightarrow> _"
  for ips
proof unfold_locales
  fix m :: "'a simple_mem" and n and p :: "'a packet" and d :: "8 word list"
  assume a: "sm_idle m" "plain_request (am_covers m) n p d" "pkt_cmd p = WriteReq"
  have "am_ok m" using a(1) by (simp add: sm_idle_def)
  then obtain pm where pm: "am_functionalAccess ips m p = Inr (m\<lparr>pmemAddr := Some pm\<rparr>, response_of p)" "am_ok (m\<lparr>pmemAddr := Some pm\<rparr>)"
      "am_covers (m\<lparr>pmemAddr := Some pm\<rparr>) = am_covers m" "am_at (m\<lparr>pmemAddr := Some pm\<rparr>) = mem_write (am_at m) (pkt_addr p) d"
    using am_functional_write_law [OF _ a(2,3), of ips] by blast
  define m' where "m' = m\<lparr>pmemAddr := Some pm\<rparr>"
  have q: "sm_packetQueue m' = []" using a(1) by (simp add: m'_def sm_idle_def)
  then have "m'\<lparr>sm_packetQueue := []\<rparr> = m'" by (cases m') simp
  then have "sm_recvFunctional ips m p = Inr (m', response_of p)"
    using pm(1) [folded m'_def] q by (simp add: sm_recvFunctional_def)
  then show "\<exists>m' p'. sm_recvFunctional ips m p = Inr (m', p') \<and> sm_idle m' \<and> am_covers m' = am_covers m \<and>
      am_at m' = mem_write (am_at m) (pkt_addr p) d" unfolding sm_idle_def using pm(2-4) [folded m'_def] q by blast
qed

interpretation simple_memory: atomic_memory am_ok am_covers am_masters am_at "sm_recvAtomic draw :: 'a simple_mem \<Rightarrow> 'a packet \<Rightarrow> _"
  for draw
proof unfold_locales
  fix m :: "'a simple_mem" and p :: "'a packet" and d :: "8 word list"
  assume a: "am_ok m" "plain_request (am_covers m) (am_masters m) p d"
  show "\<exists>lat m'. sm_recvAtomic draw m p =
      Inr (lat, m', response_of (p\<lparr>pkt_data := Some (mem_bytes (am_at m) (pkt_addr p) (length d))\<rparr>)) \<and>
      am_ok m' \<and> am_covers m' = am_covers m \<and> am_masters m' = am_masters m \<and> am_at m' = am_at m"
    if "isRead (pkt_cmd p)" "\<not> isWrite (pkt_cmd p)" "\<not> isLLSC (pkt_cmd p)" "needsResponse (pkt_cmd p)"
    using am_read_law [OF a that] by (auto simp: sm_recvAtomic_def)
  show "\<exists>lat m'. sm_recvAtomic draw m p = Inr (lat, m', response_of p) \<and>
      am_ok m' \<and> am_covers m' = am_covers m \<and> am_masters m' = am_masters m \<and> am_at m' = am_at m"
    if "isInvalidate (pkt_cmd p)" "\<not> isRead (pkt_cmd p)" "needsResponse (pkt_cmd p)"
    using am_ack_law [OF a that] by (auto simp: sm_recvAtomic_def)
  show "\<exists>lat m'. sm_recvAtomic draw m p = Inr (lat, m', if needsResponse (pkt_cmd p) then response_of p else p) \<and>
      am_ok m' \<and> am_covers m' = am_covers m \<and> am_masters m' = am_masters m \<and>
      am_at m' = mem_write (am_at m) (pkt_addr p) d"
    if "isWrite (pkt_cmd p)" "\<not> isRead (pkt_cmd p)" "\<not> isInvalidate (pkt_cmd p)" "\<not> isLLSC (pkt_cmd p)"
      "\<not> req_isInstFetch (pkt_req p)"
    using am_write_law [OF a that] by (auto simp: sm_recvAtomic_def)
qed

lemma sm_access_more:
  assumes "abstract_mem.more m' = abstract_mem.more (m :: 's simple_mem)"
  shows "sm_packetQueue m' = sm_packetQueue m" "isBusy m' = isBusy m" "retryReq m' = retryReq m"
    "retryResp m' = retryResp m" "releaseEvent m' = releaseEvent m" "dequeueEvent m' = dequeueEvent m"
  using assms by (cases m; cases m'; simp)+

lemma sm_recvAtomic_idle:
  assumes "sm_recvAtomic draw m p = Inr (lat, m', q)" "sm_idle m" "am_ok m'"
  shows "sm_idle m'"
  using assms by (auto simp: sm_recvAtomic_def sm_idle_def dest!: am_access_more sm_access_more(1))

text \<open>The controller in atomic mode leaves its queue alone, so an idle one stays idle.\<close>

interpretation idle_memory: atomic_memory sm_idle am_covers am_masters am_at "sm_recvAtomic draw :: 'a simple_mem \<Rightarrow> 'a packet \<Rightarrow> _"
  for draw
proof unfold_locales
  fix m :: "'a simple_mem" and p :: "'a packet" and d :: "8 word list"
  assume a: "sm_idle m" "plain_request (am_covers m) (am_masters m) p d"
  have ok: "am_ok m" using a(1) by (simp add: sm_idle_def)
  show "\<exists>lat m'. sm_recvAtomic draw m p =
      Inr (lat, m', response_of (p\<lparr>pkt_data := Some (mem_bytes (am_at m) (pkt_addr p) (length d))\<rparr>)) \<and>
      sm_idle m' \<and> am_covers m' = am_covers m \<and> am_masters m' = am_masters m \<and> am_at m' = am_at m"
    if "isRead (pkt_cmd p)" "\<not> isWrite (pkt_cmd p)" "\<not> isLLSC (pkt_cmd p)" "needsResponse (pkt_cmd p)"
    using simple_memory.read_law [OF ok a(2) that, of draw] sm_recvAtomic_idle [OF _ a(1)] by blast
  show "\<exists>lat m'. sm_recvAtomic draw m p = Inr (lat, m', response_of p) \<and>
      sm_idle m' \<and> am_covers m' = am_covers m \<and> am_masters m' = am_masters m \<and> am_at m' = am_at m"
    if "isInvalidate (pkt_cmd p)" "\<not> isRead (pkt_cmd p)" "needsResponse (pkt_cmd p)"
    using simple_memory.ack_law [OF ok a(2) that, of draw] sm_recvAtomic_idle [OF _ a(1)] by blast
  show "\<exists>lat m'. sm_recvAtomic draw m p = Inr (lat, m', if needsResponse (pkt_cmd p) then response_of p else p) \<and>
      sm_idle m' \<and> am_covers m' = am_covers m \<and> am_masters m' = am_masters m \<and>
      am_at m' = mem_write (am_at m) (pkt_addr p) d"
    if "isWrite (pkt_cmd p)" "\<not> isRead (pkt_cmd p)" "\<not> isInvalidate (pkt_cmd p)" "\<not> isLLSC (pkt_cmd p)"
      "\<not> req_isInstFetch (pkt_req p)"
    using simple_memory.write_law [OF ok a(2) that, of draw] sm_recvAtomic_idle [OF _ a(1)] by blast
qed

section \<open>Delivery\<close>

text \<open>The requests a peer sends while it takes a response.\<close>

fun sm_calls :: "tick \<Rightarrow> (tick \<times> tick \<times> 's packet) list \<Rightarrow> 's simple_mem \<Rightarrow> 's simple_mem res" where
  "sm_calls now [] m = Inr m"
| "sm_calls now ((d1, d2, p) # cs) m = bindE (sm_recvTimingReq now d1 d2 m p) (\<lambda>(_, m). sm_calls now cs m)"

definition sm_peer ::
    "tick \<Rightarrow> bool \<Rightarrow> (tick \<times> tick \<times> 's packet) list \<Rightarrow> 's simple_mem \<Rightarrow> 's packet \<Rightarrow> (bool \<times> 's simple_mem) res" where
  "sm_peer now taken calls m p = bindE (sm_calls now calls m) (\<lambda>m. Inr (taken, m))"

text \<open>The states of a controller: a peer that refuses a response sends nothing at that moment.\<close>

inductive sm_reach :: "'s simple_mem \<Rightarrow> bool" where
  sm_new: "sm_reach (new_SimpleMemory r masters lat lat_var bw)"
| sm_store: "sm_reach m \<Longrightarrow> sm_reach (setBackingStore m bs)"
| sm_atomic: "sm_reach m \<Longrightarrow> sm_recvAtomic draw m p = Inr (t, m', p') \<Longrightarrow> sm_reach m'"
| sm_request: "sm_reach m \<Longrightarrow> sm_recvTimingReq now d1 d2 m p = Inr (b, m') \<Longrightarrow> sm_reach m'"
| sm_released: "sm_reach m \<Longrightarrow> releaseEvent m = Some now \<Longrightarrow> sm_release (m\<lparr>releaseEvent := None\<rparr>) = Inr (b, m') \<Longrightarrow> sm_reach m'"
| sm_dequeued: "sm_reach m \<Longrightarrow> dequeueEvent m = Some now \<Longrightarrow> taken \<or> calls = [] \<Longrightarrow>
    sm_dequeue now (sm_peer now taken calls) (m\<lparr>dequeueEvent := None\<rparr>) = Inr (b, m') \<Longrightarrow> sm_reach m'"
| sm_retried: "sm_reach m \<Longrightarrow> taken \<or> calls = [] \<Longrightarrow>
    sm_recvRespRetry now (sm_peer now taken calls) m = Inr (b, m') \<Longrightarrow> sm_reach m'"
| sm_drained: "sm_reach m \<Longrightarrow> sm_drain m = (n, m') \<Longrightarrow> sm_reach m'"

text \<open>The responses a peer receives that takes each when it is offered: at the scheduled tick, or after a refusal when it retries.\<close>

primrec sm_serve :: "tick \<Rightarrow> nat \<Rightarrow> 's simple_mem \<Rightarrow> ('s packet list \<times> 's simple_mem) res" where
  "sm_serve now 0 m = Inr ([], m)"
| "sm_serve now (Suc n) m =
     (case sm_packetQueue m of
        [] \<Rightarrow> Inr ([], m)
      | q # _ \<Rightarrow>
          bindE (if retryResp m then sm_recvRespRetry now (sm_peer now True []) m
                 else case dequeueEvent m of
                   Some t \<Rightarrow> sm_dequeue t (sm_peer t True []) (m\<lparr>dequeueEvent := None\<rparr>)
                 | None \<Rightarrow> Inr (False, m)) (\<lambda>(taken, m).
          if taken then bindE (sm_serve now n m) (\<lambda>(ps, m). Inr (d_pkt q # ps, m)) else Inr ([], m)))"

definition busy_ok :: "'s simple_mem \<Rightarrow> bool" where
  "busy_ok m \<longleftrightarrow> (isBusy m \<longleftrightarrow> releaseEvent m \<noteq> None) \<and> (retryReq m \<longrightarrow> isBusy m)"

definition queue_ok :: "'s simple_mem \<Rightarrow> bool" where
  "queue_ok m \<longleftrightarrow> (if sm_packetQueue m = [] then \<not> retryResp m \<and> dequeueEvent m = None
     else retryResp m \<longleftrightarrow> dequeueEvent m = None)"

lemma ev_schedule_Inr: "ev_schedule now ev w = Inr e \<longleftrightarrow> now \<le> w \<and> ev = None \<and> e = Some w"
  by (auto simp: ev_schedule_def)

lemma sm_occupy_cases:
  assumes "sm_occupy now m p = Inr m'"
  shows "m' = m \<or> (\<exists>t. releaseEvent m = None \<and> m' = m\<lparr>releaseEvent := Some t, isBusy := True\<rparr>)"
  using assms unfolding sm_occupy_def Let_def
  by (simp only: bindE_eq_Inr ev_schedule_Inr split: if_splits) ((elim disjE conjE exE)?; simp only: sum.inject; blast)+

lemma sm_occupyE:
  assumes "sm_occupy now m p = Inr m'"
  shows "sm_packetQueue m' = sm_packetQueue m" "retryResp m' = retryResp m" "dequeueEvent m' = dequeueEvent m"
    "busy_ok m \<Longrightarrow> \<not> isBusy m \<Longrightarrow> busy_ok m'"
  using sm_occupy_cases [OF assms] by (auto simp: busy_ok_def)

lemma sm_enqueueE:
  assumes "sm_enqueue now draw m p = Inr m'"
  shows "\<exists>q. sm_packetQueue m' = sm_packetQueue m @ [q]" "retryResp m' = retryResp m"
    "retryResp m \<Longrightarrow> dequeueEvent m' = dequeueEvent m" "\<not> retryResp m \<Longrightarrow> dequeueEvent m' \<noteq> None"
    "busy_ok m \<Longrightarrow> busy_ok m'"
proof -
  define q where "q = \<lparr>d_tick = now + sm_getLatency draw m, d_pkt = p\<rparr>"
  define m1 where "m1 = m\<lparr>sm_packetQueue := sm_packetQueue m @ [q]\<rparr>"
  have e: "m' = m1 \<and> (retryResp m \<or> dequeueEvent m \<noteq> None) \<or>
      (\<exists>t. m' = m1\<lparr>dequeueEvent := Some t\<rparr> \<and> \<not> retryResp m)"
    using assms unfolding sm_enqueue_def Let_def m1_def [symmetric] q_def [symmetric]
    by (cases "retryResp m1 \<or> dequeueEvent m1 \<noteq> None") (auto simp: ev_schedule_Inr m1_def)
  show "\<exists>q. sm_packetQueue m' = sm_packetQueue m @ [q]" "retryResp m' = retryResp m"
    "retryResp m \<Longrightarrow> dequeueEvent m' = dequeueEvent m" "\<not> retryResp m \<Longrightarrow> dequeueEvent m' \<noteq> None"
    "busy_ok m \<Longrightarrow> busy_ok m'"
    using e by (auto simp: m1_def busy_ok_def)
qed

text \<open>What a request does to the queue.\<close>

definition grows :: "'s simple_mem \<Rightarrow> 's simple_mem \<Rightarrow> bool" where
  "grows m m' \<longleftrightarrow> retryResp m' = retryResp m \<and> (busy_ok m \<longrightarrow> busy_ok m') \<and>
     (\<exists>qs. sm_packetQueue m' = sm_packetQueue m @ qs \<and>
        (if retryResp m \<or> qs = [] then dequeueEvent m' = dequeueEvent m else dequeueEvent m' \<noteq> None))"

lemma grows_same: "sm_packetQueue m' = sm_packetQueue m \<Longrightarrow> retryResp m' = retryResp m \<Longrightarrow>
    dequeueEvent m' = dequeueEvent m \<Longrightarrow> (busy_ok m \<Longrightarrow> busy_ok m') \<Longrightarrow> grows m m'"
  by (simp add: grows_def)

lemma grows_trans:
  assumes a: "grows m1 m2" and b: "grows m2 m3"
  shows "grows m1 m3"
proof -
  obtain qs1 where 1: "sm_packetQueue m2 = sm_packetQueue m1 @ qs1"
      "if retryResp m1 \<or> qs1 = [] then dequeueEvent m2 = dequeueEvent m1 else dequeueEvent m2 \<noteq> None"
    using a unfolding grows_def by blast
  obtain qs2 where 2: "sm_packetQueue m3 = sm_packetQueue m2 @ qs2"
      "if retryResp m2 \<or> qs2 = [] then dequeueEvent m3 = dequeueEvent m2 else dequeueEvent m3 \<noteq> None"
    using b unfolding grows_def by blast
  have 3: "retryResp m2 = retryResp m1" "retryResp m3 = retryResp m2" "busy_ok m1 \<longrightarrow> busy_ok m3"
    using a b unfolding grows_def by simp_all
  have "sm_packetQueue m3 = sm_packetQueue m1 @ (qs1 @ qs2)" using 1(1) 2(1) by simp
  moreover have "if retryResp m1 \<or> qs1 @ qs2 = [] then dequeueEvent m3 = dequeueEvent m1 else dequeueEvent m3 \<noteq> None"
    using 1(2) 2(2) 3(1) by (cases "retryResp m1"; cases "qs1 = []"; cases "qs2 = []") simp_all
  ultimately show ?thesis using 3 unfolding grows_def by blast
qed

lemma sm_request_grows:
  assumes "sm_recvTimingReq now d1 d2 m p = Inr (b, m')"
  shows "grows m m'"
proof (cases "memInhibitAsserted p \<or> retryReq m \<or> isBusy m")
  case True
  then show ?thesis using assms
    by (intro grows_same) (auto simp: sm_recvTimingReq_def Let_def busy_ok_def split: if_splits)
next
  case False
  let ?p = "p\<lparr>headerDelay := 0, payloadDelay := 0\<rparr>"
  from False assms obtain m1 m2 t p2 where
      o: "sm_occupy now (m\<lparr>sm_pendingDelete := []\<rparr>) ?p = Inr m1"
    and a: "sm_recvAtomic d1 m1 ?p = Inr (t, m2, p2)"
    and e: "sm_enqueue now d2 m2 p2 = Inr m' \<or> m' = m2\<lparr>sm_pendingDelete := sm_pendingDelete m2 @ [p2]\<rparr>"
    by (auto simp: sm_recvTimingReq_def Let_def split: if_splits)
  have "abstract_mem.more m2 = abstract_mem.more m1" using a by (auto simp: sm_recvAtomic_def dest: am_access_more)
  note s = sm_access_more [OF this]
  have g: "grows m m2" using False s sm_occupyE [OF o] by (intro grows_same) (auto simp: busy_ok_def)
  from e show ?thesis
  proof
    assume q: "sm_enqueue now d2 m2 p2 = Inr m'"
    obtain x where "sm_packetQueue m' = sm_packetQueue m2 @ [x]" using sm_enqueueE(1) [OF q] by blast
    then have "grows m2 m'" using sm_enqueueE(2-) [OF q] unfolding grows_def
      by (intro conjI exI [of _ "[x]"]) simp_all
    with g show ?thesis by (rule grows_trans)
  next
    assume "m' = m2\<lparr>sm_pendingDelete := sm_pendingDelete m2 @ [p2]\<rparr>"
    then have "grows m2 m'" by (intro grows_same) (auto simp: busy_ok_def)
    with g show ?thesis by (rule grows_trans)
  qed
qed

lemma sm_calls_grows: "sm_calls now cs m = Inr m' \<Longrightarrow> grows m m'"
proof (induction now cs m rule: sm_calls.induct)
  case (1 now m)
  then show ?case by (auto intro: grows_same)
next
  case (2 now d1 d2 p cs m)
  then obtain b m1 where "sm_recvTimingReq now d1 d2 m p = Inr (b, m1)" "sm_calls now cs m1 = Inr m'" by auto
  then show ?case using 2 sm_request_grows grows_trans by blast
qed

text \<open>A step of the queue, once the requests the peer sends meanwhile are in.\<close>

lemma sm_dequeue_eq:
  assumes "sm_packetQueue m = q # qs" "sm_calls now cs m = Inr m1"
  shows "sm_dequeue now (sm_peer now taken cs) m = Inr (taken,
     if \<not> taken then m1\<lparr>retryResp := True\<rparr>
     else case tl (sm_packetQueue m1) of
       [] \<Rightarrow> (let m2 = m1\<lparr>retryResp := False, sm_packetQueue := []\<rparr> in
              if sm_drainManager m1 then m2\<lparr>sm_drainSignals := sm_drainSignals m1 + 1, sm_drainManager := False\<rparr> else m2)
     | n # ns \<Rightarrow> m1\<lparr>retryResp := False, sm_packetQueue := n # ns, dequeueEvent := Some (max (d_tick n) now)\<rparr>)"
  using assms by (simp add: sm_dequeue_def sm_peer_def Let_def ev_reschedule_def split: list.splits)

lemma sm_dequeue_ok:
  assumes d: "sm_dequeue now (sm_peer now taken cs) m = Inr (b, m')" and t: "taken \<or> cs = []"
    and m: "busy_ok m" "dequeueEvent m = None"
  shows "busy_ok m' \<and> queue_ok m'"
proof -
  from d obtain q qs m1 where q: "sm_packetQueue m = q # qs" and c: "sm_calls now cs m = Inr m1"
    by (auto simp: sm_dequeue_def sm_peer_def split: list.splits)
  have g: "grows m m1" using c by (rule sm_calls_grows)
  then obtain xs where xs: "sm_packetQueue m1 = (q # qs) @ xs" "xs = [] \<Longrightarrow> dequeueEvent m1 = None"
    using m(2) q unfolding grows_def by auto
  have b: "busy_ok m1" using g m(1) unfolding grows_def by blast
  show ?thesis
  proof (cases taken)
    case True
    then show ?thesis using d xs b unfolding sm_dequeue_eq [OF q c]
      by (cases "qs @ xs"; cases "sm_drainManager m1") (auto simp: Let_def busy_ok_def queue_ok_def)
  next
    case False
    then have "m1 = m" using t c by simp
    then show ?thesis using False d q m unfolding sm_dequeue_eq [OF q c] by (auto simp: busy_ok_def queue_ok_def)
  qed
qed

lemma sm_reach_ok: "sm_reach m \<Longrightarrow> busy_ok m \<and> queue_ok m"
proof (induction rule: sm_reach.induct)
  case (sm_new r masters lat lat_var bw)
  show ?case by (simp add: new_SimpleMemory_def busy_ok_def queue_ok_def simple_mem.defs abstract_mem.defs)
next
  case (sm_store m bs)
  then show ?case by (auto simp: setBackingStore_def busy_ok_def queue_ok_def)
next
  case (sm_atomic m draw p t m' p')
  then have "abstract_mem.more m' = abstract_mem.more m" by (auto simp: sm_recvAtomic_def dest: am_access_more)
  note s = sm_access_more [OF this]
  show ?case using sm_atomic.IH s by (auto simp: busy_ok_def queue_ok_def)
next
  case (sm_request m now d1 d2 p b m')
  then show ?case using sm_request_grows [OF sm_request.hyps(2)]
    by (auto simp: grows_def queue_ok_def split: if_splits)
next
  case (sm_released m now b m')
  then show ?case by (auto simp: sm_release_def busy_ok_def queue_ok_def)
next
  case (sm_dequeued m now taken calls b m')
  have "busy_ok (m\<lparr>dequeueEvent := None\<rparr>)" using sm_dequeued.IH by (auto simp: busy_ok_def)
  then show ?case using sm_dequeue_ok [OF sm_dequeued.hyps(4,3)] by simp
next
  case (sm_retried m taken calls now b m')
  have "retryResp m" "sm_dequeue now (sm_peer now taken calls) m = Inr (b, m')"
    using sm_retried by (auto simp: sm_recvRespRetry_def)
  then show ?case using sm_dequeue_ok [OF _ sm_retried.hyps(2)] sm_retried.IH by (auto simp: queue_ok_def split: if_splits)
next
  case (sm_drained m n m')
  then show ?case by (auto simp: sm_drain_def busy_ok_def queue_ok_def split: if_splits)
qed

lemma sm_dequeue_take:
  assumes "sm_packetQueue m = q # qs" "dequeueEvent m = None"
  shows "\<exists>m'. sm_dequeue now (sm_peer now True []) m = Inr (True, m') \<and> sm_packetQueue m' = qs \<and> queue_ok m'"
  using assms by (cases qs; cases "sm_drainManager m") (auto simp: sm_dequeue_eq [OF assms(1) sm_calls.simps(1)] Let_def queue_ok_def)

lemma sm_serve_all: "queue_ok m \<Longrightarrow> length (sm_packetQueue m) = n \<Longrightarrow>
    \<exists>m'. sm_serve now n m = Inr (map d_pkt (sm_packetQueue m), m') \<and> sm_packetQueue m' = []"
proof (induction n arbitrary: m)
  case 0
  then show ?case by simp
next
  case (Suc n)
  then obtain q qs where q: "sm_packetQueue m = q # qs" by (cases "sm_packetQueue m") auto
  have "\<exists>m'. (if retryResp m then sm_recvRespRetry now (sm_peer now True []) m
      else case dequeueEvent m of Some t \<Rightarrow> sm_dequeue t (sm_peer t True []) (m\<lparr>dequeueEvent := None\<rparr>)
        | None \<Rightarrow> Inr (False, m)) = Inr (True, m') \<and> sm_packetQueue m' = qs \<and> queue_ok m'"
  proof (cases "dequeueEvent m")
    case None
    then show ?thesis using sm_dequeue_take [OF q None, of now] Suc.prems(1) q by (simp add: queue_ok_def sm_recvRespRetry_def)
  next
    case (Some t)
    then show ?thesis using sm_dequeue_take [of "m\<lparr>dequeueEvent := None\<rparr>" q qs t] Suc.prems(1) q by (simp add: queue_ok_def)
  qed
  then obtain m1 where m1: "(if retryResp m then sm_recvRespRetry now (sm_peer now True []) m
      else case dequeueEvent m of Some t \<Rightarrow> sm_dequeue t (sm_peer t True []) (m\<lparr>dequeueEvent := None\<rparr>)
        | None \<Rightarrow> Inr (False, m)) = Inr (True, m1)" "sm_packetQueue m1 = qs" "queue_ok m1" by blast
  then show ?case using Suc.IH [of m1] Suc.prems(2) q by auto
qed


definition demo_sm :: "unit simple_mem" where
  "demo_sm = setBackingStore (new_SimpleMemory (plain_AddrRange 0 63) 2 30 0 (1 / 2)) (replicate 64 7)"

definition demo_sm_read :: "unit packet res" where
  "demo_sm_read = allocate (\<lambda>_. 0) (new_Packet (new_Request_phys 0x10 2 0 1 0) ReadReq)"

definition demo_sm_busy :: "(bool \<times> unit simple_mem) res" where
  "demo_sm_busy = bindE demo_sm_read (\<lambda>p. sm_recvTimingReq 100 0 0 demo_sm p)"


end
