(* ===== verification/Cache_Atomic.thy ===== *)
theory Cache_Atomic
  imports Cache_Fill Simple_Memory
begin

text \<open>
  The cache in its atomic mode, on top of a memory: the packet of a miss, the response, requests that go past the cache,
  and whole requests. The memory is any that keeps the laws of \<open>Memory_Spec\<close>; the simple memory controller is one. The
  main theorem says that nobody behind the cache can tell that it is there: a sequence of requests is answered exactly as
  by a flat array of bytes, whatever is hit, missed, evicted or written back on the way.
\<close>

section \<open>Packets towards memory\<close>

text \<open>The packet of a miss: the line of the request, with room for its bytes.\<close>

definition bus_cmd :: "command \<Rightarrow> bool \<Rightarrow> command" where
  "bus_cmd cmd present = (if present then if isLLSC cmd then SCUpgradeReq else UpgradeReq
     else if cmd = WriteInvalidateReq then WriteInvalidateReq else if needsExclusive cmd then ReadExReq else ReadReq)"

lemma bus_packet_law:
  assumes st: "static_ok c" and inv: "tags_inv (c_tags c)" and rq: "request_ok c cov p d" and unc: "\<not> req_isUncacheable (pkt_req p)"
    and f: "\<And>k. findBlock (c_tags c) (pkt_addr p) False = Some k \<Longrightarrow> needsExclusive (pkt_cmd p) \<and> \<not> blk_isWritable (ts_blks (c_tags c) ! k)"
  shows "\<exists>q g. getBusPacket e c p (map_option Tag_Blk (findBlock (c_tags c) (pkt_addr p) False)) (needsExclusive (pkt_cmd p)) = Inr (Some q) \<and>
     carries q g \<and> pkt_addr q = blkAlign (c_tags c) (pkt_addr p) \<and> pkt_size q = c_blkSize c \<and> pkt_req q = pkt_req p \<and>
     \<not> pkt_isSecure q \<and> \<not> sharedAsserted q \<and> \<not> memInhibitAsserted q \<and>
     pkt_cmd q = bus_cmd (pkt_cmd p) (findBlock (c_tags c) (pkt_addr p) False \<noteq> None)"
proof -
  let ?t = "c_tags c" and ?r = "pkt_req p" and ?n = "c_blkSize c"
  let ?blk = "findBlock ?t (pkt_addr p) False"
  note g = inv_geom [OF inv]
  have r: "cpu_cmd (pkt_cmd p) \<or> pkt_cmd p = WriteInvalidateReq" "req_ok ?r" "req_paddr ?r = pkt_addr p" "\<not> req_isSecure ?r"
    "\<not> sharedAsserted p" using rq by (auto simp: request_ok_def)
  have bs: "?n = ts_blkSize ?t" "unat ?n < 2 ^ 31" using st by (auto simp: static_ok_def)
  have pos: "0 < unat ?n" using line_off_bound [OF g, of 0] bs(1) by simp
  have nr: "needsResponse (pkt_cmd p)" "\<not> isUpgrade (pkt_cmd p)" "pkt_cmd p \<noteq> Writeback"
    "pkt_cmd p \<notin> {SCUpgradeFailReq, StoreCondFailReq}" using r(1) by (auto simp: cpu_cmd_def cmd_attrib_defs)
  have wi: "isWriteInvalidate (pkt_cmd p) \<longleftrightarrow> pkt_cmd p = WriteInvalidateReq" using r(1) by (auto simp: cpu_cmd_def cmd_attrib_defs)
  define q0 :: "sender packet" where "q0 = new_Packet_blk ?r (bus_cmd (pkt_cmd p) (?blk \<noteq> None)) ?n"
  have q0: "pkt_addr q0 = blkAlign ?t (pkt_addr p)" "pkt_size q0 = ?n" "pkt_req q0 = ?r" "\<not> pkt_isSecure q0"
    "pkt_cmd q0 = bus_cmd (pkt_cmd p) (?blk \<noteq> None)" "isSet (pkt_flags q0) VALID_ADDR" "isSet (pkt_flags q0) VALID_SIZE"
    "noneSet (pkt_flags q0) (STATIC_DATA OR DYNAMIC_DATA)" "\<not> isSet (pkt_flags q0) MEM_INHIBIT" "\<not> isSet (pkt_flags q0) SHARED"
    using r(2-4) offset_line(2) [OF g] bs(1)
    by (simp_all add: q0_def new_Packet_blk_def Let_def req_ok_def hasPaddr_def noneSet_def setFlag_def isSet_def)
  define q where "q = q0\<lparr>pkt_flags := setFlag (pkt_flags q0) DYNAMIC_DATA, pkt_data := Some (map (e_garbage e) [0..<unat ?n])\<rparr>"
  have al: "allocate (e_garbage e) q0 = Inr q" using q0 by (simp add: allocate_def getSize_def q_def)
  have ad: "getAddr q0 = Inr (pkt_addr q0)" "pkt_addr q0 = blockAlign c (pkt_addr q0)"
    using q0(1,6) offset_line(3) [OF g, of "pkt_addr q0"] bs(1) blkAlign_self [OF g] by (simp_all add: getAddr_def blockAlign_def)
  have "getBusPacket e c p (map_option Tag_Blk ?blk) (needsExclusive (pkt_cmd p)) = Inr (Some q)"
  proof (cases ?blk)
    case None
    have "bus_command p False False (needsExclusive (pkt_cmd p)) = Inr (bus_cmd (pkt_cmd p) (?blk \<noteq> None))"
      using nr(4) wi None by (simp add: bus_command_def bus_cmd_def)
    then show ?thesis using None unc nr(1-3) r(5) al ad(1) ad(2) [symmetric] by (simp add: getBusPacket_def Let_def q0_def)
  next
    case (Some k)
    have "bus_command p True (blk_isWritable (ts_blks ?t ! k)) (needsExclusive (pkt_cmd p)) = Inr (bus_cmd (pkt_cmd p) (?blk \<noteq> None))"
      using f [OF Some] Some by (simp add: bus_command_def bus_cmd_def)
    then show ?thesis using Some unc nr(1-3) r(5) al ad(1) ad(2) [symmetric] found_facts(2) [OF inv Some]
      by (simp add: getBusPacket_def Let_def q0_def)
  qed
  moreover have "carries q (map (e_garbage e) [0..<unat ?n])"
    using q0 pos bs line_end_le [OF g, of "pkt_addr p"] by (simp add: carries_def q_def)
  ultimately show ?thesis using q0 by (intro exI [of _ q] exI [of _ "map (e_garbage e) [0..<unat ?n]"])
      (simp add: q_def sharedAsserted_def memInhibitAsserted_def)
qed


text \<open>The response to a miss fills the line, and the request is served from it.\<close>

lemma request_fill:
  assumes "request_ok c cov p d" "pkt_cmd p = WriteInvalidateReq"
  shows "fill_packet c p d"
  using assms by (simp add: request_ok_def fill_packet_def in_line_def)

lemma atomic_response_law:
  fixes c :: "'x cache_scheme" and p :: "sender packet"
  defines "present \<equiv> findBlock (c_tags c) (pkt_addr p) False \<noteq> None"
  assumes st: "static_ok c" and ok: "lines_ok cov m (c_tags c)" and rq: "request_ok c cov p d"
    and bus: "pkt_cmd q = responseCommand (bus_cmd (pkt_cmd p) present)" "pkt_addr q = blkAlign (c_tags c) (pkt_addr p)"
    and fp: "pkt_cmd p \<noteq> WriteInvalidateReq \<Longrightarrow> fill_packet c q b"
    and b: "\<And>x. pkt_cmd p \<noteq> WriteInvalidateReq \<Longrightarrow> \<not> present \<Longrightarrow>
       blkAlign (c_tags c) x = blkAlign (c_tags c) (pkt_addr p) \<Longrightarrow> b ! line_off (c_tags c) x = m x"
  shows "atomic_outcome cov c m p
     (atomic_response e h c p q (map_option Tag_Blk (findBlock (c_tags c) (pkt_addr p) False)))"
proof -
  let ?t = "c_tags c" and ?a = "pkt_addr p"
  let ?blk = "map_option Tag_Blk (findBlock ?t ?a False)"
  have inv: "tags_inv ?t" using ok by (simp add: lines_ok_def)
  note g = inv_geom [OF inv]
  have aq: "blkAlign ?t (pkt_addr q) = blkAlign ?t ?a" using bus(2) blkAlign_self [OF g] by simp
  have fq: "findBlock ?t (pkt_addr q) False = findBlock ?t ?a False" by (rule findBlock_line [OF g aq])
  have cm: "cpu_cmd (pkt_cmd p) \<or> pkt_cmd p = WriteInvalidateReq" using rq by (simp add: request_ok_def)
  have cs: "needsResponse (pkt_cmd p)" "isResponse (pkt_cmd q)" "\<not> isError (pkt_cmd q)"
    "isWriteInvalidate (pkt_cmd p) \<longleftrightarrow> pkt_cmd p = WriteInvalidateReq"
    "pkt_cmd p \<noteq> WriteInvalidateReq \<Longrightarrow> isRead (pkt_cmd q) \<or> pkt_cmd q = UpgradeResp"
    "pkt_cmd p \<noteq> WriteInvalidateReq \<Longrightarrow> \<not> present \<Longrightarrow> pkt_cmd q \<noteq> UpgradeResp"
    "pkt_cmd p \<noteq> WriteInvalidateReq \<Longrightarrow> present \<Longrightarrow> \<not> isRead (pkt_cmd q)"
    using cm by (auto simp: bus(1) bus_cmd_def cpu_cmd_def cmd_attrib_defs)
  have cov: "\<And>x. blkAlign ?t x = blkAlign ?t ?a \<Longrightarrow> cov x" by (rule request_cov [OF st inv rq])
  show ?thesis
  proof (cases "pkt_cmd p = WriteInvalidateReq")
    case True
    have "fill_outcome cov c m ?a True (handleFill e h c p ?blk [])"
    proof (cases "findBlock ?t ?a False")
      case None
      then show ?thesis using fill_new [OF st ok None request_fill [OF rq True], of e h] cov True by (simp add: cmd_attrib_defs)
    next
      case (Some k)
      have "\<not> isRead (pkt_cmd p)" using True by (simp add: cmd_attrib_defs)
      then have "fill_outcome cov c m ?a False (handleFill e h c p ?blk [])"
        using fill_found [OF st ok Some request_fill [OF rq True], of e h] Some by simp
      then show ?thesis unfolding fill_outcome_def by blast
    qed
    then show ?thesis using fill_serve [OF st inv rq, of m ?a] True cs(1-4) st
      by (simp add: atomic_response_def static_ok_def)
  next
    case False
    note fp = fp [OF False]
    have "fill_outcome cov c m (pkt_addr q) False (handleFill e h c q ?blk [])"
    proof (cases "findBlock ?t ?a False")
      case None
      then have "\<not> present" by (simp add: present_def)
      moreover have "pkt_cmd q \<noteq> WriteInvalidateReq" using cs(2) by (auto simp: cmd_attrib_defs)
      ultimately show ?thesis using fill_new [OF st ok _ fp cs(6) [OF False], of e h] None fq cov b [OF False] aq by simp
    next
      case (Some k)
      then show ?thesis using fill_found [OF st ok _ fp, of k e h] fq cs(7) [OF False] by (simp add: present_def)
    qed
    then show ?thesis using fill_serve [OF st inv rq, of m "pkt_addr q"] False cs(1-5) aq
      by (simp add: atomic_response_def)
  qed
qed


section \<open>Uncacheable requests\<close>

lemma clearLocks_lines:
  assumes ok: "lines_ok cov m t"
  shows "lines_ok cov m (clearLocks t)" "view (clearLocks t) m = view t m" "findBlock (clearLocks t) = findBlock t" "same_geom t (clearLocks t)"
proof -
  have inv: "tags_inv t" using ok by (simp add: lines_ok_def)
  have fr: "same_frame t (clearLocks t)" by (simp add: clearLocks_def same_frame_def)
  have ids: "map blk_id (ts_blks (clearLocks t)) = map blk_id (ts_blks t)"
    by (simp add: clearLocks_def blk_id_def blk_isValid_def blk_isSecure_def)
  show f: "findBlock (clearLocks t) = findBlock t" and g: "same_geom t (clearLocks t)"
    using inv_blk_id(2) [OF inv fr ids] same_frame_geom [OF fr] by (simp_all add: clearLocks_def)
  have i: "tags_inv (clearLocks t)" using inv_blk_id(1) [OF inv fr ids] by (simp add: clearLocks_def)
  note ls = lines_same [OF i g f _ _ inv]
  show "view (clearLocks t) m = view t m" "lines_ok cov m (clearLocks t)"
    using ls ok i by (simp_all add: clearLocks_def lines_ok_def)
qed


text \<open>A found line leaves the cache: its write-back, if it is dirty, is queued first.\<close>

lemma flush_line:
  assumes st: "static_ok c" and ok: "lines_ok cov m (c_tags c)" and f: "findBlock (c_tags c) a False = Some k"
  shows "\<exists>c1 c' wbs' m'.
     (if blk_isDirty (ts_blks (c_tags c) ! k)
      then bindE (writebackBlk e c (Tag_Blk k)) (\<lambda>(wb, c). Inr (c, wbs @ [wb])) else Inr (c, wbs)) = Inr (c1, wbs @ wbs') \<and>
     give_up e c1 (Tag_Blk k) = Inr c' \<and> same_cache c c' \<and> drains cov wbs' m m' \<and> lines_ok cov m' (c_tags c') \<and>
     view (c_tags c') m' = view (c_tags c) m \<and> findBlock (c_tags c') a False = None"
proof -
  let ?t = "c_tags c"
  let ?b = "ts_blks ?t ! k"
  have inv: "tags_inv ?t" using ok by (simp add: lines_ok_def)
  have kl: "k < length (ts_blks ?t)" by (rule found_facts(1) [OF inv f])
  obtain c1 wbs' m1 where c1: "(if blk_isDirty ?b then bindE (writebackBlk e c (Tag_Blk k)) (\<lambda>(wb, c). Inr (c, wbs @ [wb])) else Inr (c, wbs))
        = Inr (c1, wbs @ wbs')" "same_cache c c1" "drains cov wbs' m m1" "lines_ok cov m1 (c_tags c1)"
    "view (c_tags c1) m1 = view ?t m" "findBlock (c_tags c1) = findBlock ?t" "\<not> blk_isDirty (ts_blks (c_tags c1) ! k)"
  proof (cases "blk_isDirty ?b")
    case False
    then show ?thesis using ok that [of c "[]" m] by simp
  next
    case True
    obtain wb b' w where w: "writebackBlk e c (Tag_Blk k) = Inr (wb, c\<lparr>c_writebacks := w, c_tags := upd_blk ?t k (\<lambda>_. b')\<rparr>)"
      "plain_request cov 1 wb (blk_data ?b)" "pkt_cmd wb = Writeback" "\<not> req_isInstFetch (pkt_req wb)"
      "pkt_addr wb = blkAlign ?t a" "blk_data b' = blk_data ?b" "blk_id b' = blk_id ?b" "\<not> blk_isDirty b'" "blk_isReadable b'"
      using writeback_law [OF st ok f True] by blast
    note l = line_clean [OF ok f w(7,6,9)]
    have "drains cov [wb] m (spill ?t k m)" using w(2-5) found_facts(2,6) [OF inv f] by (auto simp: spill_def)
    then show ?thesis using that [of "c\<lparr>c_writebacks := w, c_tags := upd_blk ?t k (\<lambda>_. b')\<rparr>" "[wb]" "spill ?t k m"] True w(1,8) l kl
      by (simp add: same_cache_def)
  qed
  have inv1: "tags_inv (c_tags c1)" using c1(4) by (simp add: lines_ok_def)
  have f1: "findBlock (c_tags c1) a False = Some k" using c1(6) f by simp
  note kl1 = found_facts(1) [OF inv1 f1]
  obtain t b where t: "give_up e c1 (Tag_Blk k) = Inr (c1\<lparr>c_tags := t\<rparr>)" "tags_inv t" "same_geom (c_tags c1) t"
    "ts_blks t = (ts_blks (c_tags c1))[k := b]" "\<not> blk_isValid b" "blk_data b = blk_data (ts_blks (c_tags c1) ! k)"
    "\<And>x s. findBlock t x s = (if findBlock (c_tags c1) x s = Some k then None else findBlock (c_tags c1) x s)"
    using give_up_law [OF inv1 f1] by blast
  note ev = line_evict [OF c1(4) t(2,3) kl1 t(7,4,5,6), unfolded spill_clean [OF c1(4) kl1 c1(7)]]
  show ?thesis using c1(1-3,5) t(1) t(7) [of a False] f1 ev same_cache_trans [OF c1(2) same_cache_tags [OF t(3)]]
    by (intro exI [of _ c1] exI [of _ "c1\<lparr>c_tags := t\<rparr>"] exI [of _ wbs'] exI [of _ m1]) simp
qed

lemma uncacheable_law:
  assumes st: "static_ok c" and ok: "lines_ok cov m (c_tags c)" and rq: "carries p d" "\<not> pkt_isSecure p"
  shows "\<exists>c' wbs m'. access_uncacheable e c p [] = Inr (c', wbs) \<and> same_cache c c' \<and> drains cov wbs m m' \<and>
     lines_ok cov m' (c_tags c') \<and> view (c_tags c') m' = view (c_tags c) m \<and> findBlock (c_tags c') (pkt_addr p) False = None"
proof -
  define c0 where "c0 = (if req_isClearLL (pkt_req p) then c\<lparr>c_tags := clearLocks (c_tags c)\<rparr> else c)"
  have c0: "same_cache c c0" "lines_ok cov m (c_tags c0)" "view (c_tags c0) m = view (c_tags c) m"
    using clearLocks_lines [OF ok] ok by (simp_all add: c0_def same_cache_tags)
  note st0 = same_cache_static [OF c0(1) st]
  have sec: "isSecure p = Inr False" using rq by (simp add: isSecure_def carries_def)
  note ca = carries_access(1) [OF rq(1)]
  show ?thesis
  proof (cases "findBlock (c_tags c0) (pkt_addr p) False")
    case None
    then show ?thesis using ca sec c0
      by (intro exI [of _ c0] exI [of _ "[]"] exI [of _ m]) (simp add: access_uncacheable_def Let_def c0_def [symmetric])
  next
    case (Some k)
    have v: "blk_isValid (ts_blks (c_tags c0) ! k)" using found_facts(2) [OF _ Some] c0(2) by (simp add: lines_ok_def)
    obtain c1 c' wbs m' where f: "(if blk_isDirty (ts_blks (c_tags c0) ! k)
        then bindE (writebackBlk e c0 (Tag_Blk k)) (\<lambda>(wb, c). Inr (c, [] @ [wb])) else Inr (c0, [])) = Inr (c1, [] @ wbs)"
      "give_up e c1 (Tag_Blk k) = Inr c'" "same_cache c0 c'" "drains cov wbs m m'" "lines_ok cov m' (c_tags c')"
      "view (c_tags c') m' = view (c_tags c0) m" "findBlock (c_tags c') (pkt_addr p) False = None"
      using flush_line [OF st0 c0(2) Some, of e "[]"] by blast
    have "access_uncacheable e c p [] = Inr (c', wbs)"
      unfolding access_uncacheable_def Let_def c0_def [symmetric] using ca sec Some v f(1,2) by simp
    then show ?thesis using f(3-7) c0(3) same_cache_trans [OF c0(1) f(3)] by auto
  qed
qed


text \<open>Reading and writing memory directly, for a line that is not in the cache.\<close>

lemma uncached_bytes:
  assumes g: "tags_geom t" and f: "findBlock t a False = None" and n: "line_off t a + n \<le> unat (ts_blkSize t)"
  shows "mem_bytes m a n = mem_bytes (view t m) a n"
proof (rule nth_equalityI)
  fix i assume "i < length (mem_bytes m a n)"
  then have i: "i < n" by simp
  then have "findBlock t (a + of_nat i) False = None" using f findBlock_line [OF g line_add(1) [OF g, of a i]] n by simp
  then show "mem_bytes m a n ! i = mem_bytes (view t m) a n ! i" using i by (simp add: view_def)
qed simp

lemma uncached_write:
  assumes ok: "lines_ok cov m t" and f: "findBlock t a False = None" and n: "line_off t a + length d \<le> unat (ts_blkSize t)"
  shows "view t (mem_write m a d) = mem_write (view t m) a d" "lines_ok cov (mem_write m a d) t"
proof -
  have inv: "tags_inv t" and bl: "blocks_ok t" and at: "\<And>x. line_at cov m t x" using ok by (auto simp: lines_ok_def)
  note g = inv_geom [OF inv]
  have other: "blkAlign t x \<noteq> blkAlign t a" if "findBlock t x False \<noteq> None" for x
    using findBlock_line [OF g, of x a False] f that by auto
  show "view t (mem_write m a d) = mem_write (view t m) a d"
  proof
    fix x
    show "view t (mem_write m a d) x = mem_write (view t m) a d x"
      using mem_write_line [OF g n, of m x] mem_write_line [OF g n, of "view t m" x] other [of x]
      by (cases "findBlock t x False") (auto simp: view_def)
  qed
  have "line_at cov (mem_write m a d) t x" for x
    using at [of x] mem_write_line [OF g n, of m x] other [of x] by (auto simp: line_at_def)
  then show "lines_ok cov (mem_write m a d) t" using inv bl by (simp add: lines_ok_def)
qed

section \<open>Requests of the processor\<close>

text \<open>
  Uncacheable requests go past the cache, so they are plain reads and writes; a whole line may not be written that way,
  because it would be turned into an invalidation that memory does not store.
\<close>

definition cpu_request :: "'x cache_scheme \<Rightarrow> (addr \<Rightarrow> bool) \<Rightarrow> 's packet \<Rightarrow> 8 word list \<Rightarrow> bool" where
  "cpu_request c cov p d \<longleftrightarrow> request_ok c cov p d \<and> cpu_cmd (pkt_cmd p) \<and>
     (req_isUncacheable (pkt_req p) \<longrightarrow> pkt_cmd p = ReadReq \<or> pkt_cmd p = WriteReq \<and> \<not> req_isInstFetch (pkt_req p) \<and> pkt_size p \<noteq> c_blkSize c)"

lemma serves_promoted:
  "pkt_cmd p = WriteReq \<Longrightarrow> serves v v' (p\<lparr>pkt_cmd := WriteInvalidateReq\<rparr>) p' = serves v v' p p'"
  by (simp add: serves_def Let_def cmd_attrib_defs)

lemma serves_response [simp]: "serves v v' p (response_of p') = serves v v' p p'"
  by (simp add: serves_def Let_def)

lemma promote_law:
  assumes st: "static_ok c" and rq: "cpu_request c cov p d"
  shows "\<exists>p1. promoteWholeLineWrites c p = Inr p1 \<and> request_ok c cov p1 d \<and> (\<forall>v v' p'. serves v v' p1 p' = serves v v' p p') \<and>
     pkt_addr p1 = pkt_addr p \<and> pkt_req p1 = pkt_req p \<and> (req_isUncacheable (pkt_req p) \<longrightarrow> p1 = p)"
proof (cases "doFastWrites c \<and> pkt_cmd p = WriteReq \<and> pkt_size p = c_blkSize c \<and> pkt_addr p AND scast (c_blkSize c - 1) = 0")
  case True
  let ?p = "p\<lparr>pkt_cmd := WriteInvalidateReq\<rparr>"
  have c: "carries p d" using rq by (simp add: cpu_request_def request_ok_def in_line_def)
  have "promoteWholeLineWrites c p = Inr ?p"
    using True st carries_access [OF c] by (simp add: promoteWholeLineWrites_def static_ok_def)
  moreover have "request_ok c cov ?p d" using rq True
    by (simp add: cpu_request_def request_ok_def in_line_def carries_def memInhibitAsserted_def sharedAsserted_def)
  ultimately show ?thesis using True rq serves_promoted [of p] by (auto simp: cpu_request_def)
next
  case False
  have c: "carries p d" using rq by (simp add: cpu_request_def request_ok_def in_line_def)
  have "promoteWholeLineWrites c p = Inr p"
    using False carries_access [OF c] by (auto simp: promoteWholeLineWrites_def)
  then show ?thesis using rq by (auto simp: cpu_request_def)
qed

lemma respond:
  assumes "pkt_cmd p' = pkt_cmd p \<or> isResponse (pkt_cmd p')" "cpu_cmd (pkt_cmd p) \<or> pkt_cmd p = WriteInvalidateReq"
  shows "\<exists>q. (if needsResponse (pkt_cmd p') then makeResponse p' else Inr p') = Inr q \<and> isResponse (pkt_cmd q) \<and>
     (\<forall>v v' p. serves v v' p q = serves v v' p p')"
proof (cases "pkt_cmd p' = pkt_cmd p")
  case True
  then have "needsResponse (pkt_cmd p')" "isResponse (responseCommand (pkt_cmd p'))"
    using assms(2) by (auto simp: cpu_cmd_def cmd_attrib_defs)
  then show ?thesis using makeResponse_eq [of p'] by simp
next
  case False
  then have "isResponse (pkt_cmd p')" "\<not> needsResponse (pkt_cmd p')"
    using assms(1) by (cases "pkt_cmd p'"; simp add: cmd_attrib_defs)+
  then show ?thesis by simp
qed

section \<open>The cache in front of a memory\<close>

locale memory_below = atomic_memory mwf covers masters mem_at send
  for mwf :: "'m \<Rightarrow> bool" and covers :: "'m \<Rightarrow> addr \<Rightarrow> bool" and masters :: "'m \<Rightarrow> nat"
    and mem_at :: "'m \<Rightarrow> addr \<Rightarrow> 8 word" and send :: "'m port"
begin

lemma send_writebacks_law:
  assumes "mwf m" "0 < masters m" "drains (covers m) wbs (mem_at m) f"
  shows "\<exists>m'. send_writebacks send m wbs = Inr m' \<and> mwf m' \<and> covers m' = covers m \<and> masters m' = masters m \<and> mem_at m' = f"
  using assms
proof (induction wbs arbitrary: m)
  case (Cons wb wbs)
  then obtain d where d: "plain_request (covers m) 1 wb d" "pkt_cmd wb = Writeback" "\<not> req_isInstFetch (pkt_req wb)"
    "drains (covers m) wbs (mem_write (mem_at m) (pkt_addr wb) d) f" by auto
  have "plain_request (covers m) (masters m) wb d" using d(1) Cons.prems(2) by (auto simp: plain_request_def)
  then obtain lat m1 where m1: "send m wb = Inr (lat, m1, wb)" "mwf m1" "covers m1 = covers m" "masters m1 = masters m"
    "mem_at m1 = mem_write (mem_at m) (pkt_addr wb) d"
    using write_law [OF Cons.prems(1), of wb d] d(2,3) by (auto simp: cmd_attrib_defs)
  then show ?case using Cons.IH [OF m1(2)] Cons.prems(2) d(4) by auto
qed simp

text \<open>Sending the packet of a miss.\<close>

lemma send_bus:
  assumes m: "mwf m" and st: "static_ok c" and ok: "lines_ok (covers m) (mem_at m) (c_tags c)"
    and rq: "request_ok c (covers m) p d" and mm: "c_maxMasters c \<le> masters m"
    and q: "carries q b" "pkt_addr q = blkAlign (c_tags c) (pkt_addr p)" "pkt_size q = c_blkSize c" "pkt_req q = pkt_req p"
      "\<not> pkt_isSecure q" "\<not> sharedAsserted q" "\<not> memInhibitAsserted q" "pkt_cmd q = bus_cmd (pkt_cmd p) present"
  shows "\<exists>lat m' q' b'. send m q = Inr (lat, m', q') \<and> mwf m' \<and> covers m' = covers m \<and> masters m' = masters m \<and>
     mem_at m' = mem_at m \<and> pkt_req q' = pkt_req p \<and> pkt_addr q' = pkt_addr q \<and> pkt_cmd q' = responseCommand (pkt_cmd q) \<and>
     (pkt_cmd p \<noteq> WriteInvalidateReq \<longrightarrow> fill_packet c q' b' \<and>
       (\<not> present \<longrightarrow> b' = mem_bytes (mem_at m) (pkt_addr q) (unat (c_blkSize c))))"
proof -
  have r: "cpu_cmd (pkt_cmd p) \<or> pkt_cmd p = WriteInvalidateReq" "unat (req_masterId (pkt_req p)) < c_maxMasters c" "req_ok (pkt_req p)"
    "\<And>i. i < unat (c_blkSize c) \<Longrightarrow> covers m (blkAlign (c_tags c) (pkt_addr p) + of_nat i)" using rq by (auto simp: request_ok_def)
  have len: "length b = unat (c_blkSize c)" using q(1,3) by (simp add: carries_def)
  have pl: "plain_request (covers m) (masters m) q b"
    using q r mm len by (auto simp: plain_request_def req_ok_def hasPaddr_def)
  show ?thesis
  proof (cases "present \<or> pkt_cmd p = WriteInvalidateReq")
    case False
    define q1 where "q1 = q\<lparr>pkt_data := Some (mem_bytes (mem_at m) (pkt_addr q) (length b))\<rparr>"
    have cs: "isRead (pkt_cmd q)" "\<not> isWrite (pkt_cmd q)" "\<not> isLLSC (pkt_cmd q)" "needsResponse (pkt_cmd q)"
      "responseCommand (pkt_cmd q) \<in> {ReadResp, ReadExResp}"
      using False by (auto simp: q(8) bus_cmd_def cmd_attrib_defs)
    obtain lat m' where s: "send m q = Inr (lat, m', response_of q1)" "mwf m'" "covers m' = covers m" "masters m' = masters m" "mem_at m' = mem_at m"
      using read_law [OF m pl cs(1-4)] by (auto simp: q1_def)
    have "fill_packet c (response_of q1) (mem_bytes (mem_at m) (pkt_addr q) (unat (c_blkSize c)))"
      using q r cs(5) len by (auto simp: fill_packet_def carries_def q1_def sharedAsserted_def memInhibitAsserted_def)
    then show ?thesis using s q(4) by (intro exI [of _ lat] exI [of _ m'] exI [of _ "response_of q1"] exI) (auto simp: q1_def)
  next
    case True
    have cs: "isInvalidate (pkt_cmd q)" "\<not> isRead (pkt_cmd q)" "needsResponse (pkt_cmd q)"
      "pkt_cmd p \<noteq> WriteInvalidateReq \<Longrightarrow> responseCommand (pkt_cmd q) = UpgradeResp"
      using True by (auto simp: q(8) bus_cmd_def cmd_attrib_defs)
    obtain lat m' where s: "send m q = Inr (lat, m', response_of q)" "mwf m'" "covers m' = covers m" "masters m' = masters m" "mem_at m' = mem_at m"
      using ack_law [OF m pl cs(1-3)] by auto
    have "fill_packet c (response_of q) b" if "pkt_cmd p \<noteq> WriteInvalidateReq"
      using q r cs(4) [OF that] by (auto simp: fill_packet_def carries_def sharedAsserted_def memInhibitAsserted_def)
    then show ?thesis using s q(4) True by (intro exI [of _ lat] exI [of _ m'] exI [of _ "response_of q"] exI [of _ b]) auto
  qed
qed

lemma atomic_miss_law:
  assumes m: "mwf m" and st: "static_ok c" and ok: "lines_ok (covers m) (mem_at m) (c_tags c)"
    and rq: "request_ok c (covers m) p d" and mm: "c_maxMasters c \<le> masters m" and unc: "\<not> req_isUncacheable (pkt_req p)"
    and f: "\<And>k. findBlock (c_tags c) (pkt_addr p) False = Some k \<Longrightarrow> needsExclusive (pkt_cmd p) \<and> \<not> blk_isWritable (ts_blks (c_tags c) ! k)"
  shows "\<exists>lt c' m' p' wbs v.
     atomic_miss e h send c m p (map_option Tag_Blk (findBlock (c_tags c) (pkt_addr p) False)) = Inr (lt, c', m', p', wbs) \<and>
     mwf m' \<and> covers m' = covers m \<and> masters m' = masters m \<and> same_cache c c' \<and> drains (covers m) wbs (mem_at m') v \<and>
     lines_ok (covers m) v (c_tags c') \<and> (pkt_cmd p' = pkt_cmd p \<or> isResponse (pkt_cmd p')) \<and>
     serves (view (c_tags c) (mem_at m)) (view (c_tags c') v) p p'"
proof -
  let ?t = "c_tags c" and ?a = "pkt_addr p"
  let ?fb = "findBlock ?t ?a False"
  have inv: "tags_inv ?t" using ok by (simp add: lines_ok_def)
  note g = inv_geom [OF inv]
  have bs: "c_blkSize c = ts_blkSize ?t" using st by (simp add: static_ok_def)
  obtain q b where q: "getBusPacket e c p (map_option Tag_Blk ?fb) (needsExclusive (pkt_cmd p)) = Inr (Some q)"
    and q1: "carries q b" "pkt_addr q = blkAlign ?t ?a" "pkt_size q = c_blkSize c" "pkt_req q = pkt_req p"
     "\<not> pkt_isSecure q" "\<not> sharedAsserted q" "\<not> memInhibitAsserted q" "pkt_cmd q = bus_cmd (pkt_cmd p) (?fb \<noteq> None)"
    using bus_packet_law [OF st inv rq unc f] by blast
  obtain lt m' q' b' where s: "send m q = Inr (lt, m', q')" "mwf m'" "covers m' = covers m" "masters m' = masters m"
     "mem_at m' = mem_at m" "pkt_req q' = pkt_req p" "pkt_addr q' = pkt_addr q" "pkt_cmd q' = responseCommand (pkt_cmd q)"
     "pkt_cmd p \<noteq> WriteInvalidateReq \<Longrightarrow> fill_packet c q' b'"
     "pkt_cmd p \<noteq> WriteInvalidateReq \<Longrightarrow> \<not> ?fb \<noteq> None \<Longrightarrow> b' = mem_bytes (mem_at m) (pkt_addr q) (unat (c_blkSize c))"
    using send_bus [OF m st ok rq mm q1] by blast
  have "b' ! line_off ?t x = mem_at m x" if "pkt_cmd p \<noteq> WriteInvalidateReq" "\<not> ?fb \<noteq> None" "blkAlign ?t x = blkAlign ?t ?a" for x
  proof -
    have "blkAlign ?t ?a + of_nat (line_off ?t x) = x" unfolding that(3) [symmetric] by simp
    then show ?thesis using s(10) [OF that(1,2)] mem_bytes_line [OF g, of "mem_at m" ?a x] unfolding q1(2) bs by (simp only:)
  qed
  then have "atomic_outcome (covers m) c (mem_at m) p (atomic_response e h c p q' (map_option Tag_Blk ?fb))"
    using s(7-9) q1(2,8) by (intro atomic_response_law [OF st ok rq]) auto
  then obtain c' p' wbs v where a: "atomic_response e h c p q' (map_option Tag_Blk ?fb) = Inr (c', p', wbs)" "same_cache c c'"
     "drains (covers m) wbs (mem_at m) v" "lines_ok (covers m) v (c_tags c')" "pkt_cmd p' = pkt_cmd p \<or> isResponse (pkt_cmd p')"
     "serves (view ?t (mem_at m)) (view (c_tags c') v) p p'" unfolding atomic_outcome_def by blast
  have "p\<lparr>pkt_req := pkt_req q'\<rparr> = p" using s(6) by simp
  then have "atomic_miss e h send c m p (map_option Tag_Blk ?fb) = Inr (e_ticksToCycles e lt, c', m', p', wbs)"
    using q s(1) a(1) by (simp add: atomic_miss_def)
  then show ?thesis using s(2-5) a(2-6)
    by (intro exI [of _ "e_ticksToCycles e lt"] exI [of _ c'] exI [of _ m'] exI [of _ p'] exI [of _ wbs] exI [of _ v]) simp
qed

lemma recvAtomic_cached:
  assumes m: "mwf m" and st: "static_ok c" and ok: "lines_ok (covers m) (mem_at m) (c_tags c)"
    and rq: "cpu_request c (covers m) p d" and mm: "c_maxMasters c \<le> masters m" and unc: "\<not> req_isUncacheable (pkt_req p)"
  shows "\<exists>lat c' m' p'. recvAtomic e h send c m p = Inr (lat, c', m', p') \<and> mwf m' \<and> covers m' = covers m \<and> masters m' = masters m \<and>
     same_cache c c' \<and> lines_ok (covers m) (mem_at m') (c_tags c') \<and> isResponse (pkt_cmd p') \<and>
     serves (view (c_tags c) (mem_at m)) (view (c_tags c') (mem_at m')) p p'"
proof -
  let ?t = "c_tags c"
  obtain p1 where p1: "promoteWholeLineWrites c p = Inr p1" "request_ok c (covers m) p1 d" "\<And>v v' p'. serves v v' p1 p' = serves v v' p p'"
    "pkt_addr p1 = pkt_addr p" "pkt_req p1 = pkt_req p" using promote_law [OF st rq] by blast
  have u1: "\<not> req_isUncacheable (pkt_req p1)" "\<not> memInhibitAsserted p1" "cpu_cmd (pkt_cmd p1) \<or> pkt_cmd p1 = WriteInvalidateReq"
    using p1(2,5) unc by (auto simp: request_ok_def)
  have nb: "\<not> bypassCaches c" "0 < masters m" using st mm by (auto simp: static_ok_def)
  obtain sat blk lt c1 p2 where a: "access e h c p1 (lookupLatency c) [] = Inr (sat, blk, lt, c1, p2, [])" "same_cache c c1"
    "lines_ok (covers m) (mem_at m) (c_tags c1)"
    "sat \<and> pkt_cmd p2 = pkt_cmd p1 \<and> serves (view ?t (mem_at m)) (view (c_tags c1) (mem_at m)) p1 p2 \<or>
      \<not> sat \<and> p2 = p1\<lparr>pkt_req := incAccessDepth (pkt_req p1)\<rparr> \<and> view (c_tags c1) (mem_at m) = view ?t (mem_at m) \<and>
      blk = map_option Tag_Blk (findBlock (c_tags c1) (pkt_addr p1) False) \<and>
      (\<forall>k. findBlock (c_tags c1) (pkt_addr p1) False = Some k \<longrightarrow> needsExclusive (pkt_cmd p1) \<and> \<not> blk_isWritable (ts_blks (c_tags c1) ! k))"
    using access_law [OF st ok p1(2) u1(1), of e h] by blast
  show ?thesis
  proof (cases sat)
    case True
    then have s: "pkt_cmd p2 = pkt_cmd p1" "serves (view ?t (mem_at m)) (view (c_tags c1) (mem_at m)) p1 p2" using a(4) by auto
    obtain q where q: "(if needsResponse (pkt_cmd p2) then makeResponse p2 else Inr p2) = Inr q" "isResponse (pkt_cmd q)"
      "\<And>v v' p. serves v v' p q = serves v v' p p2" using respond [OF _ u1(3), of p2] s(1) by blast
    have "recvAtomic e h send c m p = Inr ((lt + 0) * e_clockPeriod e, c1, m, q)"
      unfolding recvAtomic_def using nb(1) p1(1) u1(2) a(1) True q(1) by simp
    then show ?thesis using m a(2,3) s(2) q(2,3) p1(3) by simp
  next
    case False
    then have s: "p2 = p1\<lparr>pkt_req := incAccessDepth (pkt_req p1)\<rparr>" "view (c_tags c1) (mem_at m) = view ?t (mem_at m)"
      "blk = map_option Tag_Blk (findBlock (c_tags c1) (pkt_addr p2) False)"
      "\<And>k. findBlock (c_tags c1) (pkt_addr p2) False = Some k \<Longrightarrow> needsExclusive (pkt_cmd p2) \<and> \<not> blk_isWritable (ts_blks (c_tags c1) ! k)"
      using a(4) by auto
    note st1 = same_cache_static [OF a(2) st]
    have "request_ok c1 (covers m) p1 d" using p1(2) request_config [OF a(2)] by blast
    then have rq2: "request_ok c1 (covers m) p2 d" unfolding s(1) by (simp only: request_deeper)
    have x2: "c_maxMasters c1 \<le> masters m" "\<not> req_isUncacheable (pkt_req p2)" "cpu_cmd (pkt_cmd p2) \<or> pkt_cmd p2 = WriteInvalidateReq"
      using a(2) mm u1 s(1) by (simp_all add: same_cache_def req_isUncacheable_def incAccessDepth_def)
    obtain lt' c2 m2 p3 wbs v where k: "atomic_miss e h send c1 m p2 blk = Inr (lt', c2, m2, p3, wbs)" "mwf m2" "covers m2 = covers m"
      "masters m2 = masters m" "same_cache c1 c2" "drains (covers m) wbs (mem_at m2) v" "lines_ok (covers m) v (c_tags c2)"
      "pkt_cmd p3 = pkt_cmd p2 \<or> isResponse (pkt_cmd p3)" "serves (view (c_tags c1) (mem_at m)) (view (c_tags c2) v) p2 p3"
      using atomic_miss_law [OF m st1 a(3) rq2 x2(1,2) s(4), of e h, folded s(3)] by blast
    obtain m3 where w: "send_writebacks send m2 wbs = Inr m3" "mwf m3" "covers m3 = covers m" "masters m3 = masters m" "mem_at m3 = v"
      using send_writebacks_law [OF k(2), of wbs v] k(3,4,6) nb(2) by auto
    obtain q where q: "(if needsResponse (pkt_cmd p3) then makeResponse p3 else Inr p3) = Inr q" "isResponse (pkt_cmd q)"
      "\<And>v v' p. serves v v' p q = serves v v' p p3" using respond [OF k(8) x2(3)] by blast
    have "recvAtomic e h send c m p = Inr ((lt + lt') * e_clockPeriod e, c2, m3, q)"
      unfolding recvAtomic_def using nb(1) p1(1) u1(2) a(1) False k(1) w(1) q(1) by simp
    moreover have "serves (view ?t (mem_at m)) (view (c_tags c2) v) p q" using k(9) s(1,2) q(3) p1(3) by simp
    ultimately show ?thesis using w(2-5) k(7) q(2) same_cache_trans [OF a(2) k(5)] by simp
  qed
qed

lemma recvAtomic_uncached:
  assumes m: "mwf m" and st: "static_ok c" and ok: "lines_ok (covers m) (mem_at m) (c_tags c)"
    and rq: "cpu_request c (covers m) p d" and mm: "c_maxMasters c \<le> masters m" and unc: "req_isUncacheable (pkt_req p)"
  shows "\<exists>lat c' m' p'. recvAtomic e h send c m p = Inr (lat, c', m', p') \<and> mwf m' \<and> covers m' = covers m \<and> masters m' = masters m \<and>
     same_cache c c' \<and> lines_ok (covers m) (mem_at m') (c_tags c') \<and> isResponse (pkt_cmd p') \<and>
     serves (view (c_tags c) (mem_at m)) (view (c_tags c') (mem_at m')) p p'"
proof -
  let ?t = "c_tags c" and ?a = "pkt_addr p"
  have pr: "promoteWholeLineWrites c p = Inr p" using promote_law [OF st rq] unc by auto
  have r: "carries p d" "\<not> pkt_isSecure p" "\<not> memInhibitAsserted p" "unat (req_masterId (pkt_req p)) < c_maxMasters c" "req_ok (pkt_req p)"
    "line_off ?t ?a + length d \<le> unat (ts_blkSize ?t)" "request_ok c (covers m) p d"
    using rq by (auto simp: cpu_request_def request_ok_def in_line_def)
  have nb: "\<not> bypassCaches c" "0 < masters m" using st mm by (auto simp: static_ok_def)
  obtain c1 wbs v where a: "access_uncacheable e c p [] = Inr (c1, wbs)" "same_cache c c1" "drains (covers m) wbs (mem_at m) v"
    "lines_ok (covers m) v (c_tags c1)" "view (c_tags c1) v = view ?t (mem_at m)" "findBlock (c_tags c1) ?a False = None"
    using uncacheable_law [OF st ok r(1,2)] by blast
  obtain m1 where w: "send_writebacks send m wbs = Inr m1" "mwf m1" "covers m1 = covers m" "masters m1 = masters m" "mem_at m1 = v"
    using send_writebacks_law [OF m nb(2) a(3)] by blast
  have inv: "tags_inv ?t" and inv1: "tags_inv (c_tags c1)" using ok a(4) by (auto simp: lines_ok_def)
  have n: "line_off (c_tags c1) ?a + length d \<le> unat (ts_blkSize (c_tags c1))"
    using r(6) same_geom_addr(3) [OF same_cache_geom [OF a(2)]] same_cache_geom [OF a(2)] by (simp add: same_geom_def)
  have cov: "covers m (?a + of_nat i)" if "i < length d" for i
    using request_cov [OF st inv r(7), of "?a + of_nat i"] line_add(1) [OF inv_geom [OF inv], of ?a i] r(6) that by simp
  have pl: "plain_request (covers m1) (masters m1) p d"
    using r mm w(3,4) cov by (auto simp: plain_request_def req_ok_def hasPaddr_def)
  have cs: "isRequest (pkt_cmd p)" using rq unc by (auto simp: cpu_request_def cmd_attrib_defs)
  have body: "recvAtomic e h send c m p = Inr ((lookupLatency c1 + e_ticksToCycles e lt) * e_clockPeriod e, c1, m2, q)"
    if "send m1 p = Inr (lt, m2, q)" "isResponse (pkt_cmd q)" for lt m2 q
  proof -
    have "\<not> needsResponse (pkt_cmd q)" using that(2) by (cases "pkt_cmd q") (simp_all add: cmd_attrib_defs)
    then show ?thesis unfolding recvAtomic_def access_def atomic_miss_def getBusPacket_def
      using nb(1) pr r(3) cs unc a(1) w(1) that by simp
  qed
  show ?thesis
  proof (cases "pkt_cmd p = ReadReq")
    case True
    define q where "q = response_of (p\<lparr>pkt_data := Some (mem_bytes (mem_at m1) ?a (length d))\<rparr>)"
    obtain lt m2 where s: "send m1 p = Inr (lt, m2, q)" "mwf m2" "covers m2 = covers m" "masters m2 = masters m" "mem_at m2 = v"
      using read_law [OF w(2) pl] True w(3-5) by (auto simp: cmd_attrib_defs q_def)
    have q: "isResponse (pkt_cmd q)" "serves (view ?t (mem_at m)) (view (c_tags c1) v) p q"
      using True r(1) a(5) uncached_bytes [OF inv_geom [OF inv1] a(6) n, of v] w(5)
      by (simp_all add: q_def serves_def Let_def cmd_attrib_defs carries_def)
    show ?thesis using body [OF s(1) q(1)] s(2-5) q a(2,4) by simp
  next
    case False
    then have wr: "pkt_cmd p = WriteReq" "\<not> req_isInstFetch (pkt_req p)" using rq unc by (auto simp: cpu_request_def)
    obtain lt m2 where s: "send m1 p = Inr (lt, m2, response_of p)" "mwf m2" "covers m2 = covers m" "masters m2 = masters m"
      "mem_at m2 = mem_write v ?a d"
      using write_law [OF w(2) pl] wr w(3-5) by (auto simp: cmd_attrib_defs)
    have q: "isResponse (pkt_cmd (response_of p))" using wr by (simp add: cmd_attrib_defs)
    note uw = uncached_write [OF a(4,6) n]
    have "serves (view ?t (mem_at m)) (view (c_tags c1) (mem_write v ?a d)) p (response_of p)"
      using wr r(1) uw(1) a(5) by (simp add: serves_def Let_def cmd_attrib_defs carries_def)
    then show ?thesis using body [OF s(1) q] s(2-5) q uw(2) a(2) by simp
  qed
qed

lemma recvAtomic_law:
  assumes "mwf m" "static_ok c" "lines_ok (covers m) (mem_at m) (c_tags c)" "cpu_request c (covers m) p d" "c_maxMasters c \<le> masters m"
  shows "\<exists>lat c' m' p'. recvAtomic e h send c m p = Inr (lat, c', m', p') \<and> mwf m' \<and> covers m' = covers m \<and> masters m' = masters m \<and>
     same_cache c c' \<and> lines_ok (covers m) (mem_at m') (c_tags c') \<and> isResponse (pkt_cmd p') \<and>
     serves (view (c_tags c) (mem_at m)) (view (c_tags c') (mem_at m')) p p'"
  using recvAtomic_cached [OF assms] recvAtomic_uncached [OF assms] by blast

end

section \<open>Sequences of requests\<close>

fun atomic_run ::
    "heap \<Rightarrow> 'm port \<Rightarrow> 'x cache_scheme \<Rightarrow> 'm \<Rightarrow> (env \<times> sender packet) list \<Rightarrow>
     ('x cache_scheme \<times> 'm \<times> sender packet list) res" where
  "atomic_run h send c m [] = Inr (c, m, [])"
| "atomic_run h send c m ((e, p) # rs) =
     bindE (recvAtomic e h send c m p) (\<lambda>(_, c, m, q).
     bindE (atomic_run h send c m rs) (\<lambda>(c, m, qs). Inr (c, m, q # qs)))"

text \<open>The specification: an array of bytes that answers one request after the other.\<close>

fun flat_run :: "(addr \<Rightarrow> 8 word) \<Rightarrow> 's packet list \<Rightarrow> 's packet list \<Rightarrow> (addr \<Rightarrow> 8 word) \<Rightarrow> bool" where
  "flat_run v [] qs v' \<longleftrightarrow> qs = [] \<and> v' = v"
| "flat_run v (p # ps) [] v' \<longleftrightarrow> False"
| "flat_run v (p # ps) (q # qs) v' \<longleftrightarrow> (\<exists>v1. serves v v1 p q \<and> flat_run v1 ps qs v')"

definition cpu_packet :: "'x cache_scheme \<Rightarrow> (addr \<Rightarrow> bool) \<Rightarrow> 's packet \<Rightarrow> bool" where
  "cpu_packet c cov p \<longleftrightarrow> cpu_request c cov p (the (pkt_data p))"

lemma cpu_packet_config:
  assumes "same_cache c c'"
  shows "cpu_packet c' cov p = cpu_packet c cov p"
  using request_config [OF assms, of cov p] assms by (auto simp: cpu_packet_def cpu_request_def same_cache_def)

context memory_below
begin

lemma atomic_run_law:
  assumes "mwf m" "static_ok c" "lines_ok (covers m) (mem_at m) (c_tags c)" "c_maxMasters c \<le> masters m"
    "list_all (\<lambda>(e, p). cpu_packet c (covers m) p) rs"
  shows "\<exists>c' m' qs. atomic_run h send c m rs = Inr (c', m', qs) \<and> mwf m' \<and> covers m' = covers m \<and> masters m' = masters m \<and>
     same_cache c c' \<and> lines_ok (covers m) (mem_at m') (c_tags c') \<and> list_all (\<lambda>q. isResponse (pkt_cmd q)) qs \<and>
     flat_run (view (c_tags c) (mem_at m)) (map snd rs) qs (view (c_tags c') (mem_at m'))"
  using assms
proof (induction rs arbitrary: c m)
  case (Cons r rs)
  obtain e p where r: "r = (e, p)" by (cases r)
  have "cpu_request c (covers m) p (the (pkt_data p))" using Cons.prems(5) r by (simp add: cpu_packet_def)
  then obtain lat c1 m1 q where s: "recvAtomic e h send c m p = Inr (lat, c1, m1, q)" "mwf m1" "covers m1 = covers m" "masters m1 = masters m"
     "same_cache c c1" "lines_ok (covers m) (mem_at m1) (c_tags c1)" "isResponse (pkt_cmd q)"
     "serves (view (c_tags c) (mem_at m)) (view (c_tags c1) (mem_at m1)) p q"
    using recvAtomic_law [OF Cons.prems(1-3) _ Cons.prems(4), of p _ e h] by blast
  have "c_maxMasters c1 \<le> masters m1" using s(4,5) Cons.prems(4) by (simp add: same_cache_def)
  moreover have "list_all (\<lambda>(e, p). cpu_packet c1 (covers m1) p) rs"
    using Cons.prems(5) unfolding list_all_iff s(3)
    by (auto intro!: iffD2 [OF cpu_packet_config [OF s(5)]])
  ultimately obtain c' m' qs where t: "atomic_run h send c1 m1 rs = Inr (c', m', qs)" "mwf m'" "covers m' = covers m" "masters m' = masters m"
     "same_cache c1 c'" "lines_ok (covers m) (mem_at m') (c_tags c')" "list_all (\<lambda>q. isResponse (pkt_cmd q)) qs"
     "flat_run (view (c_tags c1) (mem_at m1)) (map snd rs) qs (view (c_tags c') (mem_at m'))"
    using Cons.IH [OF s(2) same_cache_static [OF s(5) Cons.prems(2)]] s(3,4,6) by auto
  show ?case using r s(1,7,8) t same_cache_trans [OF s(5) t(5)] by auto
qed simp

end

interpretation below: memory_below am_ok am_covers am_masters am_at "sm_recvAtomic draw"
  for draw
  by (intro memory_below.intro simple_memory.atomic_memory_axioms)

section \<open>A fresh cache\<close>

lemma new_tags_lines:
  assumes "new_BaseSetAssoc g masters p = Inr t"
  shows "lines_ok cov m t" "view t m = m" "maxMasters t = masters" "ts_blkSize t = p_block_size p"
proof -
  have inv: "tags_inv t" by (rule new_BaseSetAssoc_inv [OF assms])
  have f: "ts_blkSize t = p_block_size p" "maxMasters t = masters"
    "ts_blks t = concat (map (\<lambda>i. map (fresh_blk g (ts_blkSize t) i) [0..<unat (ts_assoc t)]) [0..<unat (numSets t)])"
    using assms by (auto simp: new_BaseSetAssoc_def Let_def split: if_splits)
  have b: "\<not> blk_isValid b \<and> length (blk_data b) = unat (ts_blkSize t)" if "b \<in> set (ts_blks t)" for b
    using that unfolding f(3) by (auto simp: fresh_blk_facts) (auto simp: fresh_blk_def Let_def blk_invalidate_def)
  have none: "findBlock t x s = None" for x s
    using found_facts(1,2) [OF inv, of x s] b nth_mem by (cases "findBlock t x s") auto
  show "view t m = m" by (simp add: view_def none fun_eq_iff)
  show "lines_ok cov m t" using inv b by (simp add: lines_ok_def blocks_ok_def line_at_def none)
  show "maxMasters t = masters" "ts_blkSize t = p_block_size p" using f by simp_all
qed

lemma new_Cache_total:
  assumes "0 < cp_mshrs p" "0 < cp_write_buffers p"
  shows "\<exists>h' c. new_Cache g h n masters b t r p = Inr (h', c)"
  using assms by (simp add: new_Cache_def new_MSHRQueue_def Let_def)

lemma new_cache_ok:
  assumes t: "new_BaseSetAssoc g masters tp = Inr t" and c: "new_Cache g' h (p_block_size tp) masters False t r cp = Inr (h', c)"
    and s: "unat (p_block_size tp) < 2 ^ 31" "0 < masters" "cp_is_top_level cp"
  shows "static_ok c" "c_tags c = t" "c_maxMasters c = masters"
proof -
  note n = new_tags_lines(3,4) [OF t]
  show "static_ok c" "c_tags c = t" "c_maxMasters c = masters"
    using c s n by (auto simp: new_Cache_def new_MSHRQueue_def Let_def static_ok_def split: if_splits)
qed

text \<open>
  C1: A cache built over an idle simple memory is invisible. Any sequence of reads, writes, load-linked, store-conditional,
  software-prefetch and swap requests inside lines that memory covers, cacheable or not, is answered without an error,
  every answer is a response, and the answers are those of an array of bytes that starts with the contents of memory:
  every read returns the bytes last written, whichever lines were missed, upgraded, evicted and written back on the way.
  At the end the lines in the cache over the bytes in memory are the contents of that array.
\<close>
theorem cache_transparent:
  assumes "new_BaseSetAssoc g masters tp = Inr t" "new_Cache g' h (p_block_size tp) masters False t r cp = Inr (h', c)"
    "unat (p_block_size tp) < 2 ^ 31" "0 < masters" "cp_is_top_level cp"
    "am_ok m" "masters \<le> am_masters m" "list_all (\<lambda>(e, p). cpu_packet c (am_covers m) p) rs"
  shows "\<exists>c' m' qs. atomic_run h' (sm_recvAtomic draw) c m rs = Inr (c', m', qs) \<and> list_all (\<lambda>q. isResponse (pkt_cmd q)) qs \<and>
     flat_run (am_at m) (map snd rs) qs (view (c_tags c') (am_at m')) \<and> lines_ok (am_covers m') (am_at m') (c_tags c')"
proof -
  note n = new_cache_ok [OF assms(1-5)] and l = new_tags_lines(1,2) [OF assms(1)]
  show ?thesis
    using below.atomic_run_law [OF assms(6) n(1) _ _ assms(8), of h' draw] n assms(7) l by auto
qed


definition demo_cpu_packet :: "command \<Rightarrow> 32 word \<Rightarrow> addr \<Rightarrow> 8 word list \<Rightarrow> sender packet" where
  "demo_cpu_packet cmd fl a d =
     (let p = new_Packet (setThreadContext (new_Request_phys a (of_nat (length d)) fl 0 0) 3 0) cmd in
      case dataStatic d p of Inr p \<Rightarrow> p | Inl _ \<Rightarrow> p)"

definition demo_env :: env where
  "demo_env = \<lparr>e_now = 0, e_draw = 0, e_garbage = (\<lambda>_. 0), e_ticksToCycles = id, e_clockEdge = id, e_clockPeriod = 1\<rparr>"

definition demo_l1_params :: tags_params where
  "demo_l1_params = \<lparr>p_size = 32, p_block_size = 16, p_assoc = 1, p_hit_latency = 1, p_sequential_access = False\<rparr>"

definition demo_cache_params :: cache_params where
  "demo_cache_params = \<lparr>cp_mshrs = 4, cp_demand_mshr_reserve = 1, cp_write_buffers = 2, cp_hit_latency = 1, cp_response_latency = 1,
     cp_tgts_per_mshr = 4, cp_forward_snoops = True, cp_is_top_level = True, cp_max_miss_count = 0, cp_addr_ranges = []\<rparr>"

definition demo_ram :: "sender simple_mem" where
  "demo_ram = setBackingStore (new_SimpleMemory (plain_AddrRange 0 63) 2 30 0 1) (replicate 64 7)"

text \<open>Two lines that share a set are written and read in turn, one is read past the cache, a whole line is written.\<close>

definition demo_requests :: "(env \<times> sender packet) list" where
  "demo_requests = map (Pair demo_env)
     [demo_cpu_packet WriteReq 0 0x04 [1, 2], demo_cpu_packet WriteReq 0 0x20 [3, 4], demo_cpu_packet ReadReq 0 0x04 [0, 0],
      demo_cpu_packet SwapReq 0 0x20 [9], demo_cpu_packet ReadReq UNCACHEABLE 0x20 [0, 0], demo_cpu_packet WriteReq 0 0x10 (replicate 16 5)]"

definition demo_fits :: "sender packet \<Rightarrow> bool" where
  "demo_fits p \<longleftrightarrow> carries p (the (pkt_data p)) \<and> unat (pkt_addr p - (pkt_addr p AND NOT 15)) + length (the (pkt_data p)) \<le> 16 \<and>
     cpu_cmd (pkt_cmd p) \<and> req_ok (pkt_req p) \<and> req_paddr (pkt_req p) = pkt_addr p \<and> \<not> pkt_isSecure p \<and> \<not> req_isSecure (pkt_req p) \<and>
     \<not> memInhibitAsserted p \<and> \<not> sharedAsserted p \<and> unat (req_masterId (pkt_req p)) < 2 \<and>
     (pkt_cmd p = SwapReq \<longrightarrow> swap_ok p) \<and>
     list_all (\<lambda>i. (pkt_addr p AND NOT 15) + of_nat i \<le> 63) [0..<16] \<and>
     (req_isUncacheable (pkt_req p) \<longrightarrow> pkt_cmd p = ReadReq)"

lemma demo_ram_facts: "am_ok demo_ram" "am_masters demo_ram = 2" "am_covers demo_ram x \<longleftrightarrow> x \<le> 63"
  by (auto simp: demo_ram_def am_ok_def am_masters_def am_covers_def setBackingStore_def new_SimpleMemory_def new_AbstractMemory_def
      plain_AddrRange_def abstract_mem.defs simple_mem.defs)

lemma demo_fits_packet:
  assumes "blkMask (c_tags c) = 15" "ts_blkSize (c_tags c) = 16" "c_blkSize c = 16" "c_maxMasters c = 2" "demo_fits p"
  shows "cpu_packet c (am_covers demo_ram) p"
  using assms by (auto simp: demo_fits_def cpu_packet_def cpu_request_def request_ok_def list_all_iff cpu_cmd_def in_line_def blkAlign_def demo_ram_facts)

lemma demo_fits_all: "list_all (\<lambda>(e, p). demo_fits p) demo_requests"
  by (simp add: demo_requests_def demo_fits_def demo_cpu_packet_def new_Packet_def dataStatic_def noneSet_def setFlag_def isSet_def
      new_Request_phys_def setPhys_def new_Request_def setThreadContext_def hasPaddr_def hasSize_def carries_def cpu_cmd_def req_ok_def
      req_isSecure_def memInhibitAsserted_def sharedAsserted_def swap_ok_def req_isCondSwap_def req_isUncacheable_def Let_def
      clearFlag_def) code_simp

lemma demo_sizes: "unat (p_block_size demo_l1_params) < 2 ^ 31" "0 < (2 :: nat)" "cp_is_top_level demo_cache_params"
  by (simp_all add: demo_l1_params_def demo_cache_params_def)

lemma flat_run_Cons:
  "flat_run v (p # ps) qs v' \<longleftrightarrow> (\<exists>q qs' v1. qs = q # qs' \<and> serves v v1 p q \<and> flat_run v1 ps qs' v')"
  by (cases qs) auto

lemma demo_answers:
  assumes "flat_run v (map snd demo_requests) qs v'"
  shows "map pkt_data qs ! 2 = Some [1, 2] \<and> map pkt_data qs ! 4 = Some [9, 4]"
  using assms by (auto simp: demo_requests_def flat_run_Cons demo_cpu_packet_def new_Packet_def dataStatic_def noneSet_def setFlag_def
      new_Request_phys_def setPhys_def new_Request_def setThreadContext_def hasPaddr_def hasSize_def Let_def
      serves_def swap_condition_def req_isCondSwap_def cmd_attrib_defs mem_bytes_def mem_write_def isSet_def clearFlag_def)

lemma demo_l1:
  "\<exists>t h c. new_BaseSetAssoc (\<lambda>_. 0) 2 demo_l1_params = Inr t \<and>
     new_Cache (\<lambda>_. 0) [] (p_block_size demo_l1_params) 2 False t LRU_Policy demo_cache_params = Inr (h, c) \<and>
     static_ok c \<and> c_tags c = t \<and> c_maxMasters c = 2 \<and> list_all (\<lambda>(e, p). cpu_packet c (am_covers demo_ram) p) demo_requests"
proof -
  have "floorLog2 16 = Inr 4" "floorLog2 2 = Inr 1" using floorLog2_power2 [of 4] floorLog2_power2 [of 1] by simp_all
  moreover have "isPowerOf2 (16 :: 32 word)" "isPowerOf2 (2 :: 32 word)" by (simp_all add: isPowerOf2_def leastSigBit_def)
  ultimately obtain t where t: "new_BaseSetAssoc (\<lambda>_. 0) 2 demo_l1_params = Inr t" and bm: "blkMask t = 15"
    by (simp add: new_BaseSetAssoc_def Let_def demo_l1_params_def)
  have cp: "0 < cp_mshrs demo_cache_params" "0 < cp_write_buffers demo_cache_params" by (simp_all add: demo_cache_params_def)
  obtain h c where c: "new_Cache (\<lambda>_. 0) [] (p_block_size demo_l1_params) 2 False t LRU_Policy demo_cache_params = Inr (h, c)"
    using new_Cache_total [of demo_cache_params "\<lambda>_. 0"] cp by blast
  note n = new_cache_ok [OF t c demo_sizes]
  have b: "c_blkSize c = 16" using n(1,2) new_tags_lines(4) [OF t] by (simp add: static_ok_def demo_l1_params_def)
  have "list_all (\<lambda>(e, p). cpu_packet c (am_covers demo_ram) p) demo_requests"
    using demo_fits_packet [of c] demo_fits_all n b bm new_tags_lines(4) [OF t]
    unfolding list_all_iff by (auto simp: demo_l1_params_def)
  then show ?thesis using t c n by blast
qed

theorem cache_transparent_witness:
  "\<exists>t h c c' m' qs. new_BaseSetAssoc (\<lambda>_. 0) 2 demo_l1_params = Inr t \<and>
     new_Cache (\<lambda>_. 0) [] (p_block_size demo_l1_params) 2 False t LRU_Policy demo_cache_params = Inr (h, c) \<and>
     atomic_run h (sm_recvAtomic 0) c demo_ram demo_requests = Inr (c', m', qs) \<and>
     flat_run (am_at demo_ram) (map snd demo_requests) qs (view (c_tags c') (am_at m')) \<and>
     map pkt_data qs ! 2 = Some [1, 2] \<and> map pkt_data qs ! 4 = Some [9, 4]"
proof -
  obtain t h c where c: "new_BaseSetAssoc (\<lambda>_. 0) 2 demo_l1_params = Inr t"
     "new_Cache (\<lambda>_. 0) [] (p_block_size demo_l1_params) 2 False t LRU_Policy demo_cache_params = Inr (h, c)"
     "list_all (\<lambda>(e, p). cpu_packet c (am_covers demo_ram) p) demo_requests"
    using demo_l1 by blast
  have m: "am_ok demo_ram" "2 \<le> am_masters demo_ram" by (simp_all add: demo_ram_facts)
  obtain c' m' qs where w: "atomic_run h (sm_recvAtomic 0) c demo_ram demo_requests = Inr (c', m', qs)"
      "flat_run (am_at demo_ram) (map snd demo_requests) qs (view (c_tags c') (am_at m'))"
    using cache_transparent [OF c(1,2) demo_sizes m c(3)] by blast
  show ?thesis using c(1,2) w demo_answers [OF w(2)] by blast
qed

end
