(* ===== verification/Cache_Flush.thy ===== *)
theory Cache_Flush
  imports Cache_Atomic
begin

text \<open>
  Flushing a cache: \<open>memWriteback\<close> writes every dirty block to memory outside of simulated time, \<open>memInvalidate\<close> drops
  every block. The memory is any that keeps the law of \<open>functional_memory\<close>.
\<close>

lemma invalid_clean:
  assumes "tags_inv t" "k < length (ts_blks t)" "blk_isDirty (ts_blks t ! k)"
  shows "blk_isValid (ts_blks t ! k)"
proof (rule ccontr)
  assume "\<not> blk_isValid (ts_blks t ! k)"
  moreover have "blk_accounted (maxMasters t) (ts_blks t ! k)" using assms(1,2) by (simp add: tags_inv_def tags_account_def list_all_length)
  ultimately show False using assms(3) by (simp add: blk_accounted_def blk_isDirty_def)
qed

lemma valid_found:
  assumes "lines_ok cov m t" "k < length (ts_blks t)" "blk_isValid (ts_blks t ! k)"
  obtains a where "findBlock t a False = Some k"
  using assms by (auto simp: lines_ok_def blocks_ok_def)

locale functional_below = functional_memory fwf fcovers fmem_at sendFunctional
  for fwf :: "'m \<Rightarrow> bool" and fcovers :: "'m \<Rightarrow> addr \<Rightarrow> bool" and fmem_at :: "'m \<Rightarrow> addr \<Rightarrow> 8 word"
    and sendFunctional :: "'m \<Rightarrow> sender packet \<Rightarrow> ('m \<times> sender packet) res"
begin

lemma writebackVisitor_law:
  assumes m: "fwf m" and st: "static_ok c" and ok: "lines_ok (fcovers m) (fmem_at m) (c_tags c)" and k: "k < length (ts_blks (c_tags c))"
  shows "\<exists>c' m'. writebackVisitor e sendFunctional c m k = Inr (c', m') \<and> fwf m' \<and> fcovers m' = fcovers m \<and> same_cache c c' \<and>
     lines_ok (fcovers m) (fmem_at m') (c_tags c') \<and> view (c_tags c') (fmem_at m') = view (c_tags c) (fmem_at m) \<and>
     length (ts_blks (c_tags c')) = length (ts_blks (c_tags c)) \<and> \<not> blk_isDirty (ts_blks (c_tags c') ! k) \<and>
     (\<forall>j. j \<noteq> k \<longrightarrow> ts_blks (c_tags c') ! j = ts_blks (c_tags c) ! j)"
proof (cases "blk_isDirty (ts_blks (c_tags c) ! k)")
  case False
  then have "writebackVisitor e sendFunctional c m k = Inr (c, m)" by (simp add: writebackVisitor_def Let_def)
  then show ?thesis using m ok False by simp
next
  case True
  let ?t = "c_tags c" and ?n = "c_blkSize c"
  let ?b = "ts_blks ?t ! k"
  have inv: "tags_inv ?t" and bl: "blocks_ok ?t" and at: "\<And>x. line_at (fcovers m) (fmem_at m) ?t x" using ok by (auto simp: lines_ok_def)
  have v: "blk_isValid ?b" by (rule invalid_clean [OF inv k True])
  obtain a where f: "findBlock ?t a False = Some k" by (rule valid_found [OF ok k v])
  note g = inv_geom [OF inv] and len = found_len [OF inv bl f] and ff = found_facts [OF inv f]
  have bs: "?n = ts_blkSize ?t" "unat ?n < 2 ^ 31" using st by (auto simp: static_ok_def)
  have pos: "0 < unat ?n" using line_off_bound [OF g, of a] bs(1) by simp
  define r where "r = set_taskId (new_Request_phys (blkAlign ?t a) ?n 0 1 (e_now e)) (blk_task_id ?b)"
  note rq = wb_request [of "blkAlign ?t a" ?n 1 "e_now e" "blk_task_id ?b", folded r_def]
  define q where "q = (new_Packet r WriteReq :: sender packet)\<lparr>pkt_data := Some (blk_data ?b), pkt_flags := setFlag (pkt_flags (new_Packet r WriteReq :: sender packet)) STATIC_DATA\<rparr>"
  have ds: "dataStatic (blk_data ?b) (new_Packet r WriteReq) = Inr q"
    using rq by (simp add: dataStatic_def q_def new_Packet_def noneSet_def setFlag_def)
  have q: "pkt_addr q = blkAlign ?t a" "pkt_cmd q = WriteReq" "pkt_req q = r" "carries q (blk_data ?b)" "\<not> memInhibitAsserted q"
    using rq len bs pos line_end_le [OF g, of a] by (simp_all add: q_def new_Packet_def carries_def memInhibitAsserted_def)
  have "fcovers m (blkAlign ?t a + of_nat i)" if "i < length (blk_data ?b)" for i
  proof -
    have "blkAlign ?t (blkAlign ?t a + of_nat i) = blkAlign ?t a"
      using that len by (intro aligned_add(2) [OF g blkAlign_self [OF g]]) simp
    then show ?thesis using at findBlock_line [OF g, of "blkAlign ?t a + of_nat i" a False] f by (auto simp: line_at_def)
  qed
  then have pl: "plain_request (fcovers m) 2 q (blk_data ?b)" using q rq by (simp add: plain_request_def)
  obtain m' p' where s: "sendFunctional m q = Inr (m', p')" "fwf m'" "fcovers m' = fcovers m"
      "fmem_at m' = mem_write (fmem_at m) (blkAlign ?t a) (blk_data ?b)"
    using functional_write_law [OF m pl q(2)] q(1) by auto
  have sp: "spill ?t k (fmem_at m) = fmem_at m'" using s(4) v ff(6) by (simp add: spill_def)
  have rd: "blk_isReadable (clear_status BlkDirty ?b)" using at [of a] f clear_dirty(3) by (simp add: line_at_def)
  note l = line_clean [OF ok f clear_dirty(5) [OF v] clear_dirty(1) rd, unfolded sp]
  have "writebackVisitor e sendFunctional c m k = Inr (c\<lparr>c_tags := upd_blk ?t k (clear_status BlkDirty)\<rparr>, m')"
    using True v ff(6) ds s(1) by (simp add: writebackVisitor_def Let_def r_def)
  then show ?thesis using s(2,3) l k clear_dirty(2) by (simp add: same_cache_tags)
qed

lemma visit_writeback_law:
  assumes "fwf m" "static_ok c" "lines_ok (fcovers m) (fmem_at m) (c_tags c)" "\<forall>k \<in> set ks. k < length (ts_blks (c_tags c))"
  shows "\<exists>c' m'. visit_writeback e sendFunctional c m ks = Inr (c', m') \<and> fwf m' \<and> fcovers m' = fcovers m \<and> same_cache c c' \<and>
     lines_ok (fcovers m) (fmem_at m') (c_tags c') \<and> view (c_tags c') (fmem_at m') = view (c_tags c) (fmem_at m) \<and>
     length (ts_blks (c_tags c')) = length (ts_blks (c_tags c)) \<and>
     (\<forall>k < length (ts_blks (c_tags c)). k \<in> set ks \<or> \<not> blk_isDirty (ts_blks (c_tags c) ! k) \<longrightarrow> \<not> blk_isDirty (ts_blks (c_tags c') ! k))"
  using assms
proof (induction ks arbitrary: c m)
  case (Cons k ks)
  then obtain c1 m1 where s: "writebackVisitor e sendFunctional c m k = Inr (c1, m1)" "fwf m1" "fcovers m1 = fcovers m" "same_cache c c1"
     "lines_ok (fcovers m) (fmem_at m1) (c_tags c1)" "view (c_tags c1) (fmem_at m1) = view (c_tags c) (fmem_at m)"
     "length (ts_blks (c_tags c1)) = length (ts_blks (c_tags c))" "\<not> blk_isDirty (ts_blks (c_tags c1) ! k)"
     "\<And>j. j \<noteq> k \<Longrightarrow> ts_blks (c_tags c1) ! j = ts_blks (c_tags c) ! j"
    using writebackVisitor_law [OF Cons.prems(1-3), of k e] by auto
  obtain c' m' where t: "visit_writeback e sendFunctional c1 m1 ks = Inr (c', m')" "fwf m'" "fcovers m' = fcovers m" "same_cache c1 c'"
     "lines_ok (fcovers m) (fmem_at m') (c_tags c')" "view (c_tags c') (fmem_at m') = view (c_tags c1) (fmem_at m1)"
     "length (ts_blks (c_tags c')) = length (ts_blks (c_tags c))"
     "\<And>j. j < length (ts_blks (c_tags c)) \<Longrightarrow> j \<in> set ks \<or> \<not> blk_isDirty (ts_blks (c_tags c1) ! j) \<Longrightarrow> \<not> blk_isDirty (ts_blks (c_tags c') ! j)"
    using Cons.IH [OF s(2) same_cache_static [OF s(4) Cons.prems(2)]] s(3,5,7) Cons.prems(4) by auto
  have "\<not> blk_isDirty (ts_blks (c_tags c') ! j)" if "j < length (ts_blks (c_tags c))" "j \<in> set (k # ks) \<or> \<not> blk_isDirty (ts_blks (c_tags c) ! j)" for j
    using t(8) [OF that(1)] that(2) s(8) s(9) [of j] by (cases "j = k") auto
  then show ?case using s(1,6) t(1-7) same_cache_trans [OF s(4) t(4)] by simp
qed simp

end


text \<open>Dropping clean blocks changes nothing that can be seen.\<close>

lemma invalidateVisitor_law:
  assumes ok: "lines_ok cov m (c_tags c)" and k: "k < length (ts_blks (c_tags c))" and cl: "\<not> blk_isDirty (ts_blks (c_tags c) ! k)"
  shows "\<exists>c'. invalidateVisitor e c k = Inr c' \<and> same_cache c c' \<and> lines_ok cov m (c_tags c') \<and> view (c_tags c') m = view (c_tags c) m \<and>
     length (ts_blks (c_tags c')) = length (ts_blks (c_tags c)) \<and> \<not> blk_isValid (ts_blks (c_tags c') ! k) \<and>
     (\<forall>j. j \<noteq> k \<longrightarrow> ts_blks (c_tags c') ! j = ts_blks (c_tags c) ! j)"
proof (cases "blk_isValid (ts_blks (c_tags c) ! k)")
  case False
  then show ?thesis using ok by (simp add: invalidateVisitor_def Let_def)
next
  case True
  have inv: "tags_inv (c_tags c)" using ok by (simp add: lines_ok_def)
  obtain a where f: "findBlock (c_tags c) a False = Some k" by (rule valid_found [OF ok k True])
  obtain t b where t: "give_up e c (Tag_Blk k) = Inr (c\<lparr>c_tags := t\<rparr>)" "tags_inv t" "same_geom (c_tags c) t"
    "ts_blks t = (ts_blks (c_tags c))[k := b]" "\<not> blk_isValid b" "blk_data b = blk_data (ts_blks (c_tags c) ! k)"
    "\<And>x s. findBlock t x s = (if findBlock (c_tags c) x s = Some k then None else findBlock (c_tags c) x s)"
    using give_up_law [OF inv f] by blast
  note ev = line_evict [OF ok t(2,3) k t(7,4,5,6), unfolded spill_clean [OF ok k cl]]
  show ?thesis using True cl t(1,3,4,5) ev k by (simp add: invalidateVisitor_def Let_def same_cache_tags)
qed

lemma visit_invalidate_law:
  assumes "lines_ok cov m (c_tags c)" "\<forall>k < length (ts_blks (c_tags c)). \<not> blk_isDirty (ts_blks (c_tags c) ! k)"
    "\<forall>k \<in> set ks. k < length (ts_blks (c_tags c))"
  shows "\<exists>c'. visit_invalidate e c ks = Inr c' \<and> same_cache c c' \<and> lines_ok cov m (c_tags c') \<and> view (c_tags c') m = view (c_tags c) m \<and>
     (\<forall>k < length (ts_blks (c_tags c)). k \<in> set ks \<or> \<not> blk_isValid (ts_blks (c_tags c) ! k) \<longrightarrow> \<not> blk_isValid (ts_blks (c_tags c') ! k)) \<and>
     length (ts_blks (c_tags c')) = length (ts_blks (c_tags c))"
  using assms
proof (induction ks arbitrary: c)
  case (Cons k ks)
  then obtain c1 where s: "invalidateVisitor e c k = Inr c1" "same_cache c c1" "lines_ok cov m (c_tags c1)" "view (c_tags c1) m = view (c_tags c) m"
     "length (ts_blks (c_tags c1)) = length (ts_blks (c_tags c))" "\<not> blk_isValid (ts_blks (c_tags c1) ! k)"
     "\<And>j. j \<noteq> k \<Longrightarrow> ts_blks (c_tags c1) ! j = ts_blks (c_tags c) ! j"
    using invalidateVisitor_law [OF Cons.prems(1), of k e] by auto
  have "\<forall>j < length (ts_blks (c_tags c1)). \<not> blk_isDirty (ts_blks (c_tags c1) ! j)"
  proof (intro allI impI)
    fix j assume j: "j < length (ts_blks (c_tags c1))"
    show "\<not> blk_isDirty (ts_blks (c_tags c1) ! j)"
      using invalid_clean [of "c_tags c1" j] s(3,5,6) s(7) [of j] j Cons.prems(2) by (cases "j = k") (auto simp: lines_ok_def)
  qed
  then obtain c' where t: "visit_invalidate e c1 ks = Inr c'" "same_cache c1 c'" "lines_ok cov m (c_tags c')" "view (c_tags c') m = view (c_tags c1) m"
     "\<And>j. j < length (ts_blks (c_tags c)) \<Longrightarrow> j \<in> set ks \<or> \<not> blk_isValid (ts_blks (c_tags c1) ! j) \<Longrightarrow> \<not> blk_isValid (ts_blks (c_tags c') ! j)"
     "length (ts_blks (c_tags c')) = length (ts_blks (c_tags c))"
    using Cons.IH [OF s(3)] s(5) Cons.prems(3) by auto
  have "\<not> blk_isValid (ts_blks (c_tags c') ! j)" if "j < length (ts_blks (c_tags c))" "j \<in> set (k # ks) \<or> \<not> blk_isValid (ts_blks (c_tags c) ! j)" for j
    using t(5) [OF that(1)] that(2) s(6) s(7) [of j] by (cases "j = k") auto
  then show ?case using s(1,4) t(1-4,6) same_cache_trans [OF s(2) t(2)] by simp
qed simp

interpretation flush_below: functional_below sm_idle am_covers am_at "sm_recvFunctional ips"
  for ips
  by (intro functional_below.intro simple_functional.functional_memory_axioms)

lemma no_valid_view:
  assumes "tags_inv t" "\<forall>k < length (ts_blks t). \<not> blk_isValid (ts_blks t ! k)"
  shows "view t m = m" "findBlock t a s = None"
proof -
  have n: "findBlock t x s' = None" for x s' using found_facts(1,2) [OF assms(1), of x s'] assms(2) by (cases "findBlock t x s'") auto
  show "view t m = m" "findBlock t a s = None" using n by (simp_all add: view_def fun_eq_iff)
qed

text \<open>
  C6: Flushing a cache over an idle memory loses nothing. Whatever the cache holds, as long as its clean lines agree with
  memory, \<open>memWriteback\<close> succeeds, leaves no dirty block, and makes memory at every address equal to what the cache
  showed there; \<open>memInvalidate\<close> then succeeds too (its assertion that no block is dirty holds) and leaves no address in the
  cache, so that what is seen is memory alone, unchanged.
\<close>
theorem flush_lossless:
  assumes "sm_idle m" "static_ok c" "lines_ok (am_covers m) (am_at m) (c_tags c)"
  shows "\<exists>c1 m' c2. memWriteback e (sm_recvFunctional ips) c m = Inr (c1, m') \<and> \<not> c_isDirty c1 \<and>
     am_at m' = view (c_tags c) (am_at m) \<and> memInvalidate e' c1 = Inr c2 \<and> (\<forall>a sec. \<not> inCache c2 a sec) \<and>
     static_ok c2 \<and> lines_ok (am_covers m') (am_at m') (c_tags c2)"
proof -
  let ?n = "length (ts_blks (c_tags c))"
  obtain c1 m' where w: "visit_writeback e (sm_recvFunctional ips) c m [0..<?n] = Inr (c1, m')" "am_covers m' = am_covers m" "same_cache c c1"
     "lines_ok (am_covers m) (am_at m') (c_tags c1)" "view (c_tags c1) (am_at m') = view (c_tags c) (am_at m)"
     "length (ts_blks (c_tags c1)) = ?n" "\<forall>k < ?n. \<not> blk_isDirty (ts_blks (c_tags c1) ! k)"
    using flush_below.visit_writeback_law [OF assms, of "[0..<?n]" e ips] by auto
  obtain c2 where i: "visit_invalidate e' c1 [0..<?n] = Inr c2" "same_cache c1 c2" "lines_ok (am_covers m) (am_at m') (c_tags c2)"
     "view (c_tags c2) (am_at m') = view (c_tags c1) (am_at m')" "\<forall>k < length (ts_blks (c_tags c2)). \<not> blk_isValid (ts_blks (c_tags c2) ! k)"
    using visit_invalidate_law [OF w(4), of "[0..<?n]" e'] w(6,7) by auto
  have inv: "tags_inv (c_tags c2)" using i(3) by (simp add: lines_ok_def)
  note nv = no_valid_view [OF inv i(5)]
  have "\<not> c_isDirty c1" using w(6,7) by (simp add: c_isDirty_def list_ex_length)
  then show ?thesis using w i nv same_cache_static [OF same_cache_trans [OF w(3) i(2)] assms(2)]
    by (auto simp: memWriteback_def memInvalidate_def inCache_def)
qed


interpretation below_idle: memory_below sm_idle am_covers am_masters am_at "sm_recvAtomic draw"
  for draw
  by (intro memory_below.intro idle_memory.atomic_memory_axioms)

text \<open>A cache with two dirty lines, one of which has been evicted, is flushed.\<close>

theorem flush_lossless_witness:
  "\<exists>t h c c' m' qs c1 m1 c2. new_BaseSetAssoc (\<lambda>_. 0) 2 demo_l1_params = Inr t \<and>
     new_Cache (\<lambda>_. 0) [] (p_block_size demo_l1_params) 2 False t LRU_Policy demo_cache_params = Inr (h, c) \<and>
     atomic_run h (sm_recvAtomic 0) c demo_ram demo_requests = Inr (c', m', qs) \<and>
     memWriteback demo_env (sm_recvFunctional (\<lambda>_. False)) c' m' = Inr (c1, m1) \<and> memInvalidate demo_env c1 = Inr c2 \<and>
     flat_run (am_at demo_ram) (map snd demo_requests) qs (am_at m1)"
proof -
  obtain t h c where c: "new_BaseSetAssoc (\<lambda>_. 0) 2 demo_l1_params = Inr t"
     "new_Cache (\<lambda>_. 0) [] (p_block_size demo_l1_params) 2 False t LRU_Policy demo_cache_params = Inr (h, c)"
     "static_ok c" "c_tags c = t" "c_maxMasters c = 2" "list_all (\<lambda>(e, p). cpu_packet c (am_covers demo_ram) p) demo_requests"
    using demo_l1 by blast
  have m: "sm_idle demo_ram" "am_masters demo_ram = 2"
    using demo_ram_facts by (simp_all add: sm_idle_def demo_ram_def setBackingStore_def new_SimpleMemory_def abstract_mem.defs simple_mem.defs)
  obtain c' m' qs where r: "atomic_run h (sm_recvAtomic 0) c demo_ram demo_requests = Inr (c', m', qs)" "sm_idle m'" "same_cache c c'"
     "am_covers m' = am_covers demo_ram" "lines_ok (am_covers m') (am_at m') (c_tags c')"
     "flat_run (am_at demo_ram) (map snd demo_requests) qs (view (c_tags c') (am_at m'))"
    using below_idle.atomic_run_law [OF m(1) c(3) _ _ c(6), of h 0] m(2) c(3-5) new_tags_lines(1,2) [OF c(1)] by auto
  from flush_lossless [OF r(2) same_cache_static [OF r(3) c(3)] r(5), of demo_env "\<lambda>_. False" demo_env] c(1,2) r(1,6) show ?thesis by auto
qed

end
