(* ===== verification/Spec2Isabelle.thy ===== *)
theory Spec2Isabelle
  imports LDS_Prefetcher Tag_Policies MSHR_Queue Prefetch_Generators Cache_Flush
begin

text \<open>
  A linked-data-structure (LDS) prefetcher and the cache hierarchy of the gem5 simulator it was designed for.

  The repository holds a proposed prefetcher (\<open>src/*.cc\<close>, \<open>src/*.hh\<close>) and the simulator sources it is to be built into
  (\<open>src/gem5_src\<close>). The development models the prefetcher completely and, of the simulator, the classic memory
  system around it: requests and packets, cache blocks and tag stores, miss status holding registers and their queue, the
  queued prefetchers, the cache controller, and the simple memory controller behind it.

  \<^bold>\<open>Conventions.\<close> Addresses and ticks are 64-bit words and integers keep the width of the source where they can wrap.
  Structures are records, a subclass extends the record of its base class, enumerations are datatypes. An
  operation that can stop at an assertion, a \<open>fatal\<close>, a \<open>panic\<close>, or an access outside a container returns \<open>sim_error + 'a\<close>
  (\<open>Prelude\<close>). What the code takes from its surroundings is an argument: the current tick, the result of the random
  generator, the contents of fresh memory, and virtual methods. Statistics that operations update are fields; their
  registration is not modelled.

  \<^bold>\<open>The LDS prefetcher.\<close>
  \<^item> \<open>Direction_Predictor\<close> (\<open>src/direction_predictor.cc\<close>): the table indexed by a hash of program counter and direction.
    A prediction carries the flags of the last update of its slot; two-pointer mode reads past the end from the last slot.
  \<^item> \<open>Target_Reg_Bitmap\<close> (\<open>src/targetregbitmap.cc\<close>): the bitmap of registers that may hold pointers, with one checkpoint per
    unresolved branch; a misprediction restores the oldest.
  \<^item> \<open>Pattern_Table\<close> (\<open>src/pattern_table.cc\<close>): the pointer slots of the known loads. The loops are modelled over an
    iterator range, so that both the range written in the source (empty) and the whole table can be instantiated.
  \<^item> \<open>LDS_Prefetcher\<close> (\<open>src/ldsprefetcher.cc\<close>): the composition, with the invariant of every reachable state.
  \<^item> \<open>Table_Spec\<close> is the contract of an indexed table (locale \<open>indexed_table\<close>) the direction predictor provides.

  \<^bold>\<open>Requests and packets.\<close>
  \<^item> \<open>Mem_Request\<close> (\<open>mem/request.hh\<close>, \<open>base/flags.hh\<close>): flag sets and requests with a validity bit per field.
  \<^item> \<open>Mem_Cmd\<close> (\<open>mem/packet.hh\<close>, \<open>mem/packet.cc\<close>): the commands and the attribute table, a consistent protocol.
  \<^item> \<open>Packet\<close> (\<open>mem/packet.hh\<close>, \<open>mem/packet.cc\<close>): construction, responses, payload and functional accesses. A functional
    write merges byte by byte; a functional read that runs past a value receives one byte too few.
  \<^item> \<open>Int_Math\<close> (\<open>base/intmath.hh\<close>): powers of two, logarithms and rounding.

  \<^bold>\<open>Cache lines.\<close>
  \<^item> \<open>Cache_Blk\<close> (\<open>mem/cache/blk.hh\<close>): the state of a block and its load-locked reservations; a store conditional succeeds
    exactly if its reservation survived.
  \<^item> \<open>Cache_Set\<close>, \<open>Base_Set_Assoc\<close> (\<open>mem/cache/tags/cacheset.hh\<close>, \<open>base_set_assoc.hh\<close>, \<open>base_set_assoc.cc\<close>): the set-associative
    store with its address arithmetic and occupancy statistics.
  \<^item> \<open>Tag_Policies\<close> (\<open>mem/cache/tags/lru.cc\<close>, \<open>random_repl.cc\<close>): the two replacement policies. The locale \<open>way_order\<close> says that a
    policy permutes the ways of a set, the locale \<open>line_store\<close> (\<open>Line_Store_Spec\<close>) what a store of lines promises; both are
    interpreted on both policies. LRU keeps a line until as many other lines of its set have been touched as the set has ways.

  \<^bold>\<open>Misses.\<close>
  \<^item> \<open>MSHR\<close> (\<open>mem/cache/mshr.hh\<close>, \<open>mshr.cc\<close>): the registers of all caches form one list, the heap, because a packet's
    sender state points to the register of the cache above. \<open>clearDownstreamPending\<close> follows these pointers; it has a fuel
    argument, and more fuel than pending registers is proved to be enough.
  \<^item> \<open>MSHR_Queue\<close> (\<open>mem/cache/mshr_queue.hh\<close>, \<open>mshr_queue.cc\<close>): the free, allocated and ready lists of a queue, a step
    relation over all operations, and the invariant of every reachable state.

  \<^bold>\<open>Prefetching.\<close>
  \<^item> \<open>Queued_Prefetcher\<close> (\<open>mem/cache/prefetch/base.cc\<close>, \<open>queued.cc\<close>): the observation filter and the queue, over an arbitrary
    generator of candidates; the locale \<open>page_generators\<close> is what the queue relies on.
  \<^item> \<open>Prefetch_Generators\<close> (\<open>mem/cache/prefetch/tagged.cc\<close>, \<open>stride.cc\<close>): the two generators, which interpret that locale.

  \<^bold>\<open>Memory.\<close>
  \<^item> \<open>Bitfield\<close>, \<open>Addr_Range\<close> (\<open>base/bitfield.hh\<close>, \<open>base/addr_range.hh\<close>): bit fields, the two bit searches, and address ranges with
    plain and hashed interleaving; the ranges of one interleaving split the addresses between them.
  \<^item> \<open>Memory_Spec\<close>: memory as bytes at addresses, and the locales \<open>atomic_memory\<close> and \<open>functional_memory\<close> of what a cache relies on
    when it sends packets to the level below.
  \<^item> \<open>Abstract_Memory\<close>, \<open>Simple_Memory\<close> (\<open>mem/abstract_mem.cc\<close>, \<open>mem/simple_mem.cc\<close>): the memory with its reservations and statistics,
    and the controller with its queue, retries and draining, which interprets both locales. \<open>Sim_Event\<close> (\<open>sim/eventq_impl.hh\<close>)
    is the handle of a scheduled event.

  \<^bold>\<open>The cache controller\<close> (\<open>mem/cache/cache_impl.hh\<close>, \<open>cache.hh\<close>, \<open>base.hh\<close>, \<open>base.cc\<close>).
  \<^item> \<open>Cache_Access\<close>: the state of the cache and its operations: lookup, serving a request from a block, replacement, fill,
    write-backs, the atomic mode and flushing. The port towards memory is a function on the state of what is behind it.
  \<^item> \<open>Tag_Interface\<close>: the locale \<open>tag_policy\<close> of what the cache relies on in its tag store, interpreted on both policies.
  \<^item> \<open>Cache_Lines\<close>: the bytes a tag store shows over a memory, and how they change when a line is written, evicted or installed.
  \<^item> \<open>Cache_Serve\<close>, \<open>Cache_Fill\<close>: serving, replacement, fill and access, in terms of these bytes.
  \<^item> \<open>Cache_Atomic\<close>: whole requests over any memory (locale \<open>memory_below\<close>, interpreted on the simple memory). A cache is
    invisible: it answers every sequence of requests as an array of bytes would.
  \<^item> \<open>Cache_Flush\<close>: writing back and invalidating everything (locale \<open>functional_below\<close>) loses nothing.

  \<^bold>\<open>Not modelled.\<close> The timing mode of the cache controller and its snoops, the interconnect and the DRAM controllers, the Ruby
  memory system, processors, instruction sets, devices and the simulation core. Debug printing and the registration of
  statistics have no effect on the modelled state.
\<close>

end
